(* ===== verification/Prelude.thy ===== *)
theory Prelude
  imports Main "HOL-Library.Word"
begin

text \<open>
  Shared vocabulary of the development: the widths of the C integer types, the little-endian
  reads the kernel performs on raw memory, and the generic facts on words, masks, bits and
  counted loops that the component theories rest on.

  Conventions used everywhere.
  \<^item> \<open>uint8_t\<close>, \<open>uint32_t\<close>, \<open>uint64_t\<close>, \<open>uintptr_t\<close> and the \<open>size_t\<close> values that are
    data are words of their width, so that \<open>+\<close>, \<open>-\<close> and \<open>*\<close> wrap as in C.
    Loop counters and array indices are \<open>nat\<close>.
  \<^item> A pointer argument is an option: \<open>None\<close> is \<open>NULL\<close>, \<open>Some v\<close> points at \<open>v\<close>.
    An output pointer is passed in and handed back, so that a path that does not
    write through it returns the old contents.
\<close>

unbundle bit_operations_syntax

type_synonym u8 = "8 word"
type_synonym u32 = "32 word"
type_synonym u64 = "64 word"

named_theorems word_arith \<open>word operations read as arithmetic on natural numbers\<close>

subsection \<open>Arithmetic that does not wrap\<close>

lemma unat_less_size: "unat (w :: 'a::len word) < 2 ^ LENGTH('a)"
  by (rule unsigned_less)

lemma unat_plus_bounded:
  assumes "unat a + unat b < 2 ^ LENGTH('a)"
  shows "unat (a + b :: 'a::len word) = unat a + unat b"
  using assms by (simp add: unat_word_ariths)

lemma unat_plus_le_unat:
  assumes "unat a + unat b \<le> unat (c :: 'a::len word)"
  shows "unat (a + b :: 'a word) = unat a + unat b"
  using assms unat_less_size [of c] by (intro unat_plus_bounded) linarith

lemma checked_add_iff:
  "(b :: u64) \<le> 0xFFFFFFFFFFFFFFFF - a \<longleftrightarrow> unat a + unat b < 2 ^ 64"
proof -
  have "a \<le> 0xFFFFFFFFFFFFFFFF"
    using unat_less_size [of a] by (simp add: word_le_nat_alt)
  then show ?thesis
    using unat_less_size [of a] by (auto simp: word_le_nat_alt unat_sub)
qed

lemma unat_plus_checked:
  assumes "b \<le> 0xFFFFFFFFFFFFFFFF - (a :: u64)"
  shows "unat (a + b) = unat a + unat b"
  using assms by (intro unat_plus_bounded) (simp add: checked_add_iff)

lemma checked_add_swap:
  "(b :: u64) \<le> 0xFFFFFFFFFFFFFFFF - a \<longleftrightarrow> a \<le> 0xFFFFFFFFFFFFFFFF - b"
  by (simp add: checked_add_iff add.commute)

lemma word_mod_eq_0_iff: "(w :: 'a::len word) mod v = 0 \<longleftrightarrow> unat v dvd unat w"
  by (simp only: unat_eq_0 [symmetric] unat_mod dvd_eq_mod_eq_0)

lemma unat_mult_bounded:
  assumes "unat a * unat b < 2 ^ LENGTH('a)"
  shows "unat (a * b :: 'a::len word) = unat a * unat b"
  using assms by (simp add: unat_word_ariths)

lemma unat_of_nat_small: "n < 2 ^ LENGTH('a) \<Longrightarrow> unat (of_nat n :: 'a::len word) = n"
  by (simp add: unat_of_nat)

lemma unat_ucast_u32 [simp]: "unat (ucast (w :: u32) :: u64) = unat w"
proof -
  have "unat w < 2 ^ 64"
    using unat_less_size [of w] by simp
  then show ?thesis
    by (simp add: unsigned_ucast_eq take_bit_nat_eq_self)
qed

subsection \<open>Masks as modulus and alignment\<close>

lemma unat_and_mask [word_arith]: "unat ((w :: 'a::len word) AND mask n) = unat w mod 2 ^ n"
proof -
  have "unat (take_bit n w) = take_bit n (unat w)"
    by (rule unsigned_take_bit_eq)
  then show ?thesis
    by (simp only: take_bit_eq_mask [symmetric]) (simp only: take_bit_eq_mod)
qed

lemma mask_12: "(0xFFF :: 'a::len word) = mask 12"
  by (simp add: mask_eq_exp_minus_1)

lemma mask_21: "(0x1FFFFF :: 'a::len word) = mask 21"
  by (simp add: mask_eq_exp_minus_1)

lemma unat_and_FFF [word_arith]: "unat ((w :: u64) AND 0xFFF) = unat w mod 4096"
  using unat_and_mask [of w 12] by (simp add: mask_12)

lemma and_FFF_eq_0_iff: "(w :: u64) AND 0xFFF = 0 \<longleftrightarrow> 4096 dvd unat w"
  by (metis dvd_eq_mod_eq_0 unat_and_FFF unat_eq_0)

lemma word_split_and_not:
  "(w AND m) + (w AND NOT m) = (w :: 'a::len word)"
proof -
  have "(w AND m) + (w AND NOT m) = (w AND m) OR (w AND NOT m)"
    by (rule disjunctive_add) (simp add: bit_simps)
  also have "\<dots> = w"
    by (rule bit_word_eqI) (auto simp: bit_simps)
  finally show ?thesis .
qed

lemma unat_and_not_mask [word_arith]:
  "unat ((w :: 'a::len word) AND NOT (mask n)) = unat w - unat w mod 2 ^ n"
proof -
  have "w AND NOT (mask n) = w - (w AND mask n)"
    using word_split_and_not [of w "mask n"] by (simp add: eq_diff_eq add.commute)
  moreover have "unat (w AND mask n) \<le> unat w"
    by (simp add: unat_and_mask)
  ultimately show ?thesis
    by (simp add: unat_sub word_le_nat_alt unat_and_mask)
qed

lemma unat_and_not_FFF [word_arith]:
  "unat ((w :: u64) AND NOT 0xFFF) = unat w - unat w mod 4096"
  using unat_and_not_mask [of w 12] unfolding mask_12 by simp

subsection \<open>Single bits\<close>

lemma and_exp_nonzero_iff: "((w :: 'a::len word) AND 2 ^ k \<noteq> 0) \<longleftrightarrow> bit w k"
proof -
  have "w AND 2 ^ k = (if bit w k then 2 ^ k else 0)"
    by (rule bit_word_eqI) (auto simp: bit_simps)
  moreover have "bit w k \<Longrightarrow> (2 :: 'a word) ^ k \<noteq> 0"
    by (auto dest: bit_imp_le_length)
  ultimately show ?thesis by simp
qed

lemma bit_or_exp_iff:
  "bit ((w :: 'a::len word) OR 2 ^ k) i \<longleftrightarrow> bit w i \<or> (i = k \<and> k < LENGTH('a))"
  by (auto simp: bit_simps)

lemma bit_and_not_exp_iff:
  "bit ((w :: 'a::len word) AND NOT (2 ^ k)) i \<longleftrightarrow> bit w i \<and> i \<noteq> k"
  by (auto simp: bit_simps dest: bit_imp_le_length)

subsection \<open>Little-endian memory\<close>

type_synonym memory = "u64 \<Rightarrow> u8"

definition load8 :: "memory \<Rightarrow> u64 \<Rightarrow> u8" where
  "load8 m a = m a"

definition load32 :: "memory \<Rightarrow> u64 \<Rightarrow> u32" where
  "load32 m a = ucast (m a) OR push_bit 8 (ucast (m (a + 1)))
     OR push_bit 16 (ucast (m (a + 2))) OR push_bit 24 (ucast (m (a + 3)))"

definition load64 :: "memory \<Rightarrow> u64 \<Rightarrow> u64" where
  "load64 m a = ucast (load32 m a) OR push_bit 32 (ucast (load32 m (a + 4)))"

text \<open>Two memories hold the same bytes in \<open>[base, base + n)\<close>.\<close>

definition agree_on :: "memory \<Rightarrow> memory \<Rightarrow> u64 \<Rightarrow> nat \<Rightarrow> bool" where
  "agree_on m m' base n \<longleftrightarrow> (\<forall>k < n. m (base + of_nat k) = m' (base + of_nat k))"

lemma agree_on_byte:
  assumes "agree_on m m' base n" and "unat k < n"
  shows "m (base + k) = m' (base + k)"
proof -
  have "m (base + of_nat (unat k)) = m' (base + of_nat (unat k))"
    using assms unfolding agree_on_def by blast
  then show ?thesis by simp
qed

lemma agree_on_shift:
  assumes "agree_on m m' base n" and "unat offset + len \<le> n"
  shows "agree_on m m' (base + offset) len"
  unfolding agree_on_def
proof (intro allI impI)
  fix k assume "k < len"
  then have "unat offset + k < n" using assms(2) by simp
  then have "m (base + of_nat (unat offset + k)) = m' (base + of_nat (unat offset + k))"
    using assms(1) unfolding agree_on_def by blast
  then show "m (base + offset + of_nat k) = m' (base + offset + of_nat k)"
    by (simp add: add.assoc)
qed

lemma load32_agree0:
  assumes "agree_on m m' base n" and "4 \<le> n"
  shows "load32 m base = load32 m' base"
  using assms agree_on_byte [OF assms(1), of 0] agree_on_byte [OF assms(1), of 1]
    agree_on_byte [OF assms(1), of 2] agree_on_byte [OF assms(1), of 3]
  by (simp add: load32_def)

lemma load32_agree:
  assumes "agree_on m m' base n" and "unat k + 4 \<le> n"
  shows "load32 m (base + k) = load32 m' (base + k)"
  by (rule load32_agree0 [OF agree_on_shift [OF assms(1)]]) (use assms(2) in auto)

lemma load64_agree:
  assumes "agree_on m m' base n" and "unat k + 8 \<le> n"
  shows "load64 m (base + k) = load64 m' (base + k)"
proof -
  have a: "agree_on m m' (base + k) 8"
    by (rule agree_on_shift [OF assms(1)]) (use assms(2) in simp)
  show ?thesis
    using load32_agree0 [OF a] load32_agree [OF a, of 4] by (simp add: load64_def)
qed

subsection \<open>Counting\<close>

lemma card_Collect_less_Suc:
  "card {i. i < Suc n \<and> P i} = (if P n then Suc (card {i. i < n \<and> P i}) else card {i. i < n \<and> P i})"
proof -
  have "{i. i < Suc n \<and> P i} = (if P n then insert n {i. i < n \<and> P i} else {i. i < n \<and> P i})"
    by (auto simp: less_Suc_eq)
  then show ?thesis by simp
qed

lemma fold_upt_Suc: "a \<le> b \<Longrightarrow> fold f [a..<Suc b] s = f b (fold f [a..<b] s)"
  by simp

lemma fold_upt_invariant:
  assumes "P a s" and "\<And>i s. a \<le> i \<Longrightarrow> i < b \<Longrightarrow> P i s \<Longrightarrow> P (Suc i) (f i s)" and "a \<le> b"
  shows "P b (fold f [a..<b] s)"
  using assms(3,2)
proof (induction b rule: dec_induct)
  case base
  then show ?case using assms(1) by simp
next
  case (step n)
  then show ?case by (simp add: fold_upt_Suc)
qed

end
