(* ===== verification/Boot_Info.thy ===== *)
theory Boot_Info
  imports Prelude
begin

text \<open>
  The Multiboot2 information parser, \<open>src/src/kernel/multiboot2.c\<close> with its types from
  \<open>src/include/sapote/boot.h\<close>.  Physical memory is a total_len byte map; the parser is a function
  of that map, the loader's magic and the information address.  Pointers into the information
  block are addresses, \<open>None\<close> being \<open>NULL\<close>.

  The lemmas show that the parser reads no byte outside the information block the loader
  declared (its result is determined by the bytes inside it), and what a successful parse
  establishes about the memory map, the block's bounds and the framebuffer.
\<close>

subsection \<open>Types and constants of boot.h\<close>

definition SAPOTE_EARLY_PHYSICAL_LIMIT :: u64 where
  "SAPOTE_EARLY_PHYSICAL_LIMIT = 0x100000000"

definition MULTIBOOT2_BOOT_MAGIC :: u32 where "MULTIBOOT2_BOOT_MAGIC = 0x36D76289"
definition MULTIBOOT2_MAX_INFORMATION_SIZE :: u64 where
  "MULTIBOOT2_MAX_INFORMATION_SIZE = 16 * 1024 * 1024"

definition MULTIBOOT2_TAG_END :: u32 where "MULTIBOOT2_TAG_END = 0"
definition MULTIBOOT2_TAG_COMMAND_LINE :: u32 where "MULTIBOOT2_TAG_COMMAND_LINE = 1"
definition MULTIBOOT2_TAG_BOOT_LOADER_NAME :: u32 where "MULTIBOOT2_TAG_BOOT_LOADER_NAME = 2"
definition MULTIBOOT2_TAG_MODULE :: u32 where "MULTIBOOT2_TAG_MODULE = 3"
definition MULTIBOOT2_TAG_MEMORY_MAP :: u32 where "MULTIBOOT2_TAG_MEMORY_MAP = 6"
definition MULTIBOOT2_TAG_FRAMEBUFFER :: u32 where "MULTIBOOT2_TAG_FRAMEBUFFER = 8"
definition MULTIBOOT2_TAG_ACPI_OLD :: u32 where "MULTIBOOT2_TAG_ACPI_OLD = 14"
definition MULTIBOOT2_TAG_ACPI_NEW :: u32 where "MULTIBOOT2_TAG_ACPI_NEW = 15"
definition MULTIBOOT2_MEMORY_AVAILABLE :: u32 where "MULTIBOOT2_MEMORY_AVAILABLE = 1"

lemmas boot_constants =
  SAPOTE_EARLY_PHYSICAL_LIMIT_def MULTIBOOT2_BOOT_MAGIC_def MULTIBOOT2_MAX_INFORMATION_SIZE_def
  MULTIBOOT2_TAG_END_def MULTIBOOT2_TAG_COMMAND_LINE_def MULTIBOOT2_TAG_BOOT_LOADER_NAME_def
  MULTIBOOT2_TAG_MODULE_def MULTIBOOT2_TAG_MEMORY_MAP_def MULTIBOOT2_TAG_FRAMEBUFFER_def
  MULTIBOOT2_TAG_ACPI_OLD_def MULTIBOOT2_TAG_ACPI_NEW_def MULTIBOOT2_MEMORY_AVAILABLE_def

datatype boot_status =
    BOOT_STATUS_OK
  | BOOT_STATUS_NULL_CONTEXT
  | BOOT_STATUS_BAD_MAGIC
  | BOOT_STATUS_NULL_INFORMATION
  | BOOT_STATUS_MISALIGNED_INFORMATION
  | BOOT_STATUS_INFORMATION_TOO_SMALL
  | BOOT_STATUS_INFORMATION_TOO_LARGE
  | BOOT_STATUS_INFORMATION_SIZE_MISALIGNED
  | BOOT_STATUS_INFORMATION_OVERFLOW
  | BOOT_STATUS_RESERVED_FIELD_NONZERO
  | BOOT_STATUS_TRUNCATED_TAG
  | BOOT_STATUS_TAG_TOO_SMALL
  | BOOT_STATUS_TAG_OVERFLOW
  | BOOT_STATUS_DUPLICATE_MEMORY_MAP
  | BOOT_STATUS_MEMORY_MAP_TOO_SMALL
  | BOOT_STATUS_MEMORY_ENTRY_TOO_SMALL
  | BOOT_STATUS_MEMORY_ENTRY_VERSION
  | BOOT_STATUS_MEMORY_MAP_REMAINDER
  | BOOT_STATUS_MEMORY_REGION_OVERFLOW
  | BOOT_STATUS_UNSUPPORTED_MODULE
  | BOOT_STATUS_STRING_NOT_TERMINATED
  | BOOT_STATUS_ACPI_TAG_TOO_SMALL
  | BOOT_STATUS_DUPLICATE_ACPI_TAG
  | BOOT_STATUS_BAD_END_TAG
  | BOOT_STATUS_MISSING_END_TAG
  | BOOT_STATUS_MISSING_MEMORY_MAP
  | BOOT_STATUS_DUPLICATE_FRAMEBUFFER
  | BOOT_STATUS_FRAMEBUFFER_TAG_TOO_SMALL
  | BOOT_STATUS_FRAMEBUFFER_NOT_DIRECT_COLOUR
  | BOOT_STATUS_BAD_FRAMEBUFFER_DEPTH
  | BOOT_STATUS_BAD_FRAMEBUFFER_GEOMETRY
  | BOOT_STATUS_BAD_FRAMEBUFFER_PITCH
  | BOOT_STATUS_BAD_FRAMEBUFFER_ADDRESS
  | BOOT_STATUS_BAD_FRAMEBUFFER_CHANNEL
  | BOOT_STATUS_FRAMEBUFFER_OUTSIDE_EARLY_MAP

record boot_framebuffer =
  fb_address :: u64
  fb_pitch :: u32
  fb_width :: u32
  fb_height :: u32
  fb_size :: u64
  fb_bits_per_pixel :: u8
  fb_red_position :: u8
  fb_green_position :: u8
  fb_blue_position :: u8
  fb_present :: bool

record boot_memory_region =
  region_base_address :: u64
  region_length :: u64
  region_type :: u32

record boot_information =
  information_start :: u64
  information_end :: u64
  memory_map :: "u64 option"
  acpi_old :: "u64 option"
  acpi_new :: "u64 option"
  boot_loader_name :: "u64 option"
  command_line :: "u64 option"
  boot_loader_name_length :: u64
  command_line_length :: u64
  memory_map_entry_count :: u64
  reported_usable_bytes :: u64
  highest_reported_address :: u64
  framebuffer :: boot_framebuffer

subsection \<open>Helpers of multiboot2.c\<close>

definition range_fits :: "u64 \<Rightarrow> u64 \<Rightarrow> u64 \<Rightarrow> bool" where
  "range_fits offset len total_len \<longleftrightarrow> offset \<le> total_len \<and> len \<le> total_len - offset"

definition align_tag_size :: "u64 \<Rightarrow> u64" where
  "align_tag_size tag_size = (let m = 8 - 1 in (tag_size + m) AND NOT m)"

definition boot_information_reset :: "boot_information \<Rightarrow> boot_information" where
  "boot_information_reset context = context\<lparr>
     information_start := 0, information_end := 0, memory_map := None, acpi_old := None,
     acpi_new := None, boot_loader_name := None, command_line := None,
     boot_loader_name_length := 0, command_line_length := 0, memory_map_entry_count := 0,
     reported_usable_bytes := 0, highest_reported_address := 0,
     framebuffer := (framebuffer context)\<lparr>
       fb_present := False, fb_address := 0, fb_size := 0, fb_pitch := 0, fb_width := 0,
       fb_height := 0, fb_bits_per_pixel := 0, fb_red_position := 0, fb_green_position := 0,
       fb_blue_position := 0\<rparr>\<rparr>"

text \<open>The scan for the terminating zero; \<open>index\<close> runs from the tag header to the tag's end.\<close>

function string_scan :: "memory \<Rightarrow> u64 \<Rightarrow> nat \<Rightarrow> nat \<Rightarrow> u64 option" where
  "string_scan m tag tag_size index =
     (if index < tag_size
      then if m (tag + of_nat index) = 0 then Some (of_nat index - 8)
           else string_scan m tag tag_size (Suc index)
      else None)"
  by pat_completeness auto
termination
  by (relation "measure (\<lambda>(m, tag, tag_size, index). tag_size - index)") auto

declare string_scan.simps [simp del]

definition string_length_within :: "memory \<Rightarrow> u64 \<Rightarrow> u64 \<Rightarrow> u64 option" where
  "string_length_within m tag tag_size =
     (if tag_size \<le> 8 then None else string_scan m tag (unat tag_size) 8)"

definition boot_information_region_at ::
  "memory \<Rightarrow> boot_information option \<Rightarrow> u64 \<Rightarrow> boot_memory_region option
     \<Rightarrow> bool \<times> boot_memory_region option" where
  "boot_information_region_at m context index region =
     (case (context, region) of
        (Some c, Some r) \<Rightarrow>
          (case memory_map c of
             Some map_tag \<Rightarrow>
               if index \<ge> memory_map_entry_count c then (False, Some r)
               else let entry = map_tag + 16 + index * ucast (load32 m (map_tag + 8))
                    in (True, Some \<lparr>region_base_address = load64 m entry,
                                    region_length = load64 m (entry + 8),
                                    region_type = load32 m (entry + 16)\<rparr>)
           | None \<Rightarrow> (False, Some r))
      | _ \<Rightarrow> (False, region))"

text \<open>A local \<open>struct boot_memory_region\<close> before anything is stored in it.\<close>

definition blank_region :: boot_memory_region where
  "blank_region = \<lparr>region_base_address = 0, region_length = 0, region_type = 0\<rparr>"

definition region_of :: "memory \<Rightarrow> boot_information \<Rightarrow> u64 \<Rightarrow> boot_memory_region option" where
  "region_of m context index =
     (case boot_information_region_at m (Some context) index (Some blank_region) of
        (True, r) \<Rightarrow> r | (False, _) \<Rightarrow> None)"

text \<open>What one region of the map adds to the reported totals.\<close>

definition account_region :: "boot_memory_region \<Rightarrow> boot_information \<Rightarrow> boot_information" where
  "account_region region context =
     (let region_end = region_base_address region + region_length region;
          c1 = (if region_end > highest_reported_address context
                then context\<lparr>highest_reported_address := region_end\<rparr> else context)
      in if region_type region = MULTIBOOT2_MEMORY_AVAILABLE then
           if region_length region > 0xFFFFFFFFFFFFFFFF - reported_usable_bytes c1
           then c1\<lparr>reported_usable_bytes := 0xFFFFFFFFFFFFFFFF\<rparr>
           else c1\<lparr>reported_usable_bytes := reported_usable_bytes c1 + region_length region\<rparr>
         else c1)"

text \<open>The loop over the entries of the map.\<close>

function validate_regions ::
  "memory \<Rightarrow> boot_information \<Rightarrow> nat \<Rightarrow> nat \<Rightarrow> boot_status \<times> boot_information" where
  "validate_regions m context entry_count index =
     (if index < entry_count then
        (case region_of m context (of_nat index) of
           None \<Rightarrow> (BOOT_STATUS_TRUNCATED_TAG, context)
         | Some region \<Rightarrow>
             if region_length region > 0xFFFFFFFFFFFFFFFF - region_base_address region
             then (BOOT_STATUS_MEMORY_REGION_OVERFLOW, context)
             else validate_regions m (account_region region context) entry_count (Suc index))
      else (BOOT_STATUS_OK, context))"
  by pat_completeness auto
termination
  by (relation "measure (\<lambda>(m, c, n, i). n - i)") auto

declare validate_regions.simps [simp del]

definition validate_memory_map ::
  "memory \<Rightarrow> u64 \<Rightarrow> boot_information \<Rightarrow> boot_status \<times> boot_information" where
  "validate_memory_map m map_tag context =
     (let tag_size = ucast (load32 m (map_tag + 4)) :: u64;
          entry_size = ucast (load32 m (map_tag + 8)) :: u64
      in if tag_size < 16 then (BOOT_STATUS_MEMORY_MAP_TOO_SMALL, context)
         else if entry_size < 24 then (BOOT_STATUS_MEMORY_ENTRY_TOO_SMALL, context)
         else if load32 m (map_tag + 12) \<noteq> 0 then (BOOT_STATUS_MEMORY_ENTRY_VERSION, context)
         else let payload_size = tag_size - 16
              in if payload_size mod entry_size \<noteq> 0
                 then (BOOT_STATUS_MEMORY_MAP_REMAINDER, context)
                 else let entry_count = payload_size div entry_size;
                          c = context\<lparr>memory_map := Some map_tag,
                                      memory_map_entry_count := entry_count\<rparr>
                      in validate_regions m c (unat entry_count) 0)"

definition decode_framebuffer ::
  "memory \<Rightarrow> u64 \<Rightarrow> boot_framebuffer \<Rightarrow> boot_status \<times> boot_framebuffer" where
  "decode_framebuffer m tag fb =
     (let tag_size = load32 m (tag + 4) in
      if tag_size < 32 then (BOOT_STATUS_FRAMEBUFFER_TAG_TOO_SMALL, fb)
      else
        let address = load64 m (tag + 8);
            pitch = load32 m (tag + 16);
            width = load32 m (tag + 20);
            height = load32 m (tag + 24);
            depth = m (tag + 28);
            kind = m (tag + 29)
        in
        if kind \<noteq> 1 then (BOOT_STATUS_FRAMEBUFFER_NOT_DIRECT_COLOUR, fb)
        else if tag_size < 38 then (BOOT_STATUS_FRAMEBUFFER_TAG_TOO_SMALL, fb)
        else if depth \<noteq> 32 then (BOOT_STATUS_BAD_FRAMEBUFFER_DEPTH, fb)
        else if width = 0 \<or> height = 0 then (BOOT_STATUS_BAD_FRAMEBUFFER_GEOMETRY, fb)
        else if (ucast pitch :: u64) < ucast width * 4 \<or> pitch mod 4 \<noteq> 0
        then (BOOT_STATUS_BAD_FRAMEBUFFER_PITCH, fb)
        else if address = 0 \<or> address mod 4 \<noteq> 0
        then (BOOT_STATUS_BAD_FRAMEBUFFER_ADDRESS, fb)
        else
          let size = (ucast pitch :: u64) * ucast height in
          if size = 0 \<or> size > SAPOTE_EARLY_PHYSICAL_LIMIT
             \<or> address > SAPOTE_EARLY_PHYSICAL_LIMIT - size
          then (BOOT_STATUS_FRAMEBUFFER_OUTSIDE_EARLY_MAP, fb)
          else
            let red = m (tag + 32); green = m (tag + 34); blue = m (tag + 36);
                bad = (\<lambda>(position, mask_size). mask_size \<noteq> 8 \<or> position mod 8 \<noteq> 0 \<or> position \<ge> 32)
            in
            if list_ex bad [(red, m (tag + 33)), (green, m (tag + 35)), (blue, m (tag + 37))]
            then (BOOT_STATUS_BAD_FRAMEBUFFER_CHANNEL, fb)
            else if red = green \<or> green = blue \<or> red = blue
            then (BOOT_STATUS_BAD_FRAMEBUFFER_CHANNEL, fb)
            else (BOOT_STATUS_OK,
                  fb\<lparr>fb_red_position := red, fb_green_position := green,
                     fb_blue_position := blue, fb_address := address, fb_pitch := pitch,
                     fb_width := width, fb_height := height, fb_size := size,
                     fb_bits_per_pixel := depth, fb_present := True\<rparr>))"

subsection \<open>The tag loop\<close>

text \<open>The body of the loop for one tag that is not the end tag.\<close>

definition parse_tag ::
  "memory \<Rightarrow> u64 \<Rightarrow> u32 \<Rightarrow> u32 \<Rightarrow> boot_information \<Rightarrow> boot_status \<times> boot_information" where
  "parse_tag m tag tag_type tag_size context =
     (if tag_type = MULTIBOOT2_TAG_MEMORY_MAP then
        if memory_map context \<noteq> None then (BOOT_STATUS_DUPLICATE_MEMORY_MAP, context)
        else validate_memory_map m tag context
      else if tag_type = MULTIBOOT2_TAG_MODULE then (BOOT_STATUS_UNSUPPORTED_MODULE, context)
      else if tag_type = MULTIBOOT2_TAG_ACPI_OLD \<or> tag_type = MULTIBOOT2_TAG_ACPI_NEW then
        let minimum_payload = (if tag_type = MULTIBOOT2_TAG_ACPI_NEW then 36 else 20) :: u64;
            destination = (if tag_type = MULTIBOOT2_TAG_ACPI_NEW then acpi_new context
                           else acpi_old context)
        in if (ucast tag_size :: u64) < 8 + minimum_payload
           then (BOOT_STATUS_ACPI_TAG_TOO_SMALL, context)
           else if destination \<noteq> None then (BOOT_STATUS_DUPLICATE_ACPI_TAG, context)
           else (BOOT_STATUS_OK,
                 if tag_type = MULTIBOOT2_TAG_ACPI_NEW then context\<lparr>acpi_new := Some tag\<rparr>
                 else context\<lparr>acpi_old := Some tag\<rparr>)
      else if tag_type = MULTIBOOT2_TAG_FRAMEBUFFER then
        if fb_present (framebuffer context) then (BOOT_STATUS_DUPLICATE_FRAMEBUFFER, context)
        else (case decode_framebuffer m tag (framebuffer context) of
                (status, fb) \<Rightarrow> (status, context\<lparr>framebuffer := fb\<rparr>))
      else if tag_type = MULTIBOOT2_TAG_BOOT_LOADER_NAME
              \<or> tag_type = MULTIBOOT2_TAG_COMMAND_LINE then
        (case string_length_within m tag (ucast tag_size) of
           None \<Rightarrow> (BOOT_STATUS_STRING_NOT_TERMINATED, context)
         | Some string_length \<Rightarrow>
             (BOOT_STATUS_OK,
              if tag_type = MULTIBOOT2_TAG_BOOT_LOADER_NAME
              then context\<lparr>boot_loader_name := Some (tag + 8),
                           boot_loader_name_length := string_length\<rparr>
              else context\<lparr>command_line := Some (tag + 8),
                           command_line_length := string_length\<rparr>))
      else (BOOT_STATUS_OK, context))"

lemma range_fits_nat:
  "range_fits offset len total_len \<longleftrightarrow> unat offset + unat len \<le> unat total_len"
proof (cases "offset \<le> total_len")
  case True
  then show ?thesis
    by (auto simp: range_fits_def word_le_nat_alt unat_sub)
next
  case False
  then show ?thesis
    by (auto simp: range_fits_def word_le_nat_alt)
qed

text \<open>
  The loop returns the status of an early return, or \<open>BOOT_STATUS_OK\<close> with the flag
  \<open>found_end\<close> when it is left through \<open>break\<close> or the loop condition.
\<close>

function parse_tags ::
  "memory \<Rightarrow> u64 \<Rightarrow> u64 \<Rightarrow> u64 \<Rightarrow> boot_information
     \<Rightarrow> boot_status \<times> bool \<times> boot_information" where
  "parse_tags m bytes total_size offset context =
     (if offset < total_size then
        if \<not> range_fits offset 8 total_size then (BOOT_STATUS_TRUNCATED_TAG, False, context)
        else
          let tag = bytes + offset;
              tag_type = load32 m tag;
              tag_size = load32 m (tag + 4);
              size = ucast tag_size :: u64
          in
          if size < 8 then (BOOT_STATUS_TAG_TOO_SMALL, False, context)
          else if \<not> range_fits offset size total_size
          then (BOOT_STATUS_TAG_OVERFLOW, False, context)
          else if tag_type = MULTIBOOT2_TAG_END then
            if size \<noteq> 8 \<or> offset + size \<noteq> total_size
            then (BOOT_STATUS_BAD_END_TAG, False, context)
            else (BOOT_STATUS_OK, True, context)
          else
            (case parse_tag m tag tag_type tag_size context of
               (status, context') \<Rightarrow>
                 if status \<noteq> BOOT_STATUS_OK then (status, False, context')
                 else
                   let aligned_size = align_tag_size size in
                   if aligned_size < size \<or> \<not> range_fits offset aligned_size total_size
                   then (BOOT_STATUS_TAG_OVERFLOW, False, context')
                   else parse_tags m bytes total_size (offset + aligned_size) context')
      else (BOOT_STATUS_OK, False, context))"
  by pat_completeness auto
termination
proof (relation "measure (\<lambda>(m, bytes, total_size, offset, context). unat total_size - unat offset)",
    goal_cases)
  case 1
  then show ?case by simp
next
  case (2 m bytes total_len offset ctx tag ty sz size status ctx2 aligned)
  then have a: "8 \<le> unat aligned" and fits: "unat offset + unat aligned \<le> unat total_len"
    by (auto simp: range_fits_nat word_less_nat_alt word_le_nat_alt)
  then have "unat (offset + aligned) = unat offset + unat aligned"
    by (intro unat_plus_le_unat)
  with a fits show ?case by simp
qed

declare parse_tags.simps [simp del]

definition boot_information_parse ::
  "memory \<Rightarrow> u32 \<Rightarrow> u64 \<Rightarrow> boot_information option \<Rightarrow> boot_status \<times> boot_information option"
  where
  "boot_information_parse m magic information_address context_pointer =
     (case context_pointer of
        None \<Rightarrow> (BOOT_STATUS_NULL_CONTEXT, None)
      | Some old \<Rightarrow>
        let context = boot_information_reset old in
        if magic \<noteq> MULTIBOOT2_BOOT_MAGIC then (BOOT_STATUS_BAD_MAGIC, Some context)
        else if information_address = 0 then (BOOT_STATUS_NULL_INFORMATION, Some context)
        else if information_address AND (8 - 1) \<noteq> 0
        then (BOOT_STATUS_MISALIGNED_INFORMATION, Some context)
        else if information_address > SAPOTE_EARLY_PHYSICAL_LIMIT - 8
        then (BOOT_STATUS_INFORMATION_TOO_LARGE, Some context)
        else
          let total_size = ucast (load32 m information_address) :: u64 in
          if total_size < 8 + 8 then (BOOT_STATUS_INFORMATION_TOO_SMALL, Some context)
          else if total_size > MULTIBOOT2_MAX_INFORMATION_SIZE
          then (BOOT_STATUS_INFORMATION_TOO_LARGE, Some context)
          else if total_size AND (8 - 1) \<noteq> 0
          then (BOOT_STATUS_INFORMATION_SIZE_MISALIGNED, Some context)
          else if information_address > 0xFFFFFFFFFFFFFFFF - total_size
          then (BOOT_STATUS_INFORMATION_OVERFLOW, Some context)
          else if information_address + total_size > SAPOTE_EARLY_PHYSICAL_LIMIT
          then (BOOT_STATUS_INFORMATION_TOO_LARGE, Some context)
          else if load32 m (information_address + 4) \<noteq> 0
          then (BOOT_STATUS_RESERVED_FIELD_NONZERO, Some context)
          else
            let context1 = context\<lparr>information_start := information_address,
                                   information_end := information_address + total_size\<rparr>
            in
            case parse_tags m information_address total_size 8 context1 of
              (status, found_end, context2) \<Rightarrow>
                if status \<noteq> BOOT_STATUS_OK then (status, Some context2)
                else if \<not> found_end then (BOOT_STATUS_MISSING_END_TAG, Some context2)
                else if memory_map context2 = None
                then (BOOT_STATUS_MISSING_MEMORY_MAP, Some context2)
                else (BOOT_STATUS_OK, Some context2))"

subsection \<open>Only the information block is read\<close>

lemma string_scan_agree:
  assumes "agree_on m m' tag n" and "n < 2 ^ 64"
  shows "string_scan m tag n index = string_scan m' tag n index"
  using assms
proof (induction m tag n index rule: string_scan.induct)
  case (1 m tag n index)
  show ?case
  proof (cases "index < n")
    case True
    then have "m (tag + of_nat index) = m' (tag + of_nat index)"
      using "1.prems" by (simp add: agree_on_def)
    with True 1 show ?thesis
      by (simp add: string_scan.simps [of m tag n index] string_scan.simps [of m' tag n index])
  next
    case False
    then show ?thesis
      by (simp add: string_scan.simps [of m tag n index] string_scan.simps [of m' tag n index])
  qed
qed

lemma region_of_agree:
  assumes "agree_on m m' map_tag n" and "memory_map c = Some map_tag"
    and "16 \<le> n" and "index < memory_map_entry_count c"
    and "16 + unat index * unat (load32 m (map_tag + 8)) + 24 \<le> n" and "n \<le> 0xFFFFFFFF"
  shows "region_of m c index = region_of m' c index"
proof -
  let ?s = "ucast (load32 m (map_tag + 8)) :: u64"
  have hdr: "load32 m (map_tag + 8) = load32 m' (map_tag + 8)"
    using assms(3) by (intro load32_agree [OF assms(1)]) simp
  have us: "unat ?s = unat (load32 m (map_tag + 8))"
    by simp
  have "unat index * unat ?s < 2 ^ LENGTH(64)"
    using assms(5,6) us by simp
  then have mul: "unat (index * ?s) = unat index * unat ?s"
    by (rule unat_mult_bounded)
  have off: "unat (16 + index * ?s) = 16 + unat index * unat ?s"
    using assms(5,6) us mul by (subst unat_plus_bounded) auto
  have "agree_on m m' (map_tag + (16 + index * ?s)) 24"
    using assms(5) us by (intro agree_on_shift [OF assms(1)]) (simp add: off)
  then have a: "agree_on m m' (map_tag + 16 + index * ?s) 24" by (simp add: add.assoc)
  show ?thesis
    using load64_agree [OF a, of 0] load64_agree [OF a, of 8] load32_agree [OF a, of 16] assms(2,4)
    by (simp add: region_of_def boot_information_region_at_def hdr Let_def)
qed

lemma account_region_frame [simp]:
  "memory_map (account_region r c) = memory_map c"
  "memory_map_entry_count (account_region r c) = memory_map_entry_count c"
  "information_start (account_region r c) = information_start c"
  "information_end (account_region r c) = information_end c"
  "framebuffer (account_region r c) = framebuffer c"
  by (simp_all add: account_region_def Let_def)

lemma validate_regions_agree:
  assumes "agree_on m m' map_tag n" and "memory_map c = Some map_tag"
    and "memory_map_entry_count c = of_nat count" and "count < 2 ^ 64"
    and "24 \<le> unat (load32 m (map_tag + 8))"
    and "16 + count * unat (load32 m (map_tag + 8)) \<le> n" and "n \<le> 0xFFFFFFFF"
  shows "validate_regions m c count i = validate_regions m' c count i"
  using assms
proof (induction m c count i rule: validate_regions.induct)
  case (1 m c count i)
  let ?s = "unat (load32 m (map_tag + 8))"
  show ?case
  proof (cases "i < count")
    case True
    have ui: "unat (of_nat i :: u64) = i"
      using True "1.prems"(4) by (intro unat_of_nat_small) simp
    have "i * ?s + ?s \<le> count * ?s"
      using True mult_le_mono1 [of "Suc i" count ?s] by simp
    then have "16 + unat (of_nat i :: u64) * ?s + 24 \<le> n"
      using "1.prems"(5,6) unfolding ui by linarith
    moreover have "(of_nat i :: u64) < memory_map_entry_count c"
      using True "1.prems"(3,4) ui by (simp add: word_less_nat_alt unat_of_nat_small)
    ultimately have r: "region_of m c (of_nat i) = region_of m' c (of_nat i)"
      using "1.prems" by (intro region_of_agree [where n = n and map_tag = map_tag]) auto
    show ?thesis
      unfolding validate_regions.simps [of m c count i] validate_regions.simps [of m' c count i]
      using True r "1.IH" "1.prems" by (auto split: option.split)
  next
    case False
    then show ?thesis
      by (simp add: validate_regions.simps [of m c count i] validate_regions.simps [of m' c count i])
  qed
qed

lemma payload_entries_fit: "16 \<le> n \<Longrightarrow> 16 + (n - 16) div z * z \<le> (n :: nat)"
  using div_times_less_eq_dividend [of "n - 16" z] by linarith

lemma validate_memory_map_agree:
  assumes "agree_on m m' tag (unat (load32 m (tag + 4)))" and "16 \<le> unat (load32 m (tag + 4))"
  shows "validate_memory_map m tag c = validate_memory_map m' tag c"
proof -
  let ?n = "unat (load32 m (tag + 4))" and ?z = "load32 m (tag + 8)"
  have hdr: "load32 m (tag + 4) = load32 m' (tag + 4)" "?z = load32 m' (tag + 8)"
    "load32 m (tag + 12) = load32 m' (tag + 12)"
    using assms(2) by (intro load32_agree [OF assms(1)]; simp)+
  define payload :: u64 where "payload = ucast (load32 m (tag + 4)) - 16"
  have up: "unat payload = ?n - 16"
    unfolding payload_def using assms(2) by (subst unat_sub) (auto simp: word_le_nat_alt)
  have bound: "?n \<le> 0xFFFFFFFF"
    using unat_less_size [of "load32 m (tag + 4)"] by simp
  show ?thesis
  proof (cases "(ucast ?z :: u64) < 24")
    case True
    then show ?thesis
      by (simp add: validate_memory_map_def Let_def flip: hdr)
  next
    case False
    let ?c = "c\<lparr>memory_map := Some tag, memory_map_entry_count := payload div ucast ?z\<rparr>"
    have z: "24 \<le> unat ?z" using False by (simp add: word_less_nat_alt)
    have "16 + unat (payload div ucast ?z) * unat ?z \<le> ?n"
      using payload_entries_fit [OF assms(2)] up by (simp add: unat_div)
    then have "validate_regions m ?c (unat (payload div ucast ?z)) 0
        = validate_regions m' ?c (unat (payload div ucast ?z)) 0"
      using z bound unat_less_size [of "payload div ucast ?z"]
      by (intro validate_regions_agree [OF assms(1)]) auto
    then show ?thesis
      by (simp add: validate_memory_map_def Let_def payload_def flip: hdr)
  qed
qed

lemma decode_framebuffer_agree:
  assumes "agree_on m m' tag (unat (load32 m (tag + 4)))" and "8 \<le> unat (load32 m (tag + 4))"
  shows "decode_framebuffer m tag fb = decode_framebuffer m' tag fb"
proof -
  let ?n = "unat (load32 m (tag + 4))"
  have hdr: "load32 m (tag + 4) = load32 m' (tag + 4)"
    using assms(2) by (intro load32_agree [OF assms(1)]) simp
  consider "?n < 32" | "32 \<le> ?n" "?n < 38" | "38 \<le> ?n" by linarith
  then show ?thesis
  proof cases
    case 1
    then show ?thesis by (simp add: decode_framebuffer_def Let_def word_less_nat_alt flip: hdr)
  next
    case 2
    then have "m (tag + 29) = m' (tag + 29)"
      by (intro agree_on_byte [OF assms(1)]) simp
    then show ?thesis
      using 2 by (simp add: decode_framebuffer_def Let_def word_less_nat_alt flip: hdr)
  next
    case 3
    then have b: "k < 38 \<Longrightarrow> m (tag + k) = m' (tag + k)" for k
      by (intro agree_on_byte [OF assms(1)]) (auto simp: word_less_nat_alt)
    have "load64 m (tag + 8) = load64 m' (tag + 8)"
      using 3 by (intro load64_agree [OF assms(1)]) simp
    moreover have "load32 m (tag + 16) = load32 m' (tag + 16)" "load32 m (tag + 20) = load32 m' (tag + 20)"
      "load32 m (tag + 24) = load32 m' (tag + 24)"
      using 3 by (intro load32_agree [OF assms(1)]; simp)+
    moreover have "m (tag + 28) = m' (tag + 28)" "m (tag + 29) = m' (tag + 29)"
      "m (tag + 32) = m' (tag + 32)" "m (tag + 33) = m' (tag + 33)" "m (tag + 34) = m' (tag + 34)"
      "m (tag + 35) = m' (tag + 35)" "m (tag + 36) = m' (tag + 36)" "m (tag + 37) = m' (tag + 37)"
      by (intro b; simp)+
    ultimately show ?thesis
      unfolding decode_framebuffer_def hdr by (simp only:)
  qed
qed

lemma validate_memory_map_agree':
  assumes "agree_on m m' tag (unat (load32 m (tag + 4)))" and "8 \<le> unat (load32 m (tag + 4))"
  shows "validate_memory_map m tag c = validate_memory_map m' tag c"
proof (cases "16 \<le> unat (load32 m (tag + 4))")
  case True
  then show ?thesis by (rule validate_memory_map_agree [OF assms(1)])
next
  case False
  have "load32 m (tag + 4) = load32 m' (tag + 4)"
    using assms(2) by (intro load32_agree [OF assms(1)]) simp
  then show ?thesis
    using False by (simp add: validate_memory_map_def word_less_nat_alt)
qed

lemma string_length_within_agree:
  assumes "agree_on m m' tag (unat tag_size)"
  shows "string_length_within m tag tag_size = string_length_within m' tag tag_size"
  using string_scan_agree [OF assms] unat_less_size [of tag_size]
  by (simp add: string_length_within_def)

lemma parse_tag_agree:
  assumes "agree_on m m' tag (unat (load32 m (tag + 4)))" and "8 \<le> unat (load32 m (tag + 4))"
  shows "parse_tag m tag ty (load32 m (tag + 4)) c = parse_tag m' tag ty (load32 m (tag + 4)) c"
  unfolding parse_tag_def validate_memory_map_agree' [OF assms] decode_framebuffer_agree [OF assms]
  using string_length_within_agree [of m m' tag "ucast (load32 m (tag + 4))"] assms(1)
  by simp

lemma parse_tags_agree:
  assumes "agree_on m m' bytes (unat total_size)"
  shows "parse_tags m bytes total_size offset c = parse_tags m' bytes total_size offset c"
  using assms
proof (induction m bytes total_size offset c rule: parse_tags.induct)
  case (1 m bytes total_size offset c)
  let ?tag = "bytes + offset"
  let ?size = "ucast (load32 m (?tag + 4)) :: u64"
  note unf = parse_tags.simps [of m bytes total_size offset c] parse_tags.simps [of m' bytes total_size offset c]
  show ?case
  proof (cases "offset < total_size \<and> range_fits offset 8 total_size")
    case False
    then show ?thesis by (auto simp: unf)
  next
    case True
    then have fit: "unat offset + 8 \<le> unat total_size" by (simp add: range_fits_nat)
    have a8: "agree_on m m' ?tag 8"
      by (rule agree_on_shift [OF "1.prems" fit])
    have ty: "load32 m ?tag = load32 m' ?tag" by (rule load32_agree0 [OF a8]) simp
    have sz: "load32 m (?tag + 4) = load32 m' (?tag + 4)" by (rule load32_agree [OF a8]) simp
    show ?thesis
    proof (cases "\<not> ?size < 8 \<and> range_fits offset ?size total_size")
      case False
      then show ?thesis using True by (auto simp: unf Let_def ty sz)
    next
      case True2: True
      then have "agree_on m m' ?tag (unat (load32 m (?tag + 4)))"
        by (intro agree_on_shift [OF "1.prems"]) (simp add: range_fits_nat)
      moreover have "8 \<le> unat (load32 m (?tag + 4))"
        using True2 by (simp add: word_less_nat_alt)
      ultimately have pt: "parse_tag m ?tag ty (load32 m (?tag + 4)) c
          = parse_tag m' ?tag ty (load32 m (?tag + 4)) c" for ty
        by (rule parse_tag_agree)
      show ?thesis
        unfolding unf Let_def ty [symmetric] sz [symmetric] pt [symmetric]
        using True True2 "1.IH" [OF _ _ refl refl refl refl _ _ _ _ _ refl] "1.prems"
        by (auto split: prod.split)
    qed
  qed
qed

subsection \<open>What a successful parse establishes\<close>

definition framebuffer_valid :: "boot_framebuffer \<Rightarrow> bool" where
  "framebuffer_valid fb \<longleftrightarrow>
     fb_width fb \<noteq> 0 \<and> fb_height fb \<noteq> 0 \<and> unat (fb_width fb) * 4 \<le> unat (fb_pitch fb)
     \<and> 4 dvd unat (fb_pitch fb) \<and> unat (fb_size fb) = unat (fb_pitch fb) * unat (fb_height fb)
     \<and> fb_address fb \<noteq> 0 \<and> 4 dvd unat (fb_address fb)
     \<and> unat (fb_address fb) + unat (fb_size fb) \<le> unat SAPOTE_EARLY_PHYSICAL_LIMIT
     \<and> fb_bits_per_pixel fb = 32
     \<and> {fb_red_position fb, fb_green_position fb, fb_blue_position fb} \<subseteq> {0, 8, 16, 24}
     \<and> distinct [fb_red_position fb, fb_green_position fb, fb_blue_position fb]"

lemma channel_position: "(p :: u8) mod 8 = 0 \<Longrightarrow> p < 32 \<Longrightarrow> p = 0 \<or> p = 8 \<or> p = 16 \<or> p = 24"
proof -
  assume "p mod 8 = 0" "p < 32"
  then have "8 dvd unat p" "unat p < 32"
    unfolding word_mod_eq_0_iff by (auto simp: word_less_nat_alt)
  then have "unat p = 0 \<or> unat p = 8 \<or> unat p = 16 \<or> unat p = 24" by presburger
  then show ?thesis
    by (auto simp: word_unat_eq_iff)
qed

lemma decode_framebuffer_OK:
  assumes "decode_framebuffer m tag fb = (BOOT_STATUS_OK, fb')"
  shows "framebuffer_valid fb' \<and> fb_present fb'"
proof -
  let ?p = "load32 m (tag + 16)" and ?w = "load32 m (tag + 20)" and ?h = "load32 m (tag + 24)"
    and ?a = "load64 m (tag + 8)" and ?size = "(ucast (load32 m (tag + 16)) * ucast (load32 m (tag + 24)) :: u64)"
  from assms have *: "?w \<noteq> 0" "?h \<noteq> 0" "\<not> (ucast ?p :: u64) < ucast ?w * 4" "?p mod 4 = 0"
    "?a \<noteq> 0" "?a mod 4 = 0" "m (tag + 28) = 32"
    "\<not> ?size > SAPOTE_EARLY_PHYSICAL_LIMIT" "\<not> ?a > SAPOTE_EARLY_PHYSICAL_LIMIT - ?size"
    "m (tag + 32) mod 8 = 0" "m (tag + 32) < 32" "m (tag + 34) mod 8 = 0" "m (tag + 34) < 32"
    "m (tag + 36) mod 8 = 0" "m (tag + 36) < 32"
    "distinct [m (tag + 32), m (tag + 34), m (tag + 36)]"
    and fb': "fb' = fb\<lparr>fb_red_position := m (tag + 32), fb_green_position := m (tag + 34),
                     fb_blue_position := m (tag + 36), fb_address := ?a, fb_pitch := ?p,
                     fb_width := ?w, fb_height := ?h, fb_size := ?size,
                     fb_bits_per_pixel := m (tag + 28), fb_present := True\<rparr>"
    unfolding decode_framebuffer_def Let_def by (auto split: if_splits)
  have sz: "unat ?size = unat ?p * unat ?h"
    using mult_strict_mono [OF unat_less_size [of ?p] unat_less_size [of ?h]]
    by (subst unat_mult_bounded) auto
  have w4: "unat (ucast ?w * 4 :: u64) = unat ?w * 4"
    using unat_less_size [of ?w] by (subst unat_mult_bounded) auto
  have end_ok: "unat ?a + unat ?size \<le> unat SAPOTE_EARLY_PHYSICAL_LIMIT"
    using *(8,9) by (auto simp: word_less_nat_alt unat_sub word_le_nat_alt)
  have "unat ?w * 4 \<le> unat ?p"
    using *(3) by (simp add: word_less_nat_alt w4)
  moreover have "4 dvd unat ?p"
    using *(4) unfolding word_mod_eq_0_iff by simp
  moreover have "4 dvd unat ?a"
    using *(6) unfolding word_mod_eq_0_iff by simp
  ultimately show ?thesis
    unfolding framebuffer_valid_def fb'
    using * sz end_ok channel_position [OF *(10,11)] channel_position [OF *(12,13)]
      channel_position [OF *(14,15)] by simp
qed

text \<open>What the parser establishes about the recorded memory map.\<close>

definition regions_reported :: "memory \<Rightarrow> boot_information \<Rightarrow> nat \<Rightarrow> nat \<Rightarrow> bool" where
  "regions_reported m c i n \<longleftrightarrow>
     (\<forall>j. i \<le> j \<and> j < n \<longrightarrow>
        (\<exists>r. region_of m c (of_nat j) = Some r
           \<and> unat (region_base_address r) + unat (region_length r) \<le> unat (highest_reported_address c)))"

definition memory_map_valid :: "memory \<Rightarrow> boot_information \<Rightarrow> bool" where
  "memory_map_valid m c \<longleftrightarrow>
     (case memory_map c of
        None \<Rightarrow> True
      | Some t \<Rightarrow>
          24 \<le> unat (load32 m (t + 8))
          \<and> unat (information_start c) \<le> unat t
          \<and> unat t + 16 + unat (memory_map_entry_count c) * unat (load32 m (t + 8))
              \<le> unat (information_end c)
          \<and> regions_reported m c 0 (unat (memory_map_entry_count c)))"

lemma region_of_cong:
  "memory_map c = memory_map c' \<Longrightarrow> memory_map_entry_count c = memory_map_entry_count c'
   \<Longrightarrow> region_of m c i = region_of m c' i"
  by (simp add: region_of_def boot_information_region_at_def split: option.split)

lemma memory_map_valid_cong:
  assumes "memory_map c = memory_map c'" "memory_map_entry_count c = memory_map_entry_count c'"
    "information_start c = information_start c'" "information_end c = information_end c'"
    "highest_reported_address c = highest_reported_address c'"
  shows "memory_map_valid m c = memory_map_valid m c'"
proof -
  have "region_of m c = region_of m c'"
    using assms(1,2) by (intro ext region_of_cong)
  with assms show ?thesis
    unfolding memory_map_valid_def regions_reported_def by (simp split: option.split)
qed

lemma account_region_highest:
  "region_length r \<le> 0xFFFFFFFFFFFFFFFF - region_base_address r \<Longrightarrow>
   unat (highest_reported_address c) \<le> unat (highest_reported_address (account_region r c))
   \<and> unat (region_base_address r) + unat (region_length r)
      \<le> unat (highest_reported_address (account_region r c))"
  using unat_plus_checked [of "region_length r" "region_base_address r"]
  by (auto simp: account_region_def Let_def word_less_nat_alt)

lemma validate_regions_OK:
  assumes "validate_regions m c n i = (BOOT_STATUS_OK, c')"
  shows "memory_map c' = memory_map c \<and> memory_map_entry_count c' = memory_map_entry_count c
     \<and> information_start c' = information_start c \<and> information_end c' = information_end c
     \<and> framebuffer c' = framebuffer c
     \<and> unat (highest_reported_address c) \<le> unat (highest_reported_address c')
     \<and> regions_reported m c' i n"
  using assms
proof (induction m c n i rule: validate_regions.induct)
  case (1 m c n i)
  show ?case
  proof (cases "i < n")
    case False
    then show ?thesis
      using "1.prems" by (auto simp: validate_regions.simps [of m c n i] regions_reported_def)
  next
    case True
    then obtain r where r: "region_of m c (of_nat i) = Some r"
      and le: "region_length r \<le> 0xFFFFFFFFFFFFFFFF - region_base_address r"
      and rest: "validate_regions m (account_region r c) n (Suc i) = (BOOT_STATUS_OK, c')"
      using "1.prems" by (auto simp: validate_regions.simps [of m c n i] not_less split: option.splits if_splits)
    note IH = "1.IH" [OF True r _ rest]
    have ih: "memory_map c' = memory_map c \<and> memory_map_entry_count c' = memory_map_entry_count c
     \<and> information_start c' = information_start c \<and> information_end c' = information_end c
     \<and> framebuffer c' = framebuffer c
     \<and> unat (highest_reported_address (account_region r c)) \<le> unat (highest_reported_address c')
     \<and> regions_reported m c' (Suc i) n"
      using IH le by simp
    have ri: "region_of m c' (of_nat i) = Some r"
      using r region_of_cong [of c' c m] ih by simp
    have "unat (highest_reported_address c) \<le> unat (highest_reported_address c')"
      "unat (region_base_address r) + unat (region_length r) \<le> unat (highest_reported_address c')"
      using account_region_highest [OF le, of c] ih by linarith+
    moreover have "regions_reported m c' i n"
      unfolding regions_reported_def
    proof (intro allI impI)
      fix j assume j: "i \<le> j \<and> j < n"
      show "\<exists>r. region_of m c' (of_nat j) = Some r
         \<and> unat (region_base_address r) + unat (region_length r) \<le> unat (highest_reported_address c')"
      proof (cases "j = i")
        case True
        then show ?thesis using ri calculation(2) by simp
      next
        case False
        then show ?thesis using ih j unfolding regions_reported_def by simp
      qed
    qed
    ultimately show ?thesis using ih by simp
  qed
qed

lemma validate_memory_map_OK:
  assumes "validate_memory_map m tag c = (BOOT_STATUS_OK, c')"
    and "unat (information_start c) \<le> unat tag"
    and "unat tag + unat (load32 m (tag + 4)) \<le> unat (information_end c)"
  shows "memory_map_valid m c' \<and> framebuffer c' = framebuffer c \<and> memory_map c' = Some tag
     \<and> information_start c' = information_start c \<and> information_end c' = information_end c"
proof -
  let ?n = "ucast (load32 m (tag + 4)) :: u64" and ?z = "ucast (load32 m (tag + 8)) :: u64"
  let ?c = "c\<lparr>memory_map := Some tag, memory_map_entry_count := (?n - 16) div ?z\<rparr>"
  from assms(1) have *: "16 \<le> ?n" "24 \<le> ?z"
    and v: "validate_regions m ?c (unat ((?n - 16) div ?z)) 0 = (BOOT_STATUS_OK, c')"
    by (auto simp: validate_memory_map_def Let_def not_less split: if_splits)
  note ok = validate_regions_OK [OF v]
  have "unat (?n - 16) = unat (load32 m (tag + 4)) - 16"
    using *(1) by (simp add: unat_sub)
  then have "16 + unat ((?n - 16) div ?z) * unat (load32 m (tag + 8)) \<le> unat (load32 m (tag + 4))"
    using *(1) payload_entries_fit [of "unat (load32 m (tag + 4))"]
    by (simp add: unat_div word_le_nat_alt)
  then show ?thesis
    using ok assms(2,3) *(2) unfolding memory_map_valid_def
    by (auto simp: word_le_nat_alt)
qed

definition info_wf :: "memory \<Rightarrow> u64 \<Rightarrow> u64 \<Rightarrow> boot_information \<Rightarrow> bool" where
  "info_wf m lo hi c \<longleftrightarrow>
     information_start c = lo \<and> information_end c = hi \<and> memory_map_valid m c
     \<and> (fb_present (framebuffer c) \<longrightarrow> framebuffer_valid (framebuffer c))"

lemma parse_tag_wf:
  assumes "parse_tag m tag ty (load32 m (tag + 4)) c = (BOOT_STATUS_OK, c')"
    and "info_wf m lo hi c" and "unat lo \<le> unat tag"
    and "unat tag + unat (load32 m (tag + 4)) \<le> unat hi"
  shows "info_wf m lo hi c'"
proof -
  show ?thesis
  proof (cases "ty = MULTIBOOT2_TAG_MEMORY_MAP")
    case True
    then have "validate_memory_map m tag c = (BOOT_STATUS_OK, c')"
      using assms(1) by (simp add: parse_tag_def split: if_splits)
    from validate_memory_map_OK [OF this] show ?thesis
      using assms(2-4) by (auto simp: info_wf_def)
  next
    case nm: False
    show ?thesis
    proof (cases "ty = MULTIBOOT2_TAG_FRAMEBUFFER")
      case True
      then obtain fb where fb: "c' = c\<lparr>framebuffer := fb\<rparr>"
        "decode_framebuffer m tag (framebuffer c) = (BOOT_STATUS_OK, fb)"
        using assms(1) by (auto simp: parse_tag_def boot_constants split: if_splits prod.splits)
      have "memory_map_valid m c' = memory_map_valid m c"
        by (rule memory_map_valid_cong) (simp_all add: fb(1))
      then show ?thesis
        using decode_framebuffer_OK [OF fb(2)] assms(2) fb(1) by (simp add: info_wf_def)
    next
      case False
      with nm have "memory_map c' = memory_map c" "memory_map_entry_count c' = memory_map_entry_count c"
        "information_start c' = information_start c" "information_end c' = information_end c"
        "highest_reported_address c' = highest_reported_address c" "framebuffer c' = framebuffer c"
        using assms(1) by (auto simp: parse_tag_def Let_def split: if_splits option.splits)
      then show ?thesis
        using assms(2) memory_map_valid_cong [of c' c m] by (simp add: info_wf_def)
    qed
  qed
qed

lemma parse_tags_wf:
  assumes "parse_tags m bytes n offset c = (BOOT_STATUS_OK, e, c')"
    and "info_wf m bytes (bytes + n) c" and "unat bytes + unat n < 2 ^ 64"
  shows "info_wf m bytes (bytes + n) c'"
  using assms
proof (induction m bytes n offset c rule: parse_tags.induct)
  case (1 m bytes n offset c)
  let ?tag = "bytes + offset"
  let ?size = "ucast (load32 m (?tag + 4)) :: u64"
  note unf = parse_tags.simps [of m bytes n offset c]
  show ?case
  proof (cases "offset < n \<and> load32 m ?tag \<noteq> MULTIBOOT2_TAG_END")
    case False
    then have "c' = c"
      using "1.prems"(1) by (auto simp: unf Let_def split: if_splits)
    then show ?thesis using "1.prems"(2) by simp
  next
    case True
    obtain st c1 where pt0: "parse_tag m ?tag (load32 m ?tag) (load32 m (?tag + 4)) c = (st, c1)"
      by fastforce
    have g: "range_fits offset 8 n" "\<not> ?size < 8" "range_fits offset ?size n"
        "\<not> align_tag_size ?size < ?size" "range_fits offset (align_tag_size ?size) n"
        "st = BOOT_STATUS_OK"
      and rest: "parse_tags m bytes n (offset + align_tag_size ?size) c1 = (BOOT_STATUS_OK, e, c')"
      using "1.prems"(1) True by (simp_all add: unf Let_def pt0 split: if_split_asm)
    from pt0 g(6) have pt: "parse_tag m ?tag (load32 m ?tag) (load32 m (?tag + 4)) c = (BOOT_STATUS_OK, c1)"
      by simp
    have fits: "unat offset + unat (load32 m (?tag + 4)) \<le> unat n"
      using g(3) by (simp add: range_fits_nat)
    have t: "unat ?tag = unat bytes + unat offset"
      using fits "1.prems"(3) by (intro unat_plus_bounded) simp
    have e: "unat (bytes + n) = unat bytes + unat n"
      using "1.prems"(3) by (intro unat_plus_bounded) simp
    have "info_wf m bytes (bytes + n) c1"
      by (rule parse_tag_wf [OF pt "1.prems"(2)]) (use fits t e in auto)
    then show ?thesis
      using "1.IH" [OF _ _ refl refl refl refl _ _ _ pt [symmetric] _ refl _ rest] True g "1.prems"(3)
      by simp
  qed
qed

subsection \<open>A sample information block\<close>

text \<open>Two available regions, a 1024x768 direct-colour framebuffer and the end tag.\<close>

definition sample_information :: "u8 list" where
  "sample_information =
     [120, 0, 0, 0,  0, 0, 0, 0,
      6, 0, 0, 0,  64, 0, 0, 0,  24, 0, 0, 0,  0, 0, 0, 0,
      0, 0, 0, 0, 0, 0, 0, 0,  0, 0xFC, 9, 0, 0, 0, 0, 0,  1, 0, 0, 0,  0, 0, 0, 0,
      0, 0, 0x10, 0, 0, 0, 0, 0,  0, 0, 0xF0, 7, 0, 0, 0, 0,  1, 0, 0, 0,  0, 0, 0, 0,
      8, 0, 0, 0,  38, 0, 0, 0,  0, 0, 0, 0xFD, 0, 0, 0, 0,  0, 16, 0, 0,  0, 4, 0, 0,
      0, 3, 0, 0,  32, 1, 0, 0,  16, 8, 8, 8, 0, 8, 0, 0,
      0, 0, 0, 0,  8, 0, 0, 0]"

definition image_at :: "u64 \<Rightarrow> u8 list \<Rightarrow> memory" where
  "image_at base bytes = (\<lambda>a. if unat (a - base) < length bytes then bytes ! unat (a - base) else 0)"

definition blank_information :: boot_information where
  "blank_information = \<lparr>information_start = 0, information_end = 0, memory_map = None,
     acpi_old = None, acpi_new = None, boot_loader_name = None, command_line = None,
     boot_loader_name_length = 0, command_line_length = 0, memory_map_entry_count = 0,
     reported_usable_bytes = 0, highest_reported_address = 0,
     framebuffer = \<lparr>fb_address = 0, fb_pitch = 0, fb_width = 0, fb_height = 0, fb_size = 0,
       fb_bits_per_pixel = 0, fb_red_position = 0, fb_green_position = 0, fb_blue_position = 0,
       fb_present = False\<rparr>\<rparr>"

subsection \<open>Properties\<close>

text \<open>
  C22. The parser is confined to the block the loader declared: two memories that agree on the
  eight header bytes and on the \<open>total_size\<close> bytes from the information address give the same
  status and the same context, whatever lies outside.
\<close>

theorem parse_reads_only_information:
  assumes "agree_on m m' addr 8" and "agree_on m m' addr (unat (load32 m addr))"
  shows "boot_information_parse m magic addr c = boot_information_parse m' magic addr c"
proof -
  have "load32 m addr = load32 m' addr" "load32 m (addr + 4) = load32 m' (addr + 4)"
    using load32_agree0 [OF assms(1)] load32_agree [OF assms(1), of 4] by simp_all
  moreover have "parse_tags m addr (ucast (load32 m addr)) o1 c1
      = parse_tags m' addr (ucast (load32 m addr)) o1 c1" for o1 c1
    using assms(2) by (intro parse_tags_agree) simp
  ultimately show ?thesis
    unfolding boot_information_parse_def Let_def by (cases c) simp_all
qed

theorem parse_reads_only_information_witness:
  "boot_information_parse (image_at 0x10000 sample_information) MULTIBOOT2_BOOT_MAGIC 0x10000
       (Some blank_information)
   = boot_information_parse (image_at 0x10000 (sample_information @ [0xAA, 0xBB]))
       MULTIBOOT2_BOOT_MAGIC 0x10000 (Some blank_information)"
proof (rule parse_reads_only_information)
  have len: "length sample_information = 120" by code_simp
  have agree: "agree_on (image_at 0x10000 sample_information)
      (image_at 0x10000 (sample_information @ [0xAA, 0xBB])) 0x10000 n" if "n \<le> 120" for n
    using that len by (auto simp: agree_on_def image_at_def nth_append unat_of_nat_small)
  then show "agree_on (image_at 0x10000 sample_information)
      (image_at 0x10000 (sample_information @ [0xAA, 0xBB])) 0x10000 8" by simp
  have "load32 (image_at 0x10000 sample_information) 0x10000 = 120" by code_simp
  with agree show "agree_on (image_at 0x10000 sample_information)
      (image_at 0x10000 (sample_information @ [0xAA, 0xBB])) 0x10000
      (unat (load32 (image_at 0x10000 sample_information) 0x10000))" by simp
qed

text \<open>
  C23. A parse that returns \<open>BOOT_STATUS_OK\<close> has recorded a block that ends below the 4 GiB
  early limit and a memory map inside it: every entry lies in the block, no region wraps
  around the address space or ends above \<open>highest_reported_address\<close>, and a recorded
  framebuffer is a direct-colour one whose rows do not overlap and whose bytes are below the
  limit.
\<close>

theorem boot_information_parse_OK:
  assumes "boot_information_parse m magic addr (Some c) = (BOOT_STATUS_OK, Some c')"
  shows "unat addr + unat (load32 m addr) \<le> unat SAPOTE_EARLY_PHYSICAL_LIMIT
     \<and> info_wf m addr (addr + ucast (load32 m addr)) c' \<and> memory_map c' \<noteq> None"
proof -
  let ?n = "ucast (load32 m addr) :: u64"
  let ?c = "(boot_information_reset c)\<lparr>information_start := addr, information_end := addr + ?n\<rparr>"
  from assms have g: "\<not> addr > 0xFFFFFFFFFFFFFFFF - ?n" "\<not> addr + ?n > SAPOTE_EARLY_PHYSICAL_LIMIT"
    by (auto simp: boot_information_parse_def Let_def split: if_split_asm)
  from assms have pt: "parse_tags m addr ?n 8 ?c = (BOOT_STATUS_OK, True, c')" and mm: "memory_map c' \<noteq> None"
    by (auto simp: boot_information_parse_def Let_def split: if_split_asm prod.split_asm)
  have "?n \<le> 0xFFFFFFFFFFFFFFFF - addr"
    using g(1) by (simp add: checked_add_swap [of ?n] not_less)
  then have sum: "unat (addr + ?n) = unat addr + unat ?n"
    by (rule unat_plus_checked)
  have "info_wf m addr (addr + ?n) ?c"
    by (simp add: info_wf_def memory_map_valid_def boot_information_reset_def)
  moreover have "unat addr + unat ?n < 2 ^ 64"
    using unat_less_size [of "addr + ?n"] sum by simp
  ultimately have "info_wf m addr (addr + ?n) c'"
    by (rule parse_tags_wf [OF pt])
  then show ?thesis
    using g(2) sum mm by (auto simp: word_less_nat_alt)
qed

theorem boot_information_parse_OK_witness:
  "\<exists>c'. boot_information_parse (image_at 0x10000 sample_information) MULTIBOOT2_BOOT_MAGIC 0x10000
       (Some blank_information) = (BOOT_STATUS_OK, Some c')
     \<and> memory_map c' \<noteq> None
     \<and> info_wf (image_at 0x10000 sample_information) 0x10000
         (0x10000 + ucast (load32 (image_at 0x10000 sample_information) 0x10000)) c'"
proof -
  let ?r = "boot_information_parse (image_at 0x10000 sample_information) MULTIBOOT2_BOOT_MAGIC 0x10000
       (Some blank_information)"
  have "fst ?r = BOOT_STATUS_OK" by code_simp
  moreover have "snd ?r \<noteq> None" by code_simp
  ultimately obtain c' where "?r = (BOOT_STATUS_OK, Some c')" by (cases ?r) auto
  with boot_information_parse_OK [OF this] show ?thesis by blast
qed

text \<open>
  C24. Every pixel of the visible area of a framebuffer that the parser accepted is inside the
  recorded span: the four bytes of pixel \<open>(x, y)\<close> end at or before \<open>size\<close>, and two pixels
  of different rows never share a byte.
\<close>

theorem framebuffer_pixels_in_span:
  assumes "decode_framebuffer m tag fb = (BOOT_STATUS_OK, fb')"
    and "x < unat (fb_width fb')" and "y < unat (fb_height fb')"
  shows "y * unat (fb_pitch fb') + 4 * x + 4 \<le> (y + 1) * unat (fb_pitch fb')
     \<and> (y + 1) * unat (fb_pitch fb') \<le> unat (fb_size fb')
     \<and> unat (fb_address fb') + unat (fb_size fb') \<le> unat SAPOTE_EARLY_PHYSICAL_LIMIT"
proof -
  have v: "framebuffer_valid fb'" using decode_framebuffer_OK [OF assms(1)] by simp
  have "4 * x + 4 \<le> unat (fb_width fb') * 4" using assms(2) by simp
  then have "4 * x + 4 \<le> unat (fb_pitch fb')"
    using v unfolding framebuffer_valid_def by linarith
  moreover have "(y + 1) * unat (fb_pitch fb') \<le> unat (fb_height fb') * unat (fb_pitch fb')"
    using assms(3) by (intro mult_le_mono1) simp
  ultimately show ?thesis
    using v unfolding framebuffer_valid_def by (simp add: mult.commute)
qed

theorem framebuffer_pixels_in_span_witness:
  "\<exists>fb'. decode_framebuffer (image_at 0x10000 sample_information) 0x10048
       (framebuffer blank_information) = (BOOT_STATUS_OK, fb')
     \<and> 767 * unat (fb_pitch fb') + 4 * 1023 + 4 \<le> (767 + 1) * unat (fb_pitch fb')"
proof -
  let ?r = "decode_framebuffer (image_at 0x10000 sample_information) 0x10048
       (framebuffer blank_information)"
  have "fst ?r = BOOT_STATUS_OK" by code_simp
  then have r: "?r = (BOOT_STATUS_OK, snd ?r)" by (cases ?r) auto
  have "1023 < unat (fb_width (snd ?r))" by code_simp
  moreover have "767 < unat (fb_height (snd ?r))" by code_simp
  ultimately show ?thesis
    using framebuffer_pixels_in_span [OF r, of 1023 767] r by blast
qed

end
