(* ===== verification/Frames.thy ===== *)
theory Frames
  imports Boot_Info
begin

text \<open>
  The physical frame allocator, \<open>src/src/kernel/physical_memory.c\<close> with its types from
  \<open>src/include/sapote/memory.h\<close>: two bitmaps over the frames below 4 GiB, the statistics kept
  beside them, the search cursor and the table of contiguous allocations.

  A bitmap is an array of bytes, a function from the byte index; every index the code forms is
  a frame below \<open>FRAME_COUNT\<close>.  The linker symbols \<open>__kernel_start\<close> and \<open>__kernel_end\<close> are
  arguments of the initialisation.
\<close>

subsection \<open>Types and constants of memory.h\<close>

definition SAPOTE_PAGE_SIZE :: u64 where "SAPOTE_PAGE_SIZE = 4096"
definition SAPOTE_LOW_MEMORY_RESERVATION :: u64 where "SAPOTE_LOW_MEMORY_RESERVATION = 0x100000"
definition FRAME_CONTIGUOUS_ALLOCATION_CAPACITY :: nat where
  "FRAME_CONTIGUOUS_ALLOCATION_CAPACITY = 32"
definition FRAME_COUNT :: nat where
  "FRAME_COUNT = unat (SAPOTE_EARLY_PHYSICAL_LIMIT div SAPOTE_PAGE_SIZE)"
definition BITMAP_BYTE_COUNT :: nat where "BITMAP_BYTE_COUNT = (FRAME_COUNT + 7) div 8"

datatype frame_status =
    FRAME_STATUS_OK
  | FRAME_STATUS_NULL_ARGUMENT
  | FRAME_STATUS_NOT_INITIALIZED
  | FRAME_STATUS_BAD_MEMORY_MAP
  | FRAME_STATUS_RANGE_OVERFLOW
  | FRAME_STATUS_RANGE_OUTSIDE_LIMIT
  | FRAME_STATUS_OUT_OF_MEMORY
  | FRAME_STATUS_UNALIGNED_ADDRESS
  | FRAME_STATUS_FRAME_NOT_ALLOCATABLE
  | FRAME_STATUS_FRAME_IN_USE
  | FRAME_STATUS_DOUBLE_FREE
  | FRAME_STATUS_ZERO_PAGE_COUNT
  | FRAME_STATUS_BAD_ALIGNMENT
  | FRAME_STATUS_ALIGNMENT_UNSATISFIABLE
  | FRAME_STATUS_ADDRESS_BOUND_UNSATISFIED
  | FRAME_STATUS_TOO_MANY_CONTIGUOUS_ALLOCATIONS
  | FRAME_STATUS_BAD_CONTIGUOUS_ALLOCATION

record frame_contiguous_request =
  req_page_count :: u64
  req_alignment :: u64
  req_maximum_physical_address :: u64

record frame_contiguous_allocation =
  alloc_physical_base :: u64
  alloc_page_count :: u64
  alloc_alignment :: u64
  alloc_maximum_physical_address :: u64
  alloc_identifier :: u64
  alloc_active :: bool

record frame_allocator_stats =
  addressable_frames :: u64
  allocatable_frames :: u64
  free_frames :: u64
  allocated_frames :: u64
  reserved_frames :: u64
  highest_allocatable_address :: u64

record contiguous_record =
  rec_physical_base :: u64
  rec_page_count :: u64
  rec_identifier :: u64
  rec_active :: bool

type_synonym bitmap = "nat \<Rightarrow> u8"

record frame_state =
  eligible_bitmap :: bitmap
  used_bitmap :: bitmap
  allocator_stats :: frame_allocator_stats
  next_search_index :: nat
  allocator_initialized :: bool
  contiguous_records :: "contiguous_record list"
  next_contiguous_identifier :: u64

subsection \<open>Bitmaps and ranges\<close>

definition bitmap_get :: "bitmap \<Rightarrow> nat \<Rightarrow> bool" where
  "bitmap_get bitmap frame_index =
     (let m = (push_bit (frame_index mod 8) 1 :: u8) in (bitmap (frame_index div 8) AND m) \<noteq> 0)"

definition bitmap_set :: "bitmap \<Rightarrow> nat \<Rightarrow> bool \<Rightarrow> bitmap" where
  "bitmap_set bitmap frame_index value =
     (let m = (push_bit (frame_index mod 8) 1 :: u8); byte = frame_index div 8
      in if value then bitmap(byte := bitmap byte OR m)
         else bitmap(byte := bitmap byte AND NOT m))"

definition bitmap_fill :: "bitmap \<Rightarrow> u8 \<Rightarrow> bitmap" where
  "bitmap_fill bitmap value = (\<lambda>index. if index < BITMAP_BYTE_COUNT then value else bitmap index)"

definition checked_range_end :: "u64 \<Rightarrow> u64 \<Rightarrow> u64 option" where
  "checked_range_end base len = (if len > 0xFFFFFFFFFFFFFFFF - base then None else Some (base + len))"

definition power_of_two :: "u64 \<Rightarrow> bool" where
  "power_of_two value \<longleftrightarrow> value \<noteq> 0 \<and> (value AND (value - 1)) = 0"

definition record_first_frame :: "contiguous_record \<Rightarrow> nat" where
  "record_first_frame r = unat (rec_physical_base r div SAPOTE_PAGE_SIZE)"

definition frame_in_contiguous_allocation :: "frame_state \<Rightarrow> nat \<Rightarrow> bool" where
  "frame_in_contiguous_allocation s frame \<longleftrightarrow>
     list_ex (\<lambda>r. rec_active r \<and> record_first_frame r \<le> frame
                  \<and> frame - record_first_frame r < unat (rec_page_count r))
       (contiguous_records s)"

text \<open>Both bound computations return the pair of output parameters with the status.\<close>

definition available_frame_bounds :: "u64 \<Rightarrow> u64 \<Rightarrow> frame_status \<times> nat \<times> nat" where
  "available_frame_bounds base len =
     (let page_mask = SAPOTE_PAGE_SIZE - 1 in
      case checked_range_end base len of
        None \<Rightarrow> (FRAME_STATUS_RANGE_OVERFLOW, 0, 0)
      | Some range_end \<Rightarrow>
          if len = 0 \<or> base \<ge> SAPOTE_EARLY_PHYSICAL_LIMIT then (FRAME_STATUS_OK, 0, 0)
          else
            let clipped_end = (if range_end < SAPOTE_EARLY_PHYSICAL_LIMIT then range_end
                               else SAPOTE_EARLY_PHYSICAL_LIMIT);
                aligned_base = (base + page_mask) AND NOT page_mask
            in if aligned_base \<ge> clipped_end then (FRAME_STATUS_OK, 0, 0)
               else (FRAME_STATUS_OK, unat (aligned_base div SAPOTE_PAGE_SIZE),
                     unat ((clipped_end AND NOT page_mask) div SAPOTE_PAGE_SIZE)))"

definition covering_frame_bounds :: "u64 \<Rightarrow> u64 \<Rightarrow> frame_status \<times> nat \<times> nat" where
  "covering_frame_bounds base len =
     (case checked_range_end base len of
        None \<Rightarrow> (FRAME_STATUS_RANGE_OVERFLOW, 0, 0)
      | Some range_end \<Rightarrow>
          if len = 0 then (FRAME_STATUS_OK, 0, 0)
          else if base \<ge> SAPOTE_EARLY_PHYSICAL_LIMIT
          then (FRAME_STATUS_RANGE_OUTSIDE_LIMIT, 0, 0)
          else
            let clipped_end = (if range_end < SAPOTE_EARLY_PHYSICAL_LIMIT then range_end
                               else SAPOTE_EARLY_PHYSICAL_LIMIT);
                past_last_frame = unat (clipped_end div SAPOTE_PAGE_SIZE)
            in (FRAME_STATUS_OK, unat (base div SAPOTE_PAGE_SIZE),
                if clipped_end AND (SAPOTE_PAGE_SIZE - 1) \<noteq> 0 then past_last_frame + 1
                else past_last_frame))"

definition mark_available_frames :: "nat \<Rightarrow> nat \<Rightarrow> frame_state \<Rightarrow> frame_state" where
  "mark_available_frames first_frame past_last_frame s =
     fold (\<lambda>frame s. s\<lparr>eligible_bitmap := bitmap_set (eligible_bitmap s) frame True,
                       used_bitmap := bitmap_set (used_bitmap s) frame False\<rparr>)
       [first_frame..<past_last_frame] s"

definition mark_reserved_frames :: "nat \<Rightarrow> nat \<Rightarrow> frame_state \<Rightarrow> frame_state" where
  "mark_reserved_frames first_frame past_last_frame s =
     fold (\<lambda>frame s. s\<lparr>eligible_bitmap := bitmap_set (eligible_bitmap s) frame False,
                       used_bitmap := bitmap_set (used_bitmap s) frame True\<rparr>)
       [first_frame..<past_last_frame] s"

definition reserve_internal :: "u64 \<Rightarrow> u64 \<Rightarrow> frame_state \<Rightarrow> frame_status \<times> frame_state" where
  "reserve_internal base len s =
     (case covering_frame_bounds base len of
        (status, first_frame, past_last_frame) \<Rightarrow>
          if status \<noteq> FRAME_STATUS_OK then (status, s)
          else (FRAME_STATUS_OK, mark_reserved_frames first_frame past_last_frame s))"

definition count_frame ::
  "bitmap \<Rightarrow> bitmap \<Rightarrow> nat \<Rightarrow> frame_allocator_stats \<Rightarrow> frame_allocator_stats" where
  "count_frame eligible used frame stats =
     (if \<not> bitmap_get eligible frame
      then stats\<lparr>reserved_frames := reserved_frames stats + 1\<rparr>
      else
        let stats = stats\<lparr>allocatable_frames := allocatable_frames stats + 1,
                          highest_allocatable_address := (of_nat frame + 1) * SAPOTE_PAGE_SIZE\<rparr>
        in if bitmap_get used frame
           then stats\<lparr>allocated_frames := allocated_frames stats + 1\<rparr>
           else stats\<lparr>free_frames := free_frames stats + 1\<rparr>)"

definition recompute_stats :: "frame_state \<Rightarrow> frame_state" where
  "recompute_stats s =
     s\<lparr>allocator_stats :=
         fold (count_frame (eligible_bitmap s) (used_bitmap s)) [0..<FRAME_COUNT]
           \<lparr>addressable_frames = of_nat FRAME_COUNT, allocatable_frames = 0, free_frames = 0,
            allocated_frames = 0, reserved_frames = 0, highest_allocatable_address = 0\<rparr>\<rparr>"

subsection \<open>Initialisation\<close>

text \<open>The effect of one region of the memory map in one of the two passes.\<close>

definition apply_region :: "bool \<Rightarrow> boot_memory_region \<Rightarrow> frame_state \<Rightarrow> frame_status \<times> frame_state"
  where
  "apply_region first_pass region s =
     (let available = (region_type region = MULTIBOOT2_MEMORY_AVAILABLE) in
      if first_pass \<noteq> available then (FRAME_STATUS_OK, s)
      else if available then
        (case available_frame_bounds (region_base_address region) (region_length region) of
           (status, first_frame, past_last_frame) \<Rightarrow>
             if status \<noteq> FRAME_STATUS_OK then (status, s)
             else (FRAME_STATUS_OK, mark_available_frames first_frame past_last_frame s))
      else
        (case covering_frame_bounds (region_base_address region) (region_length region) of
           (status, first_frame, past_last_frame) \<Rightarrow>
             if status = FRAME_STATUS_RANGE_OUTSIDE_LIMIT then (FRAME_STATUS_OK, s)
             else if status \<noteq> FRAME_STATUS_OK then (status, s)
             else (FRAME_STATUS_OK, mark_reserved_frames first_frame past_last_frame s)))"

function apply_regions ::
  "memory \<Rightarrow> boot_information \<Rightarrow> bool \<Rightarrow> nat \<Rightarrow> frame_state \<Rightarrow> frame_status \<times> frame_state" where
  "apply_regions m context first_pass index s =
     (if index < unat (memory_map_entry_count context) then
        (case region_of m context (of_nat index) of
           None \<Rightarrow> (FRAME_STATUS_BAD_MEMORY_MAP, s)
         | Some region \<Rightarrow>
             (case apply_region first_pass region s of
                (status, s') \<Rightarrow>
                  if status \<noteq> FRAME_STATUS_OK then (status, s')
                  else apply_regions m context first_pass (Suc index) s'))
      else (FRAME_STATUS_OK, s))"
  by pat_completeness auto
termination
  by (relation "measure (\<lambda>(m, c, p, i, s). unat (memory_map_entry_count c) - i)") auto

declare apply_regions.simps [simp del]

definition apply_memory_map ::
  "memory \<Rightarrow> boot_information \<Rightarrow> frame_state \<Rightarrow> frame_status \<times> frame_state" where
  "apply_memory_map m context s =
     (case apply_regions m context True 0 s of
        (status, s') \<Rightarrow>
          if status \<noteq> FRAME_STATUS_OK then (status, s')
          else apply_regions m context False 0 s')"

definition inactive_record :: contiguous_record where
  "inactive_record =
     \<lparr>rec_physical_base = 0, rec_page_count = 0, rec_identifier = 0, rec_active = False\<rparr>"

definition frame_allocator_initialize ::
  "memory \<Rightarrow> u64 \<Rightarrow> u64 \<Rightarrow> boot_information option \<Rightarrow> frame_state \<Rightarrow> frame_status \<times> frame_state"
  where
  "frame_allocator_initialize m kernel_start kernel_end context_pointer s =
     (case context_pointer of
        None \<Rightarrow> (FRAME_STATUS_NULL_ARGUMENT, s)
      | Some context \<Rightarrow>
        if memory_map context = None then (FRAME_STATUS_NULL_ARGUMENT, s)
        else
          let s0 = s\<lparr>allocator_initialized := False, next_search_index := 0,
                     next_contiguous_identifier := 1,
                     eligible_bitmap := bitmap_fill (eligible_bitmap s) 0,
                     used_bitmap := bitmap_fill (used_bitmap s) 0xFF,
                     contiguous_records :=
                       replicate FRAME_CONTIGUOUS_ALLOCATION_CAPACITY inactive_record\<rparr>
          in case apply_memory_map m context s0 of (status, s1) \<Rightarrow>
             if status \<noteq> FRAME_STATUS_OK then (status, s1)
             else case reserve_internal 0 SAPOTE_LOW_MEMORY_RESERVATION s1 of (status, s2) \<Rightarrow>
             if status \<noteq> FRAME_STATUS_OK then (status, s2)
             else if kernel_end < kernel_start then (FRAME_STATUS_RANGE_OVERFLOW, s2)
             else case reserve_internal kernel_start (kernel_end - kernel_start) s2 of (status, s3) \<Rightarrow>
             if status \<noteq> FRAME_STATUS_OK then (status, s3)
             else case reserve_internal (information_start context)
                         (information_end context - information_start context) s3 of (status, s4) \<Rightarrow>
             if status \<noteq> FRAME_STATUS_OK then (status, s4)
             else
               let s5 = recompute_stats s4 in
               if free_frames (allocator_stats s5) = 0 then (FRAME_STATUS_OUT_OF_MEMORY, s5)
               else (FRAME_STATUS_OK,
                     s5\<lparr>next_search_index :=
                          unat (SAPOTE_LOW_MEMORY_RESERVATION div SAPOTE_PAGE_SIZE),
                        allocator_initialized := True\<rparr>))"

subsection \<open>Single frames\<close>

abbreviation frame_is_free :: "frame_state \<Rightarrow> nat \<Rightarrow> bool" where
  "frame_is_free s frame \<equiv>
     bitmap_get (eligible_bitmap s) frame \<and> \<not> bitmap_get (used_bitmap s) frame"

text \<open>The search of \<open>frame_allocate\<close>: the first free frame from the cursor, wrapping once.\<close>

function frame_search :: "frame_state \<Rightarrow> nat \<Rightarrow> nat option" where
  "frame_search s step =
     (if step < FRAME_COUNT then
        let frame = next_search_index s + step;
            frame = (if frame \<ge> FRAME_COUNT then frame - FRAME_COUNT else frame)
        in if frame_is_free s frame then Some frame else frame_search s (Suc step)
      else None)"
  by pat_completeness auto
termination
  by (relation "measure (\<lambda>(s, step). FRAME_COUNT - step)") auto

declare frame_search.simps [simp del]

definition frame_allocate :: "u64 option \<Rightarrow> frame_state \<Rightarrow> frame_status \<times> u64 option \<times> frame_state"
  where
  "frame_allocate physical_address s =
     (if physical_address = None then (FRAME_STATUS_NULL_ARGUMENT, physical_address, s)
      else if \<not> allocator_initialized s then (FRAME_STATUS_NOT_INITIALIZED, physical_address, s)
      else if free_frames (allocator_stats s) = 0
      then (FRAME_STATUS_OUT_OF_MEMORY, physical_address, s)
      else
        (case frame_search s 0 of
           None \<Rightarrow> (FRAME_STATUS_OUT_OF_MEMORY, physical_address, s)
         | Some frame \<Rightarrow>
             let stats = allocator_stats s in
             (FRAME_STATUS_OK, Some (of_nat frame * SAPOTE_PAGE_SIZE),
              s\<lparr>used_bitmap := bitmap_set (used_bitmap s) frame True,
                allocator_stats := stats\<lparr>free_frames := free_frames stats - 1,
                                         allocated_frames := allocated_frames stats + 1\<rparr>,
                next_search_index := (if frame + 1 = FRAME_COUNT then 0 else frame + 1)\<rparr>)))"

definition frame_release :: "u64 \<Rightarrow> frame_state \<Rightarrow> frame_status \<times> frame_state" where
  "frame_release physical_address s =
     (if \<not> allocator_initialized s then (FRAME_STATUS_NOT_INITIALIZED, s)
      else if physical_address AND (SAPOTE_PAGE_SIZE - 1) \<noteq> 0
      then (FRAME_STATUS_UNALIGNED_ADDRESS, s)
      else if physical_address \<ge> SAPOTE_EARLY_PHYSICAL_LIMIT
      then (FRAME_STATUS_RANGE_OUTSIDE_LIMIT, s)
      else
        let frame = unat (physical_address div SAPOTE_PAGE_SIZE);
            stats = allocator_stats s
        in if \<not> bitmap_get (eligible_bitmap s) frame
           then (FRAME_STATUS_FRAME_NOT_ALLOCATABLE, s)
           else if \<not> bitmap_get (used_bitmap s) frame then (FRAME_STATUS_DOUBLE_FREE, s)
           else if frame_in_contiguous_allocation s frame then (FRAME_STATUS_FRAME_IN_USE, s)
           else (FRAME_STATUS_OK,
                 s\<lparr>used_bitmap := bitmap_set (used_bitmap s) frame False,
                   allocator_stats := stats\<lparr>free_frames := free_frames stats + 1,
                                            allocated_frames := allocated_frames stats - 1\<rparr>,
                   next_search_index := (if frame < next_search_index s then frame
                                         else next_search_index s)\<rparr>))"

subsection \<open>Contiguous allocations\<close>

text \<open>The index of the first record that satisfies a predicate, scanning from slot 0.\<close>

primrec find_record :: "(contiguous_record \<Rightarrow> bool) \<Rightarrow> contiguous_record list \<Rightarrow> nat option" where
  "find_record P [] = None"
| "find_record P (r # rs) = (if P r then Some 0 else map_option Suc (find_record P rs))"

text \<open>
  The scan over candidate first frames: \<open>first\<close> runs up to \<open>last_first\<close>, misaligned bases and
  ranges with an unavailable frame are skipped.
\<close>

function contiguous_search :: "frame_state \<Rightarrow> u64 \<Rightarrow> nat \<Rightarrow> nat \<Rightarrow> nat \<Rightarrow> nat option" where
  "contiguous_search s alignment page_count last_first first =
     (if first \<le> last_first then
        if (of_nat first * SAPOTE_PAGE_SIZE) AND (alignment - 1) \<noteq> 0
        then contiguous_search s alignment page_count last_first (Suc first)
        else if list_all (\<lambda>offset. frame_is_free s (first + offset)) [0..<page_count]
        then Some first
        else contiguous_search s alignment page_count last_first (Suc first)
      else None)"
  by pat_completeness auto
termination
  by (relation "measure (\<lambda>(s, a, p, l, f). Suc l - f)") auto

declare contiguous_search.simps [simp del]

definition set_used_range :: "nat \<Rightarrow> nat \<Rightarrow> bool \<Rightarrow> frame_state \<Rightarrow> frame_state" where
  "set_used_range first page_count value s =
     fold (\<lambda>offset s. s\<lparr>used_bitmap := bitmap_set (used_bitmap s) (first + offset) value\<rparr>)
       [0..<page_count] s"

definition cleared_allocation :: frame_contiguous_allocation where
  "cleared_allocation =
     \<lparr>alloc_physical_base = 0, alloc_page_count = 0, alloc_alignment = 0,
      alloc_maximum_physical_address = 0, alloc_identifier = 0, alloc_active = False\<rparr>"

text \<open>The bound checks of a request, up to the first frame past the permitted range.\<close>

definition contiguous_bound :: "frame_contiguous_request \<Rightarrow> frame_status \<times> nat" where
  "contiguous_bound request =
     (let page_count = req_page_count request; alignment = req_alignment request;
          maximum = req_maximum_physical_address request
      in if page_count = 0 then (FRAME_STATUS_ZERO_PAGE_COUNT, 0)
         else if \<not> power_of_two alignment \<or> alignment < SAPOTE_PAGE_SIZE
                 \<or> alignment mod SAPOTE_PAGE_SIZE \<noteq> 0
         then (FRAME_STATUS_BAD_ALIGNMENT, 0)
         else if alignment > SAPOTE_EARLY_PHYSICAL_LIMIT
                 \<or> alignment > maximum + (if maximum \<noteq> 0xFFFFFFFFFFFFFFFF then 1 else 0)
         then (FRAME_STATUS_ALIGNMENT_UNSATISFIABLE, 0)
         else if page_count > 0xFFFFFFFFFFFFFFFF div SAPOTE_PAGE_SIZE
         then (FRAME_STATUS_RANGE_OVERFLOW, 0)
         else
           let len = page_count * SAPOTE_PAGE_SIZE in
           if len = 0 \<or> maximum < len - 1 then (FRAME_STATUS_ADDRESS_BOUND_UNSATISFIED, 0)
           else
             let bound_end = (if maximum = 0xFFFFFFFFFFFFFFFF then 0xFFFFFFFFFFFFFFFF
                              else maximum + 1);
                 bound_end = (if bound_end > SAPOTE_EARLY_PHYSICAL_LIMIT
                              then SAPOTE_EARLY_PHYSICAL_LIMIT else bound_end);
                 maximum_past_frame = unat (bound_end div SAPOTE_PAGE_SIZE)
             in if maximum_past_frame < unat page_count
                then (FRAME_STATUS_ADDRESS_BOUND_UNSATISFIED, 0)
                else (FRAME_STATUS_OK, maximum_past_frame))"

text \<open>The commit of a found range: frames, record, statistics, cursor and handle.\<close>

definition contiguous_commit ::
  "frame_contiguous_request \<Rightarrow> nat \<Rightarrow> nat \<Rightarrow> frame_state
     \<Rightarrow> frame_contiguous_allocation \<times> frame_state" where
  "contiguous_commit request slot first s =
     (let page_count = req_page_count request;
          base = of_nat first * SAPOTE_PAGE_SIZE;
          identifier = next_contiguous_identifier s;
          stats = allocator_stats s;
          next_index = first + unat page_count;
          s1 = set_used_range first (unat page_count) True s
      in (\<lparr>alloc_physical_base = base, alloc_page_count = page_count,
           alloc_alignment = req_alignment request,
           alloc_maximum_physical_address = req_maximum_physical_address request,
           alloc_identifier = identifier, alloc_active = True\<rparr>,
          s1\<lparr>contiguous_records := (contiguous_records s)[slot :=
                \<lparr>rec_physical_base = base, rec_page_count = page_count,
                 rec_identifier = identifier, rec_active = True\<rparr>],
             next_contiguous_identifier := (if identifier + 1 = 0 then 1 else identifier + 1),
             allocator_stats := stats\<lparr>free_frames := free_frames stats - page_count,
                                      allocated_frames := allocated_frames stats + page_count\<rparr>,
             next_search_index := (if next_index \<ge> FRAME_COUNT then 0 else next_index)\<rparr>))"

definition frame_allocate_contiguous ::
  "frame_contiguous_request option \<Rightarrow> frame_contiguous_allocation option \<Rightarrow> frame_state
     \<Rightarrow> frame_status \<times> frame_contiguous_allocation option \<times> frame_state" where
  "frame_allocate_contiguous request_pointer allocation s =
     (case (request_pointer, allocation) of
        (Some request, Some _) \<Rightarrow>
          if \<not> allocator_initialized s
          then (FRAME_STATUS_NOT_INITIALIZED, Some cleared_allocation, s)
          else
            (case contiguous_bound request of (status, maximum_past_frame) \<Rightarrow>
               if status \<noteq> FRAME_STATUS_OK then (status, Some cleared_allocation, s)
               else
                 (case find_record (\<lambda>r. \<not> rec_active r) (contiguous_records s) of
                    None \<Rightarrow>
                      (FRAME_STATUS_TOO_MANY_CONTIGUOUS_ALLOCATIONS, Some cleared_allocation, s)
                  | Some slot \<Rightarrow>
                      (case contiguous_search s (req_alignment request)
                              (unat (req_page_count request))
                              (maximum_past_frame - unat (req_page_count request)) 0 of
                         None \<Rightarrow> (FRAME_STATUS_OUT_OF_MEMORY, Some cleared_allocation, s)
                       | Some first \<Rightarrow>
                           (case contiguous_commit request slot first s of
                              (handle, s') \<Rightarrow> (FRAME_STATUS_OK, Some handle, s')))))
      | _ \<Rightarrow> (FRAME_STATUS_NULL_ARGUMENT, allocation, s))"

definition frame_release_contiguous ::
  "frame_contiguous_allocation option \<Rightarrow> frame_state
     \<Rightarrow> frame_status \<times> frame_contiguous_allocation option \<times> frame_state" where
  "frame_release_contiguous allocation_pointer s =
     (case allocation_pointer of
        None \<Rightarrow> (FRAME_STATUS_NULL_ARGUMENT, None, s)
      | Some allocation \<Rightarrow>
        if \<not> allocator_initialized s then (FRAME_STATUS_NOT_INITIALIZED, Some allocation, s)
        else if \<not> alloc_active allocation then (FRAME_STATUS_DOUBLE_FREE, Some allocation, s)
        else
          (case find_record
                  (\<lambda>r. rec_active r \<and> rec_identifier r = alloc_identifier allocation)
                  (contiguous_records s) of
             None \<Rightarrow> (FRAME_STATUS_DOUBLE_FREE, Some allocation, s)
           | Some slot \<Rightarrow>
               let r = contiguous_records s ! slot;
                   page_count = unat (rec_page_count r);
                   first = record_first_frame r;
                   stats = allocator_stats s
               in if rec_physical_base r \<noteq> alloc_physical_base allocation
                     \<or> rec_page_count r \<noteq> alloc_page_count allocation
                  then (FRAME_STATUS_BAD_CONTIGUOUS_ALLOCATION, Some allocation, s)
                  else if list_ex (\<lambda>offset. \<not> bitmap_get (eligible_bitmap s) (first + offset)
                                      \<or> \<not> bitmap_get (used_bitmap s) (first + offset))
                            [0..<page_count]
                  then (FRAME_STATUS_BAD_CONTIGUOUS_ALLOCATION, Some allocation, s)
                  else
                    let s1 = set_used_range first page_count False s
                    in (FRAME_STATUS_OK, Some (allocation\<lparr>alloc_active := False\<rparr>),
                        s1\<lparr>allocator_stats :=
                             stats\<lparr>free_frames := free_frames stats + rec_page_count r,
                                   allocated_frames := allocated_frames stats - rec_page_count r\<rparr>,
                           next_search_index := (if first < next_search_index s then first
                                                 else next_search_index s),
                           contiguous_records :=
                             (contiguous_records s)[slot := r\<lparr>rec_active := False\<rparr>]\<rparr>)))"

subsection \<open>Reservations and queries\<close>

definition frame_reserve_range :: "u64 \<Rightarrow> u64 \<Rightarrow> frame_state \<Rightarrow> frame_status \<times> frame_state" where
  "frame_reserve_range base_address len s =
     (if \<not> allocator_initialized s then (FRAME_STATUS_NOT_INITIALIZED, s)
      else
        (case covering_frame_bounds base_address len of
           (status, first_frame, past_last_frame) \<Rightarrow>
             if status \<noteq> FRAME_STATUS_OK then (status, s)
             else if list_ex (\<lambda>frame. bitmap_get (eligible_bitmap s) frame
                                 \<and> bitmap_get (used_bitmap s) frame)
                       [first_frame..<past_last_frame]
             then (FRAME_STATUS_FRAME_IN_USE, s)
             else (FRAME_STATUS_OK,
                   recompute_stats (mark_reserved_frames first_frame past_last_frame s))))"

definition frame_range_overlaps_allocatable_memory :: "u64 \<Rightarrow> u64 \<Rightarrow> frame_state \<Rightarrow> bool" where
  "frame_range_overlaps_allocatable_memory base_address len s =
     (if \<not> allocator_initialized s \<or> len = 0 then False
      else
        (case checked_range_end base_address len of
           None \<Rightarrow> False
         | Some range_end \<Rightarrow>
             if base_address \<ge> SAPOTE_EARLY_PHYSICAL_LIMIT then False
             else
               let range_end = (if range_end > SAPOTE_EARLY_PHYSICAL_LIMIT
                                then SAPOTE_EARLY_PHYSICAL_LIMIT else range_end);
                   first_frame = unat (base_address div SAPOTE_PAGE_SIZE);
                   past_last_frame = unat (range_end div SAPOTE_PAGE_SIZE);
                   past_last_frame = (if range_end AND (SAPOTE_PAGE_SIZE - 1) \<noteq> 0
                                      then past_last_frame + 1 else past_last_frame)
               in list_ex (bitmap_get (eligible_bitmap s)) [first_frame..<past_last_frame]))"

definition frame_allocator_get_stats :: "frame_state \<Rightarrow> frame_allocator_stats" where
  "frame_allocator_get_stats s = allocator_stats s"

subsection \<open>Bitmaps as sets of frames\<close>

lemma frame_constants [simp]:
  "SAPOTE_PAGE_SIZE = 4096" "SAPOTE_EARLY_PHYSICAL_LIMIT = 0x100000000"
  "SAPOTE_LOW_MEMORY_RESERVATION = 0x100000" "FRAME_CONTIGUOUS_ALLOCATION_CAPACITY = 32"
  by (simp_all add: SAPOTE_PAGE_SIZE_def SAPOTE_EARLY_PHYSICAL_LIMIT_def
      SAPOTE_LOW_MEMORY_RESERVATION_def FRAME_CONTIGUOUS_ALLOCATION_CAPACITY_def)

lemma FRAME_COUNT_eq: "FRAME_COUNT = 1048576"
  by (simp add: FRAME_COUNT_def unat_div)

lemma bitmap_get_bit: "bitmap_get b i \<longleftrightarrow> bit (b (i div 8)) (i mod 8)"
  by (simp add: bitmap_get_def and_exp_nonzero_iff)

lemma bitmap_get_set [simp]: "bitmap_get (bitmap_set b i v) j = (if i = j then v else bitmap_get b j)"
proof -
  have "i = j \<longleftrightarrow> i div 8 = j div 8 \<and> i mod 8 = j mod 8"
    by (metis div_mult_mod_eq)
  then show ?thesis
    by (auto simp: bitmap_get_bit bitmap_set_def Let_def bit_or_exp_iff bit_and_not_exp_iff)
qed

lemma bitmap_get_fill [simp]:
  "i < FRAME_COUNT \<Longrightarrow> bitmap_get (bitmap_fill b 0) i = False"
  "i < FRAME_COUNT \<Longrightarrow> bitmap_get (bitmap_fill b 0xFF) i = True"
proof -
  assume "i < FRAME_COUNT"
  then have "i div 8 < BITMAP_BYTE_COUNT"
    by (simp add: BITMAP_BYTE_COUNT_def FRAME_COUNT_eq)
  moreover have "bit (0xFF :: u8) (i mod 8)"
  proof -
    have "bit (mask 8 :: u8) (i mod 8)" by (simp only: bit_mask_iff) simp
    then show ?thesis by (simp add: mask_eq_exp_minus_1)
  qed
  ultimately show "bitmap_get (bitmap_fill b 0) i = False" "bitmap_get (bitmap_fill b 0xFF) i = True"
    by (simp_all add: bitmap_get_bit bitmap_fill_def)
qed

definition eligible_frames :: "frame_state \<Rightarrow> nat set" where
  "eligible_frames s = {f. f < FRAME_COUNT \<and> bitmap_get (eligible_bitmap s) f}"

definition free_set :: "frame_state \<Rightarrow> nat set" where
  "free_set s = {f. f < FRAME_COUNT \<and> frame_is_free s f}"

definition allocated_set :: "frame_state \<Rightarrow> nat set" where
  "allocated_set s = {f. f < FRAME_COUNT \<and> bitmap_get (eligible_bitmap s) f \<and> bitmap_get (used_bitmap s) f}"

lemmas frame_set_defs = eligible_frames_def free_set_def allocated_set_def

lemma finite_frame_sets [simp]:
  "finite (eligible_frames s)" "finite (free_set s)" "finite (allocated_set s)"
  by (simp_all add: frame_set_defs)

lemma eligible_split: "eligible_frames s = free_set s \<union> allocated_set s" "free_set s \<inter> allocated_set s = {}"
  by (auto simp: frame_set_defs)

lemma card_frame_sets_le:
  "card (eligible_frames s) \<le> FRAME_COUNT" "card (free_set s) \<le> FRAME_COUNT"
proof -
  have "eligible_frames s \<subseteq> {..<FRAME_COUNT}" "free_set s \<subseteq> {..<FRAME_COUNT}"
    by (auto simp: frame_set_defs)
  then show "card (eligible_frames s) \<le> FRAME_COUNT" "card (free_set s) \<le> FRAME_COUNT"
    using card_mono [of "{..<FRAME_COUNT}"] by auto
qed

subsection \<open>The statistics are the cardinalities of the sets\<close>

definition stats_of :: "frame_state \<Rightarrow> frame_allocator_stats" where
  "stats_of s = \<lparr>addressable_frames = of_nat FRAME_COUNT,
     allocatable_frames = of_nat (card (eligible_frames s)),
     free_frames = of_nat (card (free_set s)),
     allocated_frames = of_nat (card (allocated_set s)),
     reserved_frames = of_nat (FRAME_COUNT - card (eligible_frames s)),
     highest_allocatable_address =
       (if eligible_frames s = {} then 0 else (of_nat (Max (eligible_frames s)) + 1) * 4096)\<rparr>"

lemma count_frames_below:
  fixes E U
  defines "el n \<equiv> {f. f < n \<and> bitmap_get E f}"
  shows "fold (count_frame E U) [0..<n]
     \<lparr>addressable_frames = a, allocatable_frames = 0, free_frames = 0, allocated_frames = 0,
      reserved_frames = 0, highest_allocatable_address = 0\<rparr>
   = \<lparr>addressable_frames = a, allocatable_frames = of_nat (card (el n)),
      free_frames = of_nat (card {f. f < n \<and> bitmap_get E f \<and> \<not> bitmap_get U f}),
      allocated_frames = of_nat (card {f. f < n \<and> bitmap_get E f \<and> bitmap_get U f}),
      reserved_frames = of_nat (n - card (el n)),
      highest_allocatable_address = (if el n = {} then 0 else (of_nat (Max (el n)) + 1) * 4096)\<rparr>"
proof (induction n)
  case 0
  then show ?case by (simp add: el_def)
next
  case (Suc n)
  have el: "el (Suc n) = (if bitmap_get E n then insert n (el n) else el n)"
    by (auto simp: el_def less_Suc_eq)
  have fin: "finite (el n)" and notin: "n \<notin> el n" by (auto simp: el_def)
  have "el n \<subseteq> {..<n}" by (auto simp: el_def)
  then have le: "card (el n) \<le> n" using card_mono [of "{..<n}" "el n"] by simp
  have mx: "Max (insert n (el n)) = n"
    using fin by (intro Max_eqI) (auto simp: el_def)
  have diff: "Suc n - card (el n) = Suc (n - card (el n))" using le by simp
  show ?case
    using Suc fin notin le mx diff
    by (simp add: count_frame_def Let_def el card_Collect_less_Suc)
qed

lemma recompute_stats_eq: "recompute_stats s = s\<lparr>allocator_stats := stats_of s\<rparr>"
  unfolding recompute_stats_def stats_of_def count_frames_below frame_set_defs by simp

subsection \<open>The invariant\<close>

definition record_frames :: "contiguous_record \<Rightarrow> nat set" where
  "record_frames r = {record_first_frame r ..< record_first_frame r + unat (rec_page_count r)}"

definition records_ok :: "contiguous_record list \<Rightarrow> nat set \<Rightarrow> bool" where
  "records_ok rs allocated \<longleftrightarrow>
     length rs = FRAME_CONTIGUOUS_ALLOCATION_CAPACITY
     \<and> (\<forall>i < length rs. rec_active (rs ! i) \<longrightarrow> record_frames (rs ! i) \<subseteq> allocated)
     \<and> (\<forall>i < length rs. \<forall>j < length rs. i \<noteq> j \<longrightarrow> rec_active (rs ! i) \<longrightarrow> rec_active (rs ! j)
          \<longrightarrow> record_frames (rs ! i) \<inter> record_frames (rs ! j) = {})"

definition frame_inv :: "frame_state \<Rightarrow> bool" where
  "frame_inv s \<longleftrightarrow> allocator_stats s = stats_of s \<and> next_search_index s < FRAME_COUNT
     \<and> records_ok (contiguous_records s) (allocated_set s)"

lemma stats_of_cong:
  "eligible_frames s = eligible_frames t \<Longrightarrow> free_set s = free_set t
   \<Longrightarrow> allocated_set s = allocated_set t \<Longrightarrow> stats_of s = stats_of t"
  by (simp add: stats_of_def)

lemma free_frames_zero_iff:
  "allocator_stats s = stats_of s \<Longrightarrow> free_frames (allocator_stats s) = 0 \<longleftrightarrow> free_set s = {}"
proof -
  have "(of_nat (card (free_set s)) :: u64) = 0 \<longleftrightarrow> card (free_set s) = 0"
    using card_frame_sets_le(2) [of s] unfolding FRAME_COUNT_eq
    by (subst word_unat_eq_iff) (simp add: unat_of_nat_small)
  then show "allocator_stats s = stats_of s \<Longrightarrow> free_frames (allocator_stats s) = 0 \<longleftrightarrow> free_set s = {}"
    by (simp add: stats_of_def)
qed

subsection \<open>Moving frames between the free and the allocated set\<close>

text \<open>
  The statistics after a set of frames \<open>R\<close> left the free set, and after it came back: the
  shape of every allocation and release.
\<close>

lemma stats_take:
  assumes "R \<subseteq> free_set s" and "eligible_frames t = eligible_frames s"
    and "free_set t = free_set s - R" and "allocated_set t = allocated_set s \<union> R"
  shows "stats_of t = (stats_of s)\<lparr>free_frames := free_frames (stats_of s) - of_nat (card R),
           allocated_frames := allocated_frames (stats_of s) + of_nat (card R)\<rparr>"
proof -
  have fin: "finite R" using assms(1) by (rule finite_subset) simp
  have "card (free_set t) = card (free_set s) - card R" "card R \<le> card (free_set s)"
    using assms(1,3) fin by (auto simp: card_Diff_subset intro: card_mono)
  moreover have "card (allocated_set t) = card (allocated_set s) + card R"
    unfolding assms(4) by (rule card_Un_disjoint) (use assms(1) fin eligible_split(2) [of s] in auto)
  ultimately show ?thesis
    using assms(2) by (simp add: stats_of_def)
qed

lemma stats_give_back:
  assumes "R \<subseteq> allocated_set s" and "eligible_frames t = eligible_frames s"
    and "free_set t = free_set s \<union> R" and "allocated_set t = allocated_set s - R"
  shows "stats_of t = (stats_of s)\<lparr>free_frames := free_frames (stats_of s) + of_nat (card R),
           allocated_frames := allocated_frames (stats_of s) - of_nat (card R)\<rparr>"
proof -
  have fin: "finite R" using assms(1) by (rule finite_subset) simp
  have "card (allocated_set t) = card (allocated_set s) - card R" "card R \<le> card (allocated_set s)"
    using assms(1,4) fin by (auto simp: card_Diff_subset intro: card_mono)
  moreover have "card (free_set t) = card (free_set s) + card R"
    unfolding assms(3) by (rule card_Un_disjoint) (use assms(1) fin eligible_split(2) [of s] in auto)
  ultimately show ?thesis
    using assms(2) by (simp add: stats_of_def)
qed

lemma records_ok_mono: "records_ok rs A \<Longrightarrow> A \<subseteq> B \<Longrightarrow> records_ok rs B"
  unfolding records_ok_def by blast

lemma find_record_Some:
  "find_record P rs = Some i \<Longrightarrow> i < length rs \<and> P (rs ! i) \<and> (\<forall>j < i. \<not> P (rs ! j))"
proof (induction rs arbitrary: i)
  case (Cons r rs)
  show ?case
  proof (cases "P r")
    case False
    then obtain k where "i = Suc k" "find_record P rs = Some k"
      using Cons.prems by auto
    with Cons.IH [of k] False show ?thesis
      by (auto simp: nth_Cons split: nat.split)
  qed (use Cons.prems in auto)
qed simp

lemma find_record_None: "find_record P rs = None \<longleftrightarrow> (\<forall>r \<in> set rs. \<not> P r)"
  by (induction rs) auto

subsection \<open>Single frames\<close>

abbreviation search_frame :: "frame_state \<Rightarrow> nat \<Rightarrow> nat" where
  "search_frame s k \<equiv> (next_search_index s + k) mod FRAME_COUNT"

lemma search_frame_eq:
  "next_search_index s < FRAME_COUNT \<Longrightarrow> k < FRAME_COUNT \<Longrightarrow>
   (if next_search_index s + k \<ge> FRAME_COUNT then next_search_index s + k - FRAME_COUNT
    else next_search_index s + k) = search_frame s k"
  by (auto simp: le_mod_geq)

lemma frame_search_spec:
  assumes "next_search_index s < FRAME_COUNT"
  shows "case frame_search s start of
      Some f \<Rightarrow> \<exists>k. start \<le> k \<and> k < FRAME_COUNT \<and> f = search_frame s k \<and> f \<in> free_set s
         \<and> (\<forall>j. start \<le> j \<and> j < k \<longrightarrow> search_frame s j \<notin> free_set s)
    | None \<Rightarrow> \<forall>k. start \<le> k \<and> k < FRAME_COUNT \<longrightarrow> search_frame s k \<notin> free_set s"
  using assms
proof (induction s start rule: frame_search.induct)
  case (1 s start)
  let ?f = "search_frame s start"
  have lt: "?f < FRAME_COUNT" by (simp add: FRAME_COUNT_eq)
  show ?case
  proof (cases "start < FRAME_COUNT")
    case False
    then show ?thesis by (auto simp: frame_search.simps [of s start])
  next
    case True
    have unf: "frame_search s start = (if frame_is_free s ?f then Some ?f else frame_search s (Suc start))"
      using True search_frame_eq [OF "1.prems" True]
      by (subst frame_search.simps) (simp only: Let_def if_True)
    show ?thesis
    proof (cases "frame_is_free s ?f")
      case free: True
      then have "frame_search s start = Some ?f" unfolding unf by simp
      then show ?thesis
        using True free lt by (auto simp: free_set_def intro!: exI [of _ start])
    next
      case False
      then have nf: "?f \<notin> free_set s" and eq: "frame_search s start = frame_search s (Suc start)"
        unfolding unf by (auto simp: free_set_def)
      have IH: "case frame_search s (Suc start) of
            Some f \<Rightarrow> \<exists>k. Suc start \<le> k \<and> k < FRAME_COUNT \<and> f = search_frame s k \<and> f \<in> free_set s
               \<and> (\<forall>j. Suc start \<le> j \<and> j < k \<longrightarrow> search_frame s j \<notin> free_set s)
          | None \<Rightarrow> \<forall>k. Suc start \<le> k \<and> k < FRAME_COUNT \<longrightarrow> search_frame s k \<notin> free_set s"
        using False search_frame_eq [OF "1.prems" True] by (intro "1.IH" [OF True refl refl _ "1.prems"]) simp
      show ?thesis
      proof (cases "frame_search s (Suc start)")
        case None
        then show ?thesis using IH nf unfolding eq
          by (simp; metis Suc_leI le_neq_implies_less)
      next
        case (Some f)
        then obtain k where "Suc start \<le> k" "k < FRAME_COUNT" "f = search_frame s k" "f \<in> free_set s"
          "\<forall>j. Suc start \<le> j \<and> j < k \<longrightarrow> search_frame s j \<notin> free_set s"
          using IH by auto
        moreover have "\<forall>j. start \<le> j \<and> j < k \<longrightarrow> search_frame s j \<notin> free_set s"
          using calculation(5) nf by (metis Suc_leI le_neq_implies_less)
        ultimately show ?thesis
          unfolding eq Some by (simp; metis Suc_leD)
      qed
    qed
  qed
qed

lemma frame_search_None_iff:
  assumes "next_search_index s < FRAME_COUNT"
  shows "frame_search s 0 = None \<longleftrightarrow> free_set s = {}"
proof
  assume n: "frame_search s 0 = None"
  show "free_set s = {}"
  proof (rule equals0I)
    fix f assume f: "f \<in> free_set s"
    then have lt: "f < FRAME_COUNT" by (simp add: free_set_def)
    let ?k = "(f + FRAME_COUNT - next_search_index s) mod FRAME_COUNT"
    have "search_frame s ?k = f"
      using assms lt by (simp add: mod_simps)
    moreover have "?k < FRAME_COUNT" by (simp add: FRAME_COUNT_eq)
    ultimately show False
      using frame_search_spec [OF assms, of 0] n f by auto
  qed
next
  assume "free_set s = {}"
  then show "frame_search s 0 = None"
    using frame_search_spec [OF assms, of 0] by (auto split: option.splits)
qed

lemma set_used_sets:
  assumes "f < FRAME_COUNT" and "bitmap_get (eligible_bitmap s) f"
    and "eligible_bitmap t = eligible_bitmap s" and "used_bitmap t = bitmap_set (used_bitmap s) f v"
  shows "eligible_frames t = eligible_frames s"
    and "v \<Longrightarrow> free_set t = free_set s - {f}" and "v \<Longrightarrow> allocated_set t = allocated_set s \<union> {f}"
    and "\<not> v \<Longrightarrow> free_set t = free_set s \<union> {f}" and "\<not> v \<Longrightarrow> allocated_set t = allocated_set s - {f}"
  using assms by (auto simp: frame_set_defs)

lemma frame_address:
  assumes "f < FRAME_COUNT"
  shows "unat (of_nat f * SAPOTE_PAGE_SIZE :: u64) = f * 4096"
    and "of_nat f * SAPOTE_PAGE_SIZE < SAPOTE_EARLY_PHYSICAL_LIMIT"
    and "(of_nat f * SAPOTE_PAGE_SIZE) AND (SAPOTE_PAGE_SIZE - 1) = 0"
    and "unat ((of_nat f * SAPOTE_PAGE_SIZE) div SAPOTE_PAGE_SIZE) = f"
proof -
  have f: "unat (of_nat f :: u64) = f"
    using assms by (intro unat_of_nat_small) (simp add: FRAME_COUNT_eq)
  show u: "unat (of_nat f * SAPOTE_PAGE_SIZE :: u64) = f * 4096"
    using assms f by (subst unat_mult_bounded) (auto simp: FRAME_COUNT_eq)
  show "of_nat f * SAPOTE_PAGE_SIZE < SAPOTE_EARLY_PHYSICAL_LIMIT"
    using assms u by (simp add: word_less_nat_alt FRAME_COUNT_eq)
  show "(of_nat f * SAPOTE_PAGE_SIZE) AND (SAPOTE_PAGE_SIZE - 1) = 0"
    using u by (simp add: and_FFF_eq_0_iff)
  show "unat ((of_nat f * SAPOTE_PAGE_SIZE) div SAPOTE_PAGE_SIZE) = f"
    using u by (simp add: unat_div)
qed

text \<open>The four outcomes of an allocation, the last with its whole effect.\<close>

lemma frame_allocate_cases:
  assumes "frame_inv s" and "allocator_initialized s"
  shows "free_set s = {} \<Longrightarrow> frame_allocate (Some old) s = (FRAME_STATUS_OUT_OF_MEMORY, Some old, s)"
    and "free_set s \<noteq> {} \<Longrightarrow> \<exists>f s'. frame_allocate (Some old) s = (FRAME_STATUS_OK, Some (of_nat f * SAPOTE_PAGE_SIZE), s')
          \<and> f \<in> free_set s \<and> eligible_frames s' = eligible_frames s
          \<and> free_set s' = free_set s - {f} \<and> allocated_set s' = insert f (allocated_set s)
          \<and> contiguous_records s' = contiguous_records s \<and> allocator_initialized s'
          \<and> next_contiguous_identifier s' = next_contiguous_identifier s
          \<and> eligible_bitmap s' = eligible_bitmap s \<and> frame_inv s'"
proof -
  have n: "next_search_index s < FRAME_COUNT" and st: "allocator_stats s = stats_of s"
    using assms(1) by (simp_all add: frame_inv_def)
  note zero = free_frames_zero_iff [OF st]
  show "frame_allocate (Some old) s = (FRAME_STATUS_OUT_OF_MEMORY, Some old, s)" if "free_set s = {}"
    using that zero assms(2) by (simp add: frame_allocate_def)
  show "\<exists>f s'. frame_allocate (Some old) s = (FRAME_STATUS_OK, Some (of_nat f * SAPOTE_PAGE_SIZE), s')
          \<and> f \<in> free_set s \<and> eligible_frames s' = eligible_frames s
          \<and> free_set s' = free_set s - {f} \<and> allocated_set s' = insert f (allocated_set s)
          \<and> contiguous_records s' = contiguous_records s \<and> allocator_initialized s'
          \<and> next_contiguous_identifier s' = next_contiguous_identifier s
          \<and> eligible_bitmap s' = eligible_bitmap s \<and> frame_inv s'"
    if ne: "free_set s \<noteq> {}"
  proof -
    obtain f where fs: "frame_search s 0 = Some f"
      using frame_search_None_iff [OF n] ne by (cases "frame_search s 0") auto
    then have f: "f \<in> free_set s"
      using frame_search_spec [OF n, of 0] by auto
    let ?s = "s\<lparr>used_bitmap := bitmap_set (used_bitmap s) f True,
        allocator_stats := (allocator_stats s)\<lparr>free_frames := free_frames (allocator_stats s) - 1,
          allocated_frames := allocated_frames (allocator_stats s) + 1\<rparr>,
        next_search_index := (if f + 1 = FRAME_COUNT then 0 else f + 1)\<rparr>"
    have flt: "f < FRAME_COUNT" and el: "bitmap_get (eligible_bitmap s) f"
      using f by (auto simp: free_set_def)
    have sets: "eligible_frames ?s = eligible_frames s" "free_set ?s = free_set s - {f}"
      "allocated_set ?s = allocated_set s \<union> {f}"
      using set_used_sets [OF flt el, of ?s True] by auto
    have "stats_of ?s = (stats_of s)\<lparr>free_frames := free_frames (stats_of s) - of_nat (card {f}),
           allocated_frames := allocated_frames (stats_of s) + of_nat (card {f})\<rparr>"
      using f by (intro stats_take sets) simp
    then have "allocator_stats ?s = stats_of ?s" using st by simp
    moreover have "records_ok (contiguous_records ?s) (allocated_set ?s)"
      using assms(1) unfolding frame_inv_def sets by (auto intro: records_ok_mono)
    moreover have "next_search_index ?s < FRAME_COUNT" using flt by (auto simp: FRAME_COUNT_eq)
    ultimately have "frame_inv ?s" unfolding frame_inv_def by blast
    moreover have "frame_allocate (Some old) s = (FRAME_STATUS_OK, Some (of_nat f * SAPOTE_PAGE_SIZE), ?s)"
      using fs assms(2) ne zero by (simp add: frame_allocate_def Let_def)
    ultimately show ?thesis using f sets assms(2) by (intro exI [of _ f] exI [of _ ?s]) simp
  qed
qed

lemma frame_in_contiguous_iff:
  "frame_in_contiguous_allocation s f \<longleftrightarrow>
     (\<exists>i < length (contiguous_records s). rec_active (contiguous_records s ! i)
        \<and> f \<in> record_frames (contiguous_records s ! i))"
  unfolding frame_in_contiguous_allocation_def record_frames_def list_ex_length by auto

lemma frame_release_cases:
  assumes "frame_inv s" and "allocator_initialized s" and "f < FRAME_COUNT"
  defines "a \<equiv> of_nat f * SAPOTE_PAGE_SIZE"
  shows "f \<notin> eligible_frames s \<Longrightarrow> frame_release a s = (FRAME_STATUS_FRAME_NOT_ALLOCATABLE, s)"
    and "f \<in> free_set s \<Longrightarrow> frame_release a s = (FRAME_STATUS_DOUBLE_FREE, s)"
    and "f \<in> allocated_set s \<Longrightarrow> frame_in_contiguous_allocation s f
           \<Longrightarrow> frame_release a s = (FRAME_STATUS_FRAME_IN_USE, s)"
    and "f \<in> allocated_set s \<Longrightarrow> \<not> frame_in_contiguous_allocation s f
           \<Longrightarrow> \<exists>s'. frame_release a s = (FRAME_STATUS_OK, s')
             \<and> eligible_frames s' = eligible_frames s \<and> free_set s' = insert f (free_set s)
             \<and> allocated_set s' = allocated_set s - {f} \<and> contiguous_records s' = contiguous_records s
             \<and> allocator_initialized s' \<and> eligible_bitmap s' = eligible_bitmap s
             \<and> next_contiguous_identifier s' = next_contiguous_identifier s
             \<and> frame_inv s'"
proof -
  note adr = frame_address [OF assms(3), folded a_def]
  have guards: "\<not> a \<ge> SAPOTE_EARLY_PHYSICAL_LIMIT" using adr(2) by simp
  show "f \<notin> eligible_frames s \<Longrightarrow> frame_release a s = (FRAME_STATUS_FRAME_NOT_ALLOCATABLE, s)"
    "f \<in> free_set s \<Longrightarrow> frame_release a s = (FRAME_STATUS_DOUBLE_FREE, s)"
    "f \<in> allocated_set s \<Longrightarrow> frame_in_contiguous_allocation s f
           \<Longrightarrow> frame_release a s = (FRAME_STATUS_FRAME_IN_USE, s)"
    unfolding frame_release_def Let_def adr(3,4)
    using assms(2,3) guards by (auto simp: frame_set_defs)
  assume f: "f \<in> allocated_set s" and nc: "\<not> frame_in_contiguous_allocation s f"
  let ?s = "s\<lparr>used_bitmap := bitmap_set (used_bitmap s) f False,
      allocator_stats := (allocator_stats s)\<lparr>free_frames := free_frames (allocator_stats s) + 1,
        allocated_frames := allocated_frames (allocator_stats s) - 1\<rparr>,
      next_search_index := (if f < next_search_index s then f else next_search_index s)\<rparr>"
  have el: "bitmap_get (eligible_bitmap s) f" and us: "bitmap_get (used_bitmap s) f"
    using f by (auto simp: allocated_set_def)
  have sets: "eligible_frames ?s = eligible_frames s" "free_set ?s = free_set s \<union> {f}"
    "allocated_set ?s = allocated_set s - {f}"
    using set_used_sets [OF assms(3) el, of ?s False] by auto
  have "stats_of ?s = (stats_of s)\<lparr>free_frames := free_frames (stats_of s) + of_nat (card {f}),
         allocated_frames := allocated_frames (stats_of s) - of_nat (card {f})\<rparr>"
    using f by (intro stats_give_back sets) simp
  then have "allocator_stats ?s = stats_of ?s" using assms(1) by (simp add: frame_inv_def)
  moreover have "records_ok (contiguous_records ?s) (allocated_set ?s)"
    using assms(1) nc unfolding frame_inv_def sets records_ok_def frame_in_contiguous_iff by auto
  moreover have "next_search_index ?s < FRAME_COUNT" using assms(1,3) by (auto simp: frame_inv_def)
  ultimately have "frame_inv ?s" unfolding frame_inv_def by blast
  moreover have "frame_release a s = (FRAME_STATUS_OK, ?s)"
    unfolding frame_release_def Let_def adr(3,4) using assms(2) guards el us nc by simp
  ultimately show "\<exists>s'. frame_release a s = (FRAME_STATUS_OK, s')
             \<and> eligible_frames s' = eligible_frames s \<and> free_set s' = insert f (free_set s)
             \<and> allocated_set s' = allocated_set s - {f} \<and> contiguous_records s' = contiguous_records s
             \<and> allocator_initialized s' \<and> eligible_bitmap s' = eligible_bitmap s
             \<and> next_contiguous_identifier s' = next_contiguous_identifier s
             \<and> frame_inv s'"
    using sets assms(2) by (intro exI [of _ ?s]) simp
qed

lemma frame_release_error_unchanged: "fst (frame_release a s) \<noteq> FRAME_STATUS_OK \<Longrightarrow> snd (frame_release a s) = s"
  unfolding frame_release_def Let_def by (auto split: if_split_asm)

lemma frame_release_OK:
  assumes "frame_inv s" and "frame_release a s = (FRAME_STATUS_OK, s')"
  shows "allocator_initialized s
     \<and> (\<exists>f. a = of_nat f * SAPOTE_PAGE_SIZE \<and> f \<in> allocated_set s \<and> \<not> frame_in_contiguous_allocation s f
     \<and> free_set s' = insert f (free_set s) \<and> allocated_set s' = allocated_set s - {f}
     \<and> eligible_frames s' = eligible_frames s \<and> allocator_initialized s' \<and> frame_inv s'
     \<and> contiguous_records s' = contiguous_records s)"
proof -
  let ?f = "unat (a div SAPOTE_PAGE_SIZE)"
  have *: "allocator_initialized s" "a AND (SAPOTE_PAGE_SIZE - 1) = 0" "\<not> a \<ge> SAPOTE_EARLY_PHYSICAL_LIMIT"
    "bitmap_get (eligible_bitmap s) ?f" "bitmap_get (used_bitmap s) ?f" "\<not> frame_in_contiguous_allocation s ?f"
    using assms(2) unfolding frame_release_def Let_def by (auto split: if_split_asm)
  have f: "?f = unat a div 4096" by (simp add: unat_div)
  have lt: "unat a < 0x100000000" using *(3) by (simp add: word_less_nat_alt not_le)
  then have flt: "?f < FRAME_COUNT" using f by (simp add: FRAME_COUNT_eq)
  have dvd: "4096 dvd unat a" using *(2) by (simp add: and_FFF_eq_0_iff)
  have "of_nat ?f * SAPOTE_PAGE_SIZE = a"
    using frame_address(1) [OF flt] f dvd by (simp only: word_unat_eq_iff) simp
  then show ?thesis
    using frame_release_cases(4) [OF assms(1) *(1) flt] * flt assms(2)
    by (intro conjI exI [of _ ?f]) (auto simp: allocated_set_def)
qed

lemma frame_release_inv:
  assumes "frame_inv s"
  shows "frame_inv (snd (frame_release a s))"
proof (cases "fst (frame_release a s) = FRAME_STATUS_OK")
  case False
  then show ?thesis using frame_release_error_unchanged assms by simp
next
  case True
  then have "frame_release a s = (FRAME_STATUS_OK, snd (frame_release a s))"
    by (cases "frame_release a s") simp
  from frame_release_OK [OF assms this] show ?thesis by blast
qed

lemma frame_allocate_inv:
  assumes "frame_inv s"
  shows "frame_inv (snd (snd (frame_allocate p s)))"
proof (cases "p = None \<or> \<not> allocator_initialized s")
  case True
  then show ?thesis using assms by (auto simp: frame_allocate_def)
next
  case False
  then obtain old where p: "p = Some old" and i: "allocator_initialized s" by auto
  show ?thesis
  proof (cases "free_set s = {}")
    case True
    then show ?thesis using frame_allocate_cases(1) [OF assms i] assms p by simp
  next
    case False
    from frame_allocate_cases(2) [OF assms i False, of old] show ?thesis using p by auto
  qed
qed

subsection \<open>Powers of two\<close>

lemma nat_and_pred_eq_0: "n > 0 \<Longrightarrow> (n AND (n - 1)) = 0 \<Longrightarrow> \<exists>k. n = (2 :: nat) ^ k"
proof (induction n rule: less_induct)
  case (less n)
  show ?case
  proof (cases "even n")
    case True
    then obtain m where m: "n = 2 * m" by auto
    then have m0: "m > 0" using less.prems by simp
    have "n - 1 = 2 * (m - 1) + 1" using m m0 by simp
    then have half: "(n - 1) div 2 = m - 1" by simp
    have "(n AND (n - 1)) div 2 = (n div 2 AND (n - 1) div 2)"
      using drop_bit_and [of 1 n "n - 1"] by (simp add: drop_bit_eq_div)
    then have "(n AND (n - 1)) div 2 = (m AND (m - 1))"
      unfolding half using m by simp
    then have "(m AND (m - 1)) = 0" using less.prems by simp
    then obtain k where "m = 2 ^ k" using less.IH [of m] m m0 by auto
    then show ?thesis using m by (intro exI [of _ "Suc k"]) simp
  next
    case False
    then obtain m where m: "n = 2 * m + 1" by (auto elim: oddE)
    then have "(n AND (n - 1)) div 2 = m"
      using drop_bit_and [of 1 n "n - 1"] by (simp add: drop_bit_eq_div)
    then have "m = 0" using less.prems by simp
    then show ?thesis using m by (intro exI [of _ 0]) simp
  qed
qed

lemma power_of_two_iff_exp:
  assumes "power_of_two a" shows "\<exists>k < 64. unat a = 2 ^ k"
proof -
  have a0: "a \<noteq> 0" and "(a AND (a - 1)) = 0" using assms by (auto simp: power_of_two_def)
  then have "(unat a AND (unat a - 1)) = 0"
    using unat_minus_one [OF a0] unsigned_and_eq [of a "a - 1", where 'a = nat] by simp
  then obtain k where k: "unat a = 2 ^ k"
    using nat_and_pred_eq_0 [of "unat a"] a0 by (auto simp: unat_gt_0)
  then have "(2 :: nat) ^ k < 2 ^ 64" using unat_less_size [of a] by simp
  then have "k < 64" by (rule power_less_imp_less_exp [rotated]) simp
  then show ?thesis using k by blast
qed

lemma aligned_iff_dvd:
  assumes "power_of_two a"
  shows "b AND (a - 1) = 0 \<longleftrightarrow> unat a dvd unat b"
proof -
  obtain k where k: "unat a = 2 ^ k" "k < 64" using power_of_two_iff_exp [OF assms] by auto
  have "a = of_nat (unat a)" by simp
  then have "a = 2 ^ k" unfolding k(1) by simp
  then have "a - 1 = mask k" by (simp add: mask_eq_exp_minus_1)
  then have "unat (b AND (a - 1)) = unat b mod unat a" using k by (simp only: unat_and_mask)
  then show ?thesis by (metis dvd_eq_mod_eq_0 unat_eq_0)
qed

subsection \<open>Ranges of frames\<close>

lemma set_used_range_fields [simp]:
  "eligible_bitmap (set_used_range first n v s) = eligible_bitmap s"
  "allocator_stats (set_used_range first n v s) = allocator_stats s"
  "next_search_index (set_used_range first n v s) = next_search_index s"
  "allocator_initialized (set_used_range first n v s) = allocator_initialized s"
  "contiguous_records (set_used_range first n v s) = contiguous_records s"
  "next_contiguous_identifier (set_used_range first n v s) = next_contiguous_identifier s"
  by (induction n) (simp_all add: set_used_range_def)

lemma set_used_range_used:
  "bitmap_get (used_bitmap (set_used_range first n v s)) j
     = (if first \<le> j \<and> j < first + n then v else bitmap_get (used_bitmap s) j)"
proof (induction n)
  case 0
  then show ?case by (auto simp: set_used_range_def)
next
  case (Suc n)
  have "set_used_range first (Suc n) v s = (set_used_range first n v s)
      \<lparr>used_bitmap := bitmap_set (used_bitmap (set_used_range first n v s)) (first + n) v\<rparr>"
    by (simp add: set_used_range_def)
  then show ?case using Suc by auto
qed

lemma range_sets:
  assumes "eligible_bitmap t = eligible_bitmap s"
    and "used_bitmap t = used_bitmap (set_used_range first n v s)"
    and "{first..<first + n} \<subseteq> eligible_frames s"
  shows "eligible_frames t = eligible_frames s"
    and "v \<Longrightarrow> free_set t = free_set s - {first..<first + n}"
    and "v \<Longrightarrow> allocated_set t = allocated_set s \<union> {first..<first + n}"
    and "\<not> v \<Longrightarrow> free_set t = free_set s \<union> {first..<first + n}"
    and "\<not> v \<Longrightarrow> allocated_set t = allocated_set s - {first..<first + n}"
  using assms(1,2) subsetD [OF assms(3)]
  by (auto simp: frame_set_defs set_used_range_used split: if_splits)

subsection \<open>Contiguous allocation\<close>

lemma contiguous_bound_OK:
  assumes "contiguous_bound request = (FRAME_STATUS_OK, past)"
  shows "0 < unat (req_page_count request) \<and> unat (req_page_count request) \<le> past
     \<and> past \<le> FRAME_COUNT \<and> past * 4096 \<le> unat (req_maximum_physical_address request) + 1
     \<and> power_of_two (req_alignment request) \<and> 4096 \<le> unat (req_alignment request)"
proof -
  let ?m = "req_maximum_physical_address request"
  let ?top = "if ?m = 0xFFFFFFFFFFFFFFFF then 0xFFFFFFFFFFFFFFFF else ?m + 1"
  let ?b = "if ?top > SAPOTE_EARLY_PHYSICAL_LIMIT then SAPOTE_EARLY_PHYSICAL_LIMIT else ?top"
  from assms have *: "req_page_count request \<noteq> 0" "power_of_two (req_alignment request)"
    "\<not> req_alignment request < SAPOTE_PAGE_SIZE" "past = unat (?b div SAPOTE_PAGE_SIZE)"
    "\<not> past < unat (req_page_count request)"
    unfolding contiguous_bound_def Let_def by (auto split: if_split_asm)
  have b0: "unat ?top \<le> unat ?m + 1"
    by (cases "?m = 0xFFFFFFFFFFFFFFFF") (simp_all add: unat_word_ariths)
  have "unat ?b \<le> unat ?top"
    unfolding word_le_nat_alt [symmetric] by auto
  then have b: "unat ?b \<le> unat ?m + 1" using b0 by linarith
  have b': "unat ?b \<le> 0x100000000" by (auto simp: word_less_nat_alt)
  have past: "past = unat ?b div 4096" using *(4) by (simp add: unat_div)
  have "past * 4096 \<le> unat ?b" unfolding past by simp
  then have "past * 4096 \<le> unat ?m + 1" using b by linarith
  moreover have "past \<le> FRAME_COUNT"
    unfolding past FRAME_COUNT_eq using b' by linarith
  ultimately show ?thesis
    using * by (auto simp: unat_gt_0 word_less_nat_alt)
qed

definition candidate :: "frame_state \<Rightarrow> u64 \<Rightarrow> nat \<Rightarrow> nat \<Rightarrow> bool" where
  "candidate s al n first \<longleftrightarrow> (of_nat first * SAPOTE_PAGE_SIZE) AND (al - 1) = 0
     \<and> (\<forall>k < n. frame_is_free s (first + k))"

lemma contiguous_search_step:
  "contiguous_search s al n l start =
     (if start \<le> l then if candidate s al n start then Some start
        else contiguous_search s al n l (Suc start) else None)"
  by (subst contiguous_search.simps) (auto simp: candidate_def list_all_iff)

lemma contiguous_search_Some:
  "contiguous_search s al n l start = Some first
   \<Longrightarrow> start \<le> first \<and> first \<le> l \<and> candidate s al n first
     \<and> (\<forall>j. start \<le> j \<and> j < first \<longrightarrow> \<not> candidate s al n j)"
proof (induction "Suc l - start" arbitrary: start)
  case 0
  then show ?case using contiguous_search_step [of s al n l start] by simp
next
  case (Suc d)
  then have le: "start \<le> l" by simp
  show ?case
  proof (cases "candidate s al n start")
    case True
    then show ?thesis using Suc.prems le contiguous_search_step [of s al n l start] by auto
  next
    case False
    then have "contiguous_search s al n l (Suc start) = Some first"
      using Suc.prems le contiguous_search_step [of s al n l start] by simp
    moreover have "d = Suc l - Suc start" using Suc.hyps(2) by simp
    ultimately have "Suc start \<le> first \<and> first \<le> l \<and> candidate s al n first
       \<and> (\<forall>j. Suc start \<le> j \<and> j < first \<longrightarrow> \<not> candidate s al n j)"
      using Suc.hyps(1) by blast
    then show ?thesis using False by (auto simp: Suc_le_eq) (metis le_neq_implies_less)
  qed
qed

lemma contiguous_search_None:
  "contiguous_search s al n l start = None \<Longrightarrow> start \<le> first \<Longrightarrow> first \<le> l
   \<Longrightarrow> \<not> candidate s al n first"
proof (induction "Suc l - start" arbitrary: start)
  case 0
  then show ?case by simp
next
  case (Suc d)
  then have le: "start \<le> l" by simp
  have nc: "\<not> candidate s al n start" and nx: "contiguous_search s al n l (Suc start) = None"
    using Suc.prems(1) le contiguous_search_step [of s al n l start] by (auto split: if_split_asm)
  have d: "d = Suc l - Suc start" using Suc.hyps(2) by simp
  show ?case
  proof (cases "start = first")
    case False
    then show ?thesis using Suc.hyps(1) [OF d nx] Suc.prems by simp
  qed (use nc in simp)
qed

lemma find_record_unique:
  assumes "i < length rs" and "P (rs ! i)" and "\<And>j. j < length rs \<Longrightarrow> P (rs ! j) \<Longrightarrow> j = i"
  shows "find_record P rs = Some i"
proof (cases "find_record P rs")
  case None
  then show ?thesis using assms(1,2) by (auto simp: find_record_None)
next
  case (Some k)
  then show ?thesis using find_record_Some [OF Some] assms(3) by blast
qed

lemma records_ok_insert:
  assumes "records_ok rs A" and "i < length rs" and "record_frames r \<inter> A = {}"
  shows "records_ok (rs[i := r]) (A \<union> record_frames r)"
  using assms unfolding records_ok_def by (auto simp: nth_list_update) blast+

lemma records_ok_remove:
  assumes "records_ok rs A" and "i < length rs" and "rec_active (rs ! i)" and "\<not> rec_active r"
  shows "records_ok (rs[i := r]) (A - record_frames (rs ! i))"
  using assms unfolding records_ok_def by (auto simp: nth_list_update) blast+

text \<open>
  The outcome of a well-formed request: the range is the lowest aligned range of free frames below
  the bound, and it leaves the free set.
\<close>

lemma frame_allocate_contiguous_OK:
  assumes inv: "frame_inv s"
    and call: "frame_allocate_contiguous (Some request) p s = (FRAME_STATUS_OK, q, s')"
  shows "\<exists>first slot. q = Some \<lparr>alloc_physical_base = of_nat first * SAPOTE_PAGE_SIZE,
        alloc_page_count = req_page_count request, alloc_alignment = req_alignment request,
        alloc_maximum_physical_address = req_maximum_physical_address request,
        alloc_identifier = next_contiguous_identifier s, alloc_active = True\<rparr>
     \<and> 0 < unat (req_page_count request)
     \<and> first + unat (req_page_count request) \<le> FRAME_COUNT
     \<and> (first + unat (req_page_count request)) * 4096
         \<le> unat (req_maximum_physical_address request) + 1
     \<and> unat (req_alignment request) dvd first * 4096
     \<and> {first ..< first + unat (req_page_count request)} \<subseteq> free_set s
     \<and> eligible_frames s' = eligible_frames s
     \<and> free_set s' = free_set s - {first ..< first + unat (req_page_count request)}
     \<and> allocated_set s' = allocated_set s \<union> {first ..< first + unat (req_page_count request)}
     \<and> slot < length (contiguous_records s) \<and> \<not> rec_active (contiguous_records s ! slot)
     \<and> contiguous_records s' = (contiguous_records s)[slot :=
          \<lparr>rec_physical_base = of_nat first * SAPOTE_PAGE_SIZE,
           rec_page_count = req_page_count request,
           rec_identifier = next_contiguous_identifier s, rec_active = True\<rparr>]
     \<and> allocator_initialized s' \<and> frame_inv s'"
proof -
  let ?n = "unat (req_page_count request)"
  obtain past slot first where
      init: "allocator_initialized s"
    and bound: "contiguous_bound request = (FRAME_STATUS_OK, past)"
    and slot: "find_record (\<lambda>r. \<not> rec_active r) (contiguous_records s) = Some slot"
    and search: "contiguous_search s (req_alignment request) ?n (past - ?n) 0 = Some first"
    and commit: "contiguous_commit request slot first s = (the q, s')" and q: "q = Some (the q)"
    using call unfolding frame_allocate_contiguous_def
    by (auto split: option.splits prod.splits if_split_asm)
  note b = contiguous_bound_OK [OF bound]
  note sl = find_record_Some [OF slot]
  have cand: "first \<le> past - ?n" "candidate s (req_alignment request) ?n first"
    using contiguous_search_Some [OF search] by auto
  have le: "first + ?n \<le> past" using cand(1) b by linarith
  have flt: "first < FRAME_COUNT" using le b by linarith
  let ?R = "{first ..< first + ?n}"
  have sub: "?R \<subseteq> free_set s"
  proof
    fix f assume "f \<in> ?R"
    then obtain k where k: "f = first + k" "k < ?n" by (auto simp: le_iff_add)
    then have "f < FRAME_COUNT" using le b by linarith
    then show "f \<in> free_set s"
      using cand(2) k unfolding candidate_def free_set_def by blast
  qed
  then have sub': "?R \<subseteq> eligible_frames s" by (auto simp: frame_set_defs)
  have dv: "unat (req_alignment request) dvd first * 4096"
    using cand(2) b aligned_iff_dvd [of "req_alignment request" "of_nat first * SAPOTE_PAGE_SIZE"]
      frame_address(1) [OF flt] unfolding candidate_def by simp
  have s': "s' = snd (contiguous_commit request slot first s)"
    and qq: "the q = fst (contiguous_commit request slot first s)"
    using commit by simp_all
  have fields: "eligible_bitmap s' = eligible_bitmap s"
    "used_bitmap s' = used_bitmap (set_used_range first ?n True s)"
    "contiguous_records s' = (contiguous_records s)[slot :=
          \<lparr>rec_physical_base = of_nat first * SAPOTE_PAGE_SIZE,
           rec_page_count = req_page_count request,
           rec_identifier = next_contiguous_identifier s, rec_active = True\<rparr>]"
    "allocator_initialized s'" "next_search_index s' < FRAME_COUNT"
    "allocator_stats s' = (allocator_stats s)
       \<lparr>free_frames := free_frames (allocator_stats s) - req_page_count request,
        allocated_frames := allocated_frames (allocator_stats s) + req_page_count request\<rparr>"
    using init unfolding s' contiguous_commit_def Let_def by (auto simp: FRAME_COUNT_eq)
  note sets = range_sets(1,2,3) [OF fields(1,2) sub', simplified]
  have "stats_of s' = (stats_of s)\<lparr>free_frames := free_frames (stats_of s) - of_nat (card ?R),
           allocated_frames := allocated_frames (stats_of s) + of_nat (card ?R)\<rparr>"
    by (rule stats_take [OF sub sets])
  then have st: "allocator_stats s' = stats_of s'"
    using inv fields(6) by (simp add: frame_inv_def)
  have rf: "record_frames \<lparr>rec_physical_base = of_nat first * SAPOTE_PAGE_SIZE,
       rec_page_count = req_page_count request,
       rec_identifier = next_contiguous_identifier s, rec_active = True\<rparr> = ?R"
    using frame_address(4) [OF flt] by (simp add: record_frames_def record_first_frame_def)
  have "?R \<inter> allocated_set s = {}" using sub eligible_split(2) [of s] by blast
  then have "records_ok (contiguous_records s') (allocated_set s')"
    unfolding fields(3) sets(3)
    using inv sl by (metis frame_inv_def records_ok_insert rf)
  then have "frame_inv s'" using st fields(5) by (simp add: frame_inv_def)
  moreover have "(first + ?n) * 4096 \<le> unat (req_maximum_physical_address request) + 1"
    using b le by (meson le_trans mult_le_mono1)
  moreover have "q = Some \<lparr>alloc_physical_base = of_nat first * SAPOTE_PAGE_SIZE,
        alloc_page_count = req_page_count request, alloc_alignment = req_alignment request,
        alloc_maximum_physical_address = req_maximum_physical_address request,
        alloc_identifier = next_contiguous_identifier s, alloc_active = True\<rparr>"
    using q qq by (simp add: contiguous_commit_def Let_def)
  moreover have "first + ?n \<le> FRAME_COUNT" using le b by linarith
  ultimately show ?thesis
    using b dv sub sets sl fields(3,4) by blast
qed

lemma records_okD:
  "records_ok rs A \<Longrightarrow> i < length rs \<Longrightarrow> rec_active (rs ! i) \<Longrightarrow> record_frames (rs ! i) \<subseteq> A"
  by (simp add: records_ok_def)

lemma frame_release_contiguous_OK:
  assumes inv: "frame_inv s"
    and call: "frame_release_contiguous (Some h) s = (FRAME_STATUS_OK, q, s')"
  shows "\<exists>slot r. slot < length (contiguous_records s) \<and> r = contiguous_records s ! slot
     \<and> rec_active r \<and> rec_identifier r = alloc_identifier h
     \<and> rec_physical_base r = alloc_physical_base h \<and> rec_page_count r = alloc_page_count h
     \<and> q = Some (h\<lparr>alloc_active := False\<rparr>) \<and> record_frames r \<subseteq> allocated_set s
     \<and> eligible_frames s' = eligible_frames s
     \<and> free_set s' = free_set s \<union> record_frames r
     \<and> allocated_set s' = allocated_set s - record_frames r
     \<and> contiguous_records s' = (contiguous_records s)[slot := r\<lparr>rec_active := False\<rparr>]
     \<and> allocator_initialized s' \<and> frame_inv s'"
proof -
  obtain slot where init: "allocator_initialized s"
    and slot: "find_record (\<lambda>r. rec_active r \<and> rec_identifier r = alloc_identifier h)
                 (contiguous_records s) = Some slot"
    using call unfolding frame_release_contiguous_def by (auto split: option.splits if_split_asm)
  define r where "r = contiguous_records s ! slot"
  note sl = find_record_Some [OF slot, folded r_def]
  let ?first = "record_first_frame r" and ?n = "unat (rec_page_count r)"
  let ?R = "{?first ..< ?first + ?n}"
  have R: "record_frames r = ?R" by (simp add: record_frames_def)
  let ?s = "(set_used_range ?first ?n False s)\<lparr>allocator_stats := (allocator_stats s)
         \<lparr>free_frames := free_frames (allocator_stats s) + rec_page_count r,
          allocated_frames := allocated_frames (allocator_stats s) - rec_page_count r\<rparr>,
       next_search_index := (if ?first < next_search_index s then ?first else next_search_index s),
       contiguous_records := (contiguous_records s)[slot := r\<lparr>rec_active := False\<rparr>]\<rparr>"
  have match: "rec_physical_base r = alloc_physical_base h" "rec_page_count r = alloc_page_count h"
    and q: "q = Some (h\<lparr>alloc_active := False\<rparr>)" and s': "s' = ?s"
    using call init
    unfolding frame_release_contiguous_def Let_def option.case slot r_def [symmetric]
    by (simp_all split: if_split_asm)
  have sub: "?R \<subseteq> allocated_set s"
    using records_okD [of "contiguous_records s" "allocated_set s" slot] inv sl
    by (simp add: R [symmetric] frame_inv_def r_def [symmetric])
  then have sub': "?R \<subseteq> eligible_frames s" by (auto simp: frame_set_defs)
  have fields: "eligible_bitmap s' = eligible_bitmap s"
    "used_bitmap s' = used_bitmap (set_used_range ?first ?n False s)"
    unfolding s' by simp_all
  note sets = range_sets(1,4,5) [OF fields sub', simplified]
  have "stats_of s' = (stats_of s)\<lparr>free_frames := free_frames (stats_of s) + of_nat (card ?R),
           allocated_frames := allocated_frames (stats_of s) - of_nat (card ?R)\<rparr>"
    by (rule stats_give_back [OF sub sets])
  then have st: "allocator_stats s' = stats_of s'"
    using inv unfolding s' by (simp add: frame_inv_def)
  have recs: "contiguous_records s' = (contiguous_records s)[slot := r\<lparr>rec_active := False\<rparr>]"
    and init': "allocator_initialized s'"
    using init unfolding s' by simp_all
  have "records_ok (contiguous_records s') (allocated_set s')"
    unfolding recs sets(3) R [symmetric] unfolding r_def
    by (rule records_ok_remove) (use inv sl in \<open>simp_all add: frame_inv_def r_def [symmetric]\<close>)
  moreover have "next_search_index s' < FRAME_COUNT"
    using inv unfolding s' frame_inv_def by auto
  ultimately have "frame_inv s'" using st by (simp add: frame_inv_def)
  then show ?thesis
    using sl match q sub sets recs init' unfolding R [symmetric]
    by (intro exI [of _ slot] exI [of _ r]) (simp add: r_def)
qed

lemma frame_contiguous_error_unchanged:
  "fst (frame_allocate_contiguous rp p s) \<noteq> FRAME_STATUS_OK
     \<Longrightarrow> snd (snd (frame_allocate_contiguous rp p s)) = s"
  "fst (frame_release_contiguous p s) \<noteq> FRAME_STATUS_OK
     \<Longrightarrow> snd (frame_release_contiguous p s) = (p, s)"
  subgoal unfolding frame_allocate_contiguous_def
    by (simp split: option.splits prod.splits if_split_asm)
  subgoal unfolding frame_release_contiguous_def Let_def
    by (auto split: option.splits if_split_asm)
  done

lemma frame_contiguous_inv:
  assumes "frame_inv s"
  shows "frame_inv (snd (snd (frame_allocate_contiguous rp p s)))"
    and "frame_inv (snd (snd (frame_release_contiguous p s)))"
proof -
  show "frame_inv (snd (snd (frame_allocate_contiguous rp p s)))"
  proof (cases "fst (frame_allocate_contiguous rp p s) = FRAME_STATUS_OK")
    case False
    then show ?thesis using frame_contiguous_error_unchanged(1) assms by simp
  next
    case True
    then obtain request q s' where rp: "rp = Some request"
      and call: "frame_allocate_contiguous rp p s = (FRAME_STATUS_OK, q, s')"
      by (cases rp; cases "frame_allocate_contiguous rp p s") (auto simp: frame_allocate_contiguous_def)
    show ?thesis
      using frame_allocate_contiguous_OK [OF assms call [unfolded rp]] unfolding rp [symmetric] call
      by auto
  qed
  show "frame_inv (snd (snd (frame_release_contiguous p s)))"
  proof (cases "fst (frame_release_contiguous p s) = FRAME_STATUS_OK")
    case False
    then show ?thesis using frame_contiguous_error_unchanged(2) [OF False] assms by simp
  next
    case True
    then obtain h q s' where p: "p = Some h"
      and call: "frame_release_contiguous p s = (FRAME_STATUS_OK, q, s')"
      by (cases p; cases "frame_release_contiguous p s") (auto simp: frame_release_contiguous_def)
    show ?thesis
      using frame_release_contiguous_OK [OF assms call [unfolded p]] unfolding p [symmetric] call
      by auto
  qed
qed

lemma contiguous_bound_not_OOM: "fst (contiguous_bound request) \<noteq> FRAME_STATUS_OUT_OF_MEMORY"
  unfolding contiguous_bound_def Let_def by simp

text \<open>A request that finds no range is refused only when there is none.\<close>

lemma frame_allocate_contiguous_OOM:
  assumes "frame_allocate_contiguous (Some request) p s = (FRAME_STATUS_OUT_OF_MEMORY, q, s')"
    and "unat (req_alignment request) dvd first * 4096"
    and "(first + unat (req_page_count request)) * 4096 \<le> unat (req_maximum_physical_address request) + 1"
    and "first + unat (req_page_count request) \<le> FRAME_COUNT"
  shows "\<not> {first ..< first + unat (req_page_count request)} \<subseteq> free_set s"
proof
  let ?n = "unat (req_page_count request)" and ?m = "req_maximum_physical_address request"
  assume sub: "{first ..< first + ?n} \<subseteq> free_set s"
  obtain past where bound: "contiguous_bound request = (FRAME_STATUS_OK, past)"
    and search: "contiguous_search s (req_alignment request) ?n (past - ?n) 0 = None"
    using assms(1) contiguous_bound_not_OOM [of request] unfolding frame_allocate_contiguous_def
    by (auto split: option.splits if_split_asm prod.splits)
  note b = contiguous_bound_OK [OF bound]
  let ?top = "if ?m = 0xFFFFFFFFFFFFFFFF then 0xFFFFFFFFFFFFFFFF else ?m + 1"
  let ?b = "if ?top > SAPOTE_EARLY_PHYSICAL_LIMIT then SAPOTE_EARLY_PHYSICAL_LIMIT else ?top"
  have past: "past = unat ?b div 4096"
    using bound unfolding contiguous_bound_def Let_def by (auto simp: unat_div split: if_split_asm)
  have "(first + ?n) * 4096 \<le> unat ?top"
    using assms(3,4) unat_less_size [of ?m]
    by (cases "?m = 0xFFFFFFFFFFFFFFFF") (auto simp: FRAME_COUNT_eq unat_word_ariths word_unat_eq_iff)
  moreover have "(first + ?n) * 4096 \<le> unat SAPOTE_EARLY_PHYSICAL_LIMIT"
    using assms(4) by (simp add: FRAME_COUNT_eq)
  ultimately have "(first + ?n) * 4096 \<le> unat ?b"
    by (cases "?top > SAPOTE_EARLY_PHYSICAL_LIMIT") simp_all
  then have "first + ?n \<le> past" unfolding past by simp
  then have "first \<le> past - ?n" by simp
  moreover have flt: "first < FRAME_COUNT" using b assms(4) by linarith
  have "first + k \<in> free_set s" if "k < ?n" for k using sub that by auto
  then have "candidate s (req_alignment request) ?n first"
    unfolding candidate_def
    using aligned_iff_dvd [of "req_alignment request" "of_nat first * SAPOTE_PAGE_SIZE"] b assms(2)
      frame_address(1) [OF flt] by (auto simp: free_set_def)
  ultimately show False using contiguous_search_None [OF search, of first] by simp
qed

lemma contiguous_release_after_allocate:
  assumes inv: "frame_inv s"
    and call: "frame_allocate_contiguous (Some request) p s = (FRAME_STATUS_OK, Some h, s')"
    and fresh: "\<forall>r \<in> set (contiguous_records s). rec_active r
                  \<longrightarrow> rec_identifier r \<noteq> next_contiguous_identifier s"
  shows "\<exists>s''. frame_release_contiguous (Some h) s'
           = (FRAME_STATUS_OK, Some (h\<lparr>alloc_active := False\<rparr>), s'')
         \<and> free_set s'' = free_set s \<and> allocated_set s'' = allocated_set s
         \<and> eligible_frames s'' = eligible_frames s \<and> frame_inv s''"
proof -
  from frame_allocate_contiguous_OK [OF inv call] obtain first slot where
    h': "Some h = Some \<lparr>alloc_physical_base = of_nat first * SAPOTE_PAGE_SIZE,
        alloc_page_count = req_page_count request, alloc_alignment = req_alignment request,
        alloc_maximum_physical_address = req_maximum_physical_address request,
        alloc_identifier = next_contiguous_identifier s, alloc_active = True\<rparr>"
    and n0: "0 < unat (req_page_count request)"
    and lim: "first + unat (req_page_count request) \<le> FRAME_COUNT"
    and sub: "{first ..< first + unat (req_page_count request)} \<subseteq> free_set s"
    and el: "eligible_frames s' = eligible_frames s"
    and fr: "free_set s' = free_set s - {first ..< first + unat (req_page_count request)}"
    and al: "allocated_set s' = allocated_set s \<union> {first ..< first + unat (req_page_count request)}"
    and slot: "slot < length (contiguous_records s)"
    and rs: "contiguous_records s' = (contiguous_records s)[slot :=
          \<lparr>rec_physical_base = of_nat first * SAPOTE_PAGE_SIZE,
           rec_page_count = req_page_count request,
           rec_identifier = next_contiguous_identifier s, rec_active = True\<rparr>]"
    and init: "allocator_initialized s'" and inv': "frame_inv s'"
    by blast
  note h = h' [simplified option.inject]
  let ?n = "unat (req_page_count request)"
  let ?R = "{first ..< first + ?n}"
  have flt: "first < FRAME_COUNT" using n0 lim by linarith
  have find: "find_record (\<lambda>r. rec_active r \<and> rec_identifier r = alloc_identifier h)
      (contiguous_records s') = Some slot"
    by (rule find_record_unique)
      (use slot fresh in \<open>auto simp: rs h nth_list_update split: if_split_asm\<close>)
  have first: "record_first_frame (contiguous_records s' ! slot) = first"
    using slot frame_address(4) [OF flt] by (simp add: rs record_first_frame_def)
  have "first + k \<in> allocated_set s'" if "k < ?n" for k using that unfolding al by simp
  then have "\<not> list_ex (\<lambda>offset. \<not> bitmap_get (eligible_bitmap s') (first + offset)
            \<or> \<not> bitmap_get (used_bitmap s') (first + offset)) [0..<?n]"
    unfolding list_ex_iff by (simp add: allocated_set_def)
  then have "fst (frame_release_contiguous (Some h) s') = FRAME_STATUS_OK"
    using find init first slot unfolding frame_release_contiguous_def Let_def
    by (simp add: h rs)
  then obtain q s'' where rel: "frame_release_contiguous (Some h) s' = (FRAME_STATUS_OK, q, s'')"
    by (cases "frame_release_contiguous (Some h) s'") auto
  from frame_release_contiguous_OK [OF inv' rel] obtain slot' r where
    r: "slot' < length (contiguous_records s')" "r = contiguous_records s' ! slot'" "rec_active r"
      "rec_identifier r = alloc_identifier h" "rec_physical_base r = alloc_physical_base h"
      "rec_page_count r = alloc_page_count h"
    and q: "q = Some (h\<lparr>alloc_active := False\<rparr>)"
    and sets: "eligible_frames s'' = eligible_frames s'" "free_set s'' = free_set s' \<union> record_frames r"
      "allocated_set s'' = allocated_set s' - record_frames r" and inv'': "frame_inv s''"
    by blast
  have "record_frames r = ?R"
    using r frame_address(4) [OF flt] by (simp add: record_frames_def record_first_frame_def h)
  then have "free_set s'' = free_set s" "allocated_set s'' = allocated_set s"
    using sets fr al sub eligible_split(2) [of s] by auto
  then show ?thesis using rel q sets(1) el inv'' by blast
qed

subsection \<open>Frames and physical ranges\<close>

definition frame_inside :: "nat \<Rightarrow> u64 \<Rightarrow> u64 \<Rightarrow> bool" where
  "frame_inside f base len \<longleftrightarrow> unat base \<le> f * 4096 \<and> (f + 1) * 4096 \<le> unat base + unat len"

definition frame_touches :: "nat \<Rightarrow> u64 \<Rightarrow> u64 \<Rightarrow> bool" where
  "frame_touches f base len \<longleftrightarrow>
     len \<noteq> 0 \<and> f * 4096 < unat base + unat len \<and> unat base < (f + 1) * 4096"

lemma checked_range_end_Some:
  "checked_range_end base len = Some e \<Longrightarrow> unat e = unat base + unat len"
  unfolding checked_range_end_def by (auto simp: unat_plus_checked not_less split: if_split_asm)

lemma clip_limit:
  "unat (if e < SAPOTE_EARLY_PHYSICAL_LIMIT then e else SAPOTE_EARLY_PHYSICAL_LIMIT)
     = min (unat e) 0x100000000"
  by (auto simp: word_less_nat_alt)

lemma frame_ceiling:
  "f < (if c mod 4096 = 0 then c div 4096 else c div 4096 + 1) \<longleftrightarrow> f * 4096 < (c :: nat)"
proof -
  define q r where "q = c div 4096" and "r = c mod 4096"
  then have "c = q * 4096 + r" "r < 4096" by simp_all
  then show ?thesis unfolding q_def [symmetric] r_def [symmetric] by auto
qed

lemma covering_frame_bounds_OK:
  assumes "covering_frame_bounds base len = (FRAME_STATUS_OK, a, b)"
  shows "a \<le> f \<and> f < b \<longleftrightarrow> f < FRAME_COUNT \<and> frame_touches f base len" and "b \<le> FRAME_COUNT"
proof -
  obtain e where e: "checked_range_end base len = Some e"
    using assms unfolding covering_frame_bounds_def by (auto split: option.splits)
  let ?c = "if e < SAPOTE_EARLY_PHYSICAL_LIMIT then e else SAPOTE_EARLY_PHYSICAL_LIMIT"
  have c: "unat ?c = min (unat base + unat len) 0x100000000"
    unfolding clip_limit checked_range_end_Some [OF e] ..
  have "(a \<le> f \<and> f < b \<longleftrightarrow> f < FRAME_COUNT \<and> frame_touches f base len) \<and> b \<le> FRAME_COUNT"
  proof (cases "len = 0")
    case True
    then show ?thesis using assms e by (auto simp: covering_frame_bounds_def frame_touches_def)
  next
    case False
    have "\<not> base \<ge> SAPOTE_EARLY_PHYSICAL_LIMIT"
      using assms e False unfolding covering_frame_bounds_def by (auto split: if_split_asm)
    then have "a = unat (base div 4096)"
      and bw: "b = (if ?c AND 0xFFF = 0 then unat (?c div 4096) else unat (?c div 4096) + 1)"
      using assms e False unfolding covering_frame_bounds_def Let_def
      by (cases "e < SAPOTE_EARLY_PHYSICAL_LIMIT"; auto)+
    then have ab: "a = unat base div 4096"
      "b = (if unat ?c mod 4096 = 0 then unat ?c div 4096 else unat ?c div 4096 + 1)"
      unfolding bw and_FFF_eq_0_iff dvd_eq_mod_eq_0 unat_div by simp_all
    have le: "a \<le> f \<longleftrightarrow> unat base < (f + 1) * 4096" unfolding ab(1) by (auto simp: less_mult_imp_div_less)
    have "f < b \<longleftrightarrow> f * 4096 < unat ?c" unfolding ab(2) by (rule frame_ceiling)
    then have "f < b \<longleftrightarrow> f * 4096 < unat base + unat len \<and> f < FRAME_COUNT"
      unfolding c by (auto simp: FRAME_COUNT_eq)
    moreover have "b \<le> FRAME_COUNT"
      using frame_ceiling [of FRAME_COUNT "unat ?c", folded ab(2)] c by (simp add: FRAME_COUNT_eq)
    ultimately show ?thesis using le False by (auto simp: frame_touches_def)
  qed
  then show "a \<le> f \<and> f < b \<longleftrightarrow> f < FRAME_COUNT \<and> frame_touches f base len" and "b \<le> FRAME_COUNT"
    by blast+
qed

lemma available_frame_bounds_OK:
  assumes "available_frame_bounds base len = (FRAME_STATUS_OK, a, b)"
  shows "a \<le> f \<and> f < b \<longleftrightarrow> f < FRAME_COUNT \<and> frame_inside f base len" and "b \<le> FRAME_COUNT"
proof -
  obtain e where e: "checked_range_end base len = Some e"
    using assms unfolding available_frame_bounds_def by (auto split: option.splits)
  let ?c = "if e < SAPOTE_EARLY_PHYSICAL_LIMIT then e else SAPOTE_EARLY_PHYSICAL_LIMIT"
  let ?al = "(base + 0xFFF) AND NOT 0xFFF"
  have c: "unat ?c = min (unat base + unat len) 0x100000000"
    unfolding clip_limit checked_range_end_Some [OF e] ..
  have "(a \<le> f \<and> f < b \<longleftrightarrow> f < FRAME_COUNT \<and> frame_inside f base len) \<and> b \<le> FRAME_COUNT"
  proof (cases "len = 0 \<or> base \<ge> SAPOTE_EARLY_PHYSICAL_LIMIT")
    case True
    then have "a = 0 \<and> b = 0" "\<not> (f < FRAME_COUNT \<and> frame_inside f base len)"
      using assms e by (auto simp: available_frame_bounds_def frame_inside_def word_le_nat_alt
          FRAME_COUNT_eq)
    then show ?thesis by auto
  next
    case False
    then have lt: "unat base < 0x100000000" by (simp add: word_le_nat_alt)
    then have "unat (base + 0xFFF) = unat base + 4095"
      by (subst unat_plus_bounded) auto
    then have al: "unat ?al = (unat base + 4095) div 4096 * 4096"
      unfolding unat_and_not_FFF by (simp add: minus_mod_eq_div_mult)
    show ?thesis
    proof (cases "?al \<ge> ?c")
      case True
      then have "a = 0 \<and> b = 0"
        using assms e False by (simp add: available_frame_bounds_def Let_def)
      moreover have "unat ?c \<le> unat ?al" using True by (simp only: word_le_nat_alt)
      then have "\<not> (f < FRAME_COUNT \<and> frame_inside f base len)"
        unfolding al c frame_inside_def FRAME_COUNT_eq by (auto simp: min_def split: if_splits)
      ultimately show ?thesis by auto
    next
      case nal: False
      have ab: "a = unat ?al div 4096" "b = unat (?c AND NOT 0xFFF) div 4096"
        using assms e False nal by (auto simp: available_frame_bounds_def Let_def unat_div)
      have b: "b = unat ?c div 4096" unfolding ab(2) unat_and_not_FFF
        by (simp add: minus_mod_eq_div_mult)
      have "a = (unat base + 4095) div 4096" unfolding ab(1) al by simp
      then have "a \<le> f \<longleftrightarrow> unat base \<le> f * 4096" by auto
      moreover have "f < b \<longleftrightarrow> (f + 1) * 4096 \<le> unat ?c" unfolding b by auto
      then have "f < b \<longleftrightarrow> (f + 1) * 4096 \<le> unat base + unat len \<and> f < FRAME_COUNT"
        unfolding c by (auto simp: FRAME_COUNT_eq)
      moreover have "b \<le> FRAME_COUNT" unfolding b FRAME_COUNT_eq using c by auto
      ultimately show ?thesis by (auto simp: frame_inside_def)
    qed
  qed
  then show "a \<le> f \<and> f < b \<longleftrightarrow> f < FRAME_COUNT \<and> frame_inside f base len" and "b \<le> FRAME_COUNT"
    by blast+
qed

subsection \<open>Marking ranges\<close>

lemma mark_frames_fields [simp]:
  "allocator_stats (mark_reserved_frames a b s) = allocator_stats s"
  "next_search_index (mark_reserved_frames a b s) = next_search_index s"
  "allocator_initialized (mark_reserved_frames a b s) = allocator_initialized s"
  "contiguous_records (mark_reserved_frames a b s) = contiguous_records s"
  "next_contiguous_identifier (mark_reserved_frames a b s) = next_contiguous_identifier s"
  "allocator_stats (mark_available_frames a b s) = allocator_stats s"
  "next_search_index (mark_available_frames a b s) = next_search_index s"
  "allocator_initialized (mark_available_frames a b s) = allocator_initialized s"
  "contiguous_records (mark_available_frames a b s) = contiguous_records s"
  "next_contiguous_identifier (mark_available_frames a b s) = next_contiguous_identifier s"
  unfolding mark_reserved_frames_def mark_available_frames_def by (induction b) simp_all

lemma mark_reserved_frames_bits:
  "bitmap_get (eligible_bitmap (mark_reserved_frames a b s)) f
     \<longleftrightarrow> bitmap_get (eligible_bitmap s) f \<and> \<not> (a \<le> f \<and> f < b)"
  "bitmap_get (used_bitmap (mark_reserved_frames a b s)) f
     \<longleftrightarrow> bitmap_get (used_bitmap s) f \<or> (a \<le> f \<and> f < b)"
  unfolding mark_reserved_frames_def
  by (induction b) (auto simp: fold_upt_Suc le_Suc_eq)

lemma mark_available_frames_bits:
  "bitmap_get (eligible_bitmap (mark_available_frames a b s)) f
     \<longleftrightarrow> bitmap_get (eligible_bitmap s) f \<or> (a \<le> f \<and> f < b)"
  "bitmap_get (used_bitmap (mark_available_frames a b s)) f
     \<longleftrightarrow> bitmap_get (used_bitmap s) f \<and> \<not> (a \<le> f \<and> f < b)"
  unfolding mark_available_frames_def
  by (induction b) (auto simp: fold_upt_Suc le_Suc_eq)

lemma reserve_internal_OK:
  assumes "reserve_internal base len s = (FRAME_STATUS_OK, s')"
  shows "f < FRAME_COUNT \<Longrightarrow> bitmap_get (eligible_bitmap s') f
           \<longleftrightarrow> bitmap_get (eligible_bitmap s) f \<and> \<not> frame_touches f base len"
    and "f < FRAME_COUNT \<Longrightarrow> bitmap_get (used_bitmap s') f
           \<longleftrightarrow> bitmap_get (used_bitmap s) f \<or> frame_touches f base len"
    and "contiguous_records s' = contiguous_records s"
proof -
  obtain a b where c: "covering_frame_bounds base len = (FRAME_STATUS_OK, a, b)"
    and s': "s' = mark_reserved_frames a b s"
    using assms unfolding reserve_internal_def by (auto split: prod.splits if_split_asm)
  note bits = mark_reserved_frames_bits [of a b s f] covering_frame_bounds_OK(1) [OF c, of f]
  show "f < FRAME_COUNT \<Longrightarrow> bitmap_get (eligible_bitmap s') f
           \<longleftrightarrow> bitmap_get (eligible_bitmap s) f \<and> \<not> frame_touches f base len"
    "f < FRAME_COUNT \<Longrightarrow> bitmap_get (used_bitmap s') f
           \<longleftrightarrow> bitmap_get (used_bitmap s) f \<or> frame_touches f base len"
    "contiguous_records s' = contiguous_records s"
    unfolding s' using bits by simp_all
qed

subsection \<open>Reserving a range after initialisation\<close>

lemma recompute_stats_fields [simp]:
  "eligible_bitmap (recompute_stats s) = eligible_bitmap s"
  "used_bitmap (recompute_stats s) = used_bitmap s"
  "next_search_index (recompute_stats s) = next_search_index s"
  "allocator_initialized (recompute_stats s) = allocator_initialized s"
  "contiguous_records (recompute_stats s) = contiguous_records s"
  "next_contiguous_identifier (recompute_stats s) = next_contiguous_identifier s"
  by (simp_all add: recompute_stats_def)

lemma frame_set_cong:
  assumes "eligible_bitmap t = eligible_bitmap s" and "used_bitmap t = used_bitmap s"
  shows "eligible_frames t = eligible_frames s" "free_set t = free_set s"
    "allocated_set t = allocated_set s"
  using assms by (simp_all add: frame_set_defs)

lemma frame_reserve_range_OK:
  assumes inv: "frame_inv s" and call: "frame_reserve_range base len s = (FRAME_STATUS_OK, s')"
  shows "eligible_frames s' = {f \<in> eligible_frames s. \<not> frame_touches f base len}"
    and "free_set s' = {f \<in> free_set s. \<not> frame_touches f base len}"
    and "allocated_set s' = allocated_set s"
    and "\<forall>f \<in> allocated_set s. \<not> frame_touches f base len"
    and "frame_inv s'"
proof -
  obtain a b where c: "covering_frame_bounds base len = (FRAME_STATUS_OK, a, b)"
    and unused: "\<not> list_ex (\<lambda>f. bitmap_get (eligible_bitmap s) f \<and> bitmap_get (used_bitmap s) f) [a..<b]"
    and s': "s' = recompute_stats (mark_reserved_frames a b s)"
    using call unfolding frame_reserve_range_def by (auto split: prod.splits if_split_asm)
  note cov = covering_frame_bounds_OK [OF c]
  have idle: "\<not> (bitmap_get (eligible_bitmap s) f \<and> bitmap_get (used_bitmap s) f)"
    if "f < FRAME_COUNT" "frame_touches f base len" for f
    using unused cov(1) [of f] that unfolding list_ex_iff by auto
  have bits: "bitmap_get (eligible_bitmap s') f
           \<longleftrightarrow> bitmap_get (eligible_bitmap s) f \<and> \<not> frame_touches f base len"
    "bitmap_get (used_bitmap s') f \<longleftrightarrow> bitmap_get (used_bitmap s) f \<or> frame_touches f base len"
    if "f < FRAME_COUNT" for f
    using mark_reserved_frames_bits [of a b s f] cov(1) [of f] that unfolding s' by simp_all
  show sets: "eligible_frames s' = {f \<in> eligible_frames s. \<not> frame_touches f base len}"
    "free_set s' = {f \<in> free_set s. \<not> frame_touches f base len}"
    "allocated_set s' = allocated_set s"
    "\<forall>f \<in> allocated_set s. \<not> frame_touches f base len"
    using bits idle by (auto simp: frame_set_defs)
  have "allocator_stats s' = stats_of (mark_reserved_frames a b s)"
    unfolding s' recompute_stats_eq by simp
  then have "allocator_stats s' = stats_of s'"
    using stats_of_cong [OF frame_set_cong, of s' "mark_reserved_frames a b s"] unfolding s' by simp
  moreover have "next_search_index s' < FRAME_COUNT" "contiguous_records s' = contiguous_records s"
    using inv unfolding s' by (simp_all add: frame_inv_def)
  ultimately show "frame_inv s'" using inv sets(3) by (simp add: frame_inv_def)
qed

subsection \<open>The memory map\<close>

definition map_region :: "memory \<Rightarrow> boot_information \<Rightarrow> boot_memory_region \<Rightarrow> bool" where
  "map_region m ctx r \<longleftrightarrow> (\<exists>j < unat (memory_map_entry_count ctx). region_of m ctx (of_nat j) = Some r)"

definition region_available :: "boot_memory_region \<Rightarrow> bool" where
  "region_available r \<longleftrightarrow> region_type r = MULTIBOOT2_MEMORY_AVAILABLE"

lemma apply_region_available:
  assumes "apply_region True r s = (FRAME_STATUS_OK, s')" and "f < FRAME_COUNT"
  defines "P \<equiv> region_available r \<and> frame_inside f (region_base_address r) (region_length r)"
  shows "bitmap_get (eligible_bitmap s') f \<longleftrightarrow> bitmap_get (eligible_bitmap s) f \<or> P"
    and "bitmap_get (used_bitmap s') f \<longleftrightarrow> bitmap_get (used_bitmap s) f \<and> \<not> P"
    and "contiguous_records s' = contiguous_records s"
proof -
  have "(bitmap_get (eligible_bitmap s') f \<longleftrightarrow> bitmap_get (eligible_bitmap s) f \<or> P)
    \<and> (bitmap_get (used_bitmap s') f \<longleftrightarrow> bitmap_get (used_bitmap s) f \<and> \<not> P)
    \<and> contiguous_records s' = contiguous_records s"
  proof (cases "region_available r")
    case False
    then show ?thesis using assms(1) unfolding apply_region_def P_def region_available_def by auto
  next
    case True
    then obtain a b where b: "available_frame_bounds (region_base_address r) (region_length r)
         = (FRAME_STATUS_OK, a, b)" and s': "s' = mark_available_frames a b s"
      using assms(1) unfolding apply_region_def region_available_def
      by (auto split: prod.splits if_split_asm)
    then show ?thesis
      using True mark_available_frames_bits [of a b s f] available_frame_bounds_OK(1) [OF b, of f] assms(2)
      unfolding s' P_def by simp
  qed
  then show "bitmap_get (eligible_bitmap s') f \<longleftrightarrow> bitmap_get (eligible_bitmap s) f \<or> P"
    "bitmap_get (used_bitmap s') f \<longleftrightarrow> bitmap_get (used_bitmap s) f \<and> \<not> P"
    "contiguous_records s' = contiguous_records s" by blast+
qed

lemma covering_outside:
  assumes "covering_frame_bounds base len = (FRAME_STATUS_RANGE_OUTSIDE_LIMIT, a, b)" and "f < FRAME_COUNT"
  shows "\<not> frame_touches f base len"
proof -
  have "base \<ge> SAPOTE_EARLY_PHYSICAL_LIMIT"
    using assms(1) unfolding covering_frame_bounds_def Let_def by (auto split: option.splits if_split_asm)
  then show ?thesis using assms(2) by (auto simp: frame_touches_def word_le_nat_alt FRAME_COUNT_eq)
qed

lemma apply_region_reserved:
  assumes "apply_region False r s = (FRAME_STATUS_OK, s')" and "f < FRAME_COUNT"
  defines "P \<equiv> \<not> region_available r \<and> frame_touches f (region_base_address r) (region_length r)"
  shows "bitmap_get (eligible_bitmap s') f \<longleftrightarrow> bitmap_get (eligible_bitmap s) f \<and> \<not> P"
    and "bitmap_get (used_bitmap s') f \<longleftrightarrow> bitmap_get (used_bitmap s) f \<or> P"
    and "contiguous_records s' = contiguous_records s"
proof -
  have "(bitmap_get (eligible_bitmap s') f \<longleftrightarrow> bitmap_get (eligible_bitmap s) f \<and> \<not> P)
    \<and> (bitmap_get (used_bitmap s') f \<longleftrightarrow> bitmap_get (used_bitmap s) f \<or> P)
    \<and> contiguous_records s' = contiguous_records s"
  proof (cases "region_available r")
    case True
    then show ?thesis using assms(1) unfolding apply_region_def P_def region_available_def by auto
  next
    case False
    obtain st a b where b: "covering_frame_bounds (region_base_address r) (region_length r) = (st, a, b)"
      by (metis prod_cases3)
    then consider "st = FRAME_STATUS_RANGE_OUTSIDE_LIMIT" "s' = s"
      | "st = FRAME_STATUS_OK" "s' = mark_reserved_frames a b s"
      using False assms(1) unfolding apply_region_def region_available_def
      by (auto split: if_split_asm)
    then show ?thesis
    proof cases
      case 1
      then show ?thesis using covering_outside [OF b [unfolded 1(1)] assms(2)] by (simp add: P_def)
    next
      case 2
      then show ?thesis
        using False mark_reserved_frames_bits [of a b s f]
          covering_frame_bounds_OK(1) [OF b [unfolded 2(1)], of f] assms(2)
        unfolding 2(2) P_def by simp
    qed
  qed
  then show "bitmap_get (eligible_bitmap s') f \<longleftrightarrow> bitmap_get (eligible_bitmap s) f \<and> \<not> P"
    "bitmap_get (used_bitmap s') f \<longleftrightarrow> bitmap_get (used_bitmap s) f \<or> P"
    "contiguous_records s' = contiguous_records s" by blast+
qed

text \<open>The regions the loop has still to visit at \<open>index\<close>.\<close>

definition map_region_from :: "memory \<Rightarrow> boot_information \<Rightarrow> nat \<Rightarrow> boot_memory_region \<Rightarrow> bool" where
  "map_region_from m ctx i r \<longleftrightarrow>
     (\<exists>j. i \<le> j \<and> j < unat (memory_map_entry_count ctx) \<and> region_of m ctx (of_nat j) = Some r)"

lemma map_region_from_step:
  assumes "i < unat (memory_map_entry_count ctx)" and "region_of m ctx (of_nat i) = Some q"
  shows "map_region_from m ctx i r \<longleftrightarrow> r = q \<or> map_region_from m ctx (Suc i) r"
  using assms unfolding map_region_from_def
  by (metis Suc_leD Suc_leI le_neq_implies_less le_refl option.inject)

lemma map_region_from_end:
  "\<not> i < unat (memory_map_entry_count ctx) \<Longrightarrow> \<not> map_region_from m ctx i r"
  by (auto simp: map_region_from_def)

lemma apply_regions_step:
  assumes "apply_regions m ctx pass i s = (FRAME_STATUS_OK, s')"
    and "i < unat (memory_map_entry_count ctx)"
  obtains q t where "region_of m ctx (of_nat i) = Some q" "apply_region pass q s = (FRAME_STATUS_OK, t)"
    "apply_regions m ctx pass (Suc i) t = (FRAME_STATUS_OK, s')"
  using assms by (subst (asm) apply_regions.simps) (auto split: option.splits prod.splits if_split_asm)

lemma apply_regions_available:
  assumes "apply_regions m ctx True i s = (FRAME_STATUS_OK, s')" and "f < FRAME_COUNT"
  defines "P \<equiv> \<lambda>i. \<exists>r. map_region_from m ctx i r \<and> region_available r
             \<and> frame_inside f (region_base_address r) (region_length r)"
  shows "(bitmap_get (eligible_bitmap s') f \<longleftrightarrow> bitmap_get (eligible_bitmap s) f \<or> P i)
    \<and> (bitmap_get (used_bitmap s') f \<longleftrightarrow> bitmap_get (used_bitmap s) f \<and> \<not> P i)
    \<and> contiguous_records s' = contiguous_records s"
  using assms(1)
proof (induction "unat (memory_map_entry_count ctx) - i" arbitrary: i s)
  case 0
  then show ?case
    using map_region_from_end [of i ctx m] by (simp add: P_def apply_regions.simps [of m ctx True i s])
next
  case (Suc d)
  then have i: "i < unat (memory_map_entry_count ctx)" by simp
  from apply_regions_step [OF Suc.prems i] obtain q t where
    q: "region_of m ctx (of_nat i) = Some q" and t: "apply_region True q s = (FRAME_STATUS_OK, t)"
    and rest: "apply_regions m ctx True (Suc i) t = (FRAME_STATUS_OK, s')" by blast
  have d: "d = unat (memory_map_entry_count ctx) - Suc i" using Suc.hyps(2) by simp
  have "P i \<longleftrightarrow> region_available q \<and> frame_inside f (region_base_address q) (region_length q) \<or> P (Suc i)"
    unfolding P_def map_region_from_step [OF i q] by blast
  then show ?case
    using Suc.hyps(1) [OF d rest] apply_region_available [OF t assms(2)] by simp
qed

lemma apply_regions_reserved:
  assumes "apply_regions m ctx False i s = (FRAME_STATUS_OK, s')" and "f < FRAME_COUNT"
  defines "P \<equiv> \<lambda>i. \<exists>r. map_region_from m ctx i r \<and> \<not> region_available r
             \<and> frame_touches f (region_base_address r) (region_length r)"
  shows "(bitmap_get (eligible_bitmap s') f \<longleftrightarrow> bitmap_get (eligible_bitmap s) f \<and> \<not> P i)
    \<and> (bitmap_get (used_bitmap s') f \<longleftrightarrow> bitmap_get (used_bitmap s) f \<or> P i)
    \<and> contiguous_records s' = contiguous_records s"
  using assms(1)
proof (induction "unat (memory_map_entry_count ctx) - i" arbitrary: i s)
  case 0
  then show ?case
    using map_region_from_end [of i ctx m] by (simp add: P_def apply_regions.simps [of m ctx False i s])
next
  case (Suc d)
  then have i: "i < unat (memory_map_entry_count ctx)" by simp
  from apply_regions_step [OF Suc.prems i] obtain q t where
    q: "region_of m ctx (of_nat i) = Some q" and t: "apply_region False q s = (FRAME_STATUS_OK, t)"
    and rest: "apply_regions m ctx False (Suc i) t = (FRAME_STATUS_OK, s')" by blast
  have d: "d = unat (memory_map_entry_count ctx) - Suc i" using Suc.hyps(2) by simp
  have "P i \<longleftrightarrow> \<not> region_available q \<and> frame_touches f (region_base_address q) (region_length q) \<or> P (Suc i)"
    unfolding P_def map_region_from_step [OF i q] by blast
  then show ?case
    using Suc.hyps(1) [OF d rest] apply_region_reserved [OF t assms(2)] by auto
qed

lemma map_region_from_0: "map_region_from m ctx 0 = map_region m ctx"
  by (simp add: fun_eq_iff map_region_from_def map_region_def)

text \<open>The frames the allocator may hand out after initialisation.\<close>

definition allocatable :: "memory \<Rightarrow> u64 \<Rightarrow> u64 \<Rightarrow> boot_information \<Rightarrow> nat \<Rightarrow> bool" where
  "allocatable m kernel_start kernel_end ctx f \<longleftrightarrow>
     (\<exists>r. map_region m ctx r \<and> region_available r
        \<and> frame_inside f (region_base_address r) (region_length r))
     \<and> (\<forall>r. map_region m ctx r \<and> \<not> region_available r
          \<longrightarrow> \<not> frame_touches f (region_base_address r) (region_length r))
     \<and> \<not> frame_touches f 0 SAPOTE_LOW_MEMORY_RESERVATION
     \<and> \<not> frame_touches f kernel_start (kernel_end - kernel_start)
     \<and> \<not> frame_touches f (information_start ctx) (information_end ctx - information_start ctx)"

lemma apply_memory_map_OK:
  assumes "apply_memory_map m ctx s = (FRAME_STATUS_OK, s')" and "f < FRAME_COUNT"
    and "\<not> bitmap_get (eligible_bitmap s) f" and "bitmap_get (used_bitmap s) f"
  shows "bitmap_get (eligible_bitmap s') f \<longleftrightarrow>
     (\<exists>r. map_region m ctx r \<and> region_available r
        \<and> frame_inside f (region_base_address r) (region_length r))
     \<and> (\<forall>r. map_region m ctx r \<and> \<not> region_available r
          \<longrightarrow> \<not> frame_touches f (region_base_address r) (region_length r))" (is ?E)
    and "bitmap_get (used_bitmap s') f \<longleftrightarrow> \<not> bitmap_get (eligible_bitmap s') f" (is ?U)
    and "contiguous_records s' = contiguous_records s" (is ?R)
proof -
  obtain t where t: "apply_regions m ctx True 0 s = (FRAME_STATUS_OK, t)"
    "apply_regions m ctx False 0 t = (FRAME_STATUS_OK, s')"
    using assms(1) unfolding apply_memory_map_def by (auto split: prod.splits if_split_asm)
  note steps = apply_regions_available [OF t(1) assms(2)] apply_regions_reserved [OF t(2) assms(2)]
  show ?E ?U ?R
    using steps assms(3,4) unfolding map_region_from_0 by auto
qed

lemma frame_allocator_initialize_OK:
  assumes "frame_allocator_initialize m ks ke (Some ctx) s = (FRAME_STATUS_OK, s')"
  shows "eligible_frames s' = {f. f < FRAME_COUNT \<and> allocatable m ks ke ctx f}"
    and "allocated_set s' = {}" and "free_set s' \<noteq> {}" and "allocator_initialized s'"
    and "contiguous_records s' = replicate FRAME_CONTIGUOUS_ALLOCATION_CAPACITY inactive_record"
    and "frame_inv s'"
proof -
  let ?z = "s\<lparr>allocator_initialized := False, next_search_index := 0,
       next_contiguous_identifier := 1,
       eligible_bitmap := bitmap_fill (eligible_bitmap s) 0,
       used_bitmap := bitmap_fill (used_bitmap s) 0xFF,
       contiguous_records := replicate FRAME_CONTIGUOUS_ALLOCATION_CAPACITY inactive_record\<rparr>"
  obtain s1 s2 s3 s4 where
    1: "apply_memory_map m ctx ?z = (FRAME_STATUS_OK, s1)"
    and 2: "reserve_internal 0 SAPOTE_LOW_MEMORY_RESERVATION s1 = (FRAME_STATUS_OK, s2)"
    and 3: "reserve_internal ks (ke - ks) s2 = (FRAME_STATUS_OK, s3)"
    and 4: "reserve_internal (information_start ctx)
       (information_end ctx - information_start ctx) s3 = (FRAME_STATUS_OK, s4)"
    and nz: "free_frames (allocator_stats (recompute_stats s4)) \<noteq> 0"
    and s': "s' = (recompute_stats s4)\<lparr>next_search_index :=
         unat (SAPOTE_LOW_MEMORY_RESERVATION div SAPOTE_PAGE_SIZE), allocator_initialized := True\<rparr>"
    using assms unfolding frame_allocator_initialize_def Let_def
    by (auto split: prod.splits if_split_asm)
  have bits: "(bitmap_get (eligible_bitmap s') f \<longleftrightarrow> allocatable m ks ke ctx f)
      \<and> (bitmap_get (used_bitmap s') f \<longleftrightarrow> \<not> bitmap_get (eligible_bitmap s') f)"
    if f: "f < FRAME_COUNT" for f
    using apply_memory_map_OK [OF 1 f] f reserve_internal_OK(1,2) [OF 2, of f]
      reserve_internal_OK(1,2) [OF 3, of f] reserve_internal_OK(1,2) [OF 4, of f]
    unfolding s' allocatable_def by auto
  show "eligible_frames s' = {f. f < FRAME_COUNT \<and> allocatable m ks ke ctx f}"
    "allocated_set s' = {}"
    using bits by (auto simp: frame_set_defs)
  show "allocator_initialized s'" by (simp add: s')
  have st: "allocator_stats s' = stats_of s'"
    using stats_of_cong [OF frame_set_cong, of s' s4] unfolding s' recompute_stats_eq by simp
  show "free_set s' \<noteq> {}"
    using free_frames_zero_iff [OF st] nz by (simp add: s')
  show rs: "contiguous_records s' = replicate FRAME_CONTIGUOUS_ALLOCATION_CAPACITY inactive_record"
    using apply_memory_map_OK(3) [OF 1, of 0] reserve_internal_OK(3) [OF 2]
      reserve_internal_OK(3) [OF 3] reserve_internal_OK(3) [OF 4] unfolding s'
    by (simp add: FRAME_COUNT_eq)
  have "records_ok (contiguous_records s') (allocated_set s')"
    unfolding rs by (simp add: records_ok_def inactive_record_def)
  moreover have "next_search_index s' < FRAME_COUNT" by (simp add: s' FRAME_COUNT_eq)
  ultimately show "frame_inv s'" using st by (simp add: frame_inv_def)
qed

subsection \<open>Runs of the allocator\<close>

text \<open>
  The states the allocator passes through: a successful initialisation, then any sequence of calls
  of the interface with any arguments.
\<close>

inductive frame_run :: "memory \<Rightarrow> u64 \<Rightarrow> u64 \<Rightarrow> boot_information \<Rightarrow> frame_state \<Rightarrow> bool"
  for m kernel_start kernel_end ctx where
  start: "frame_allocator_initialize m kernel_start kernel_end (Some ctx) s = (FRAME_STATUS_OK, s')
    \<Longrightarrow> frame_run m kernel_start kernel_end ctx s'"
| allocate: "frame_run m kernel_start kernel_end ctx s
    \<Longrightarrow> frame_run m kernel_start kernel_end ctx (snd (snd (frame_allocate p s)))"
| release: "frame_run m kernel_start kernel_end ctx s
    \<Longrightarrow> frame_run m kernel_start kernel_end ctx (snd (frame_release a s))"
| allocate_contiguous: "frame_run m kernel_start kernel_end ctx s
    \<Longrightarrow> frame_run m kernel_start kernel_end ctx (snd (snd (frame_allocate_contiguous request h s)))"
| release_contiguous: "frame_run m kernel_start kernel_end ctx s
    \<Longrightarrow> frame_run m kernel_start kernel_end ctx (snd (snd (frame_release_contiguous h s)))"
| reserve: "frame_run m kernel_start kernel_end ctx s
    \<Longrightarrow> frame_run m kernel_start kernel_end ctx (snd (frame_reserve_range base len s))"

lemma frame_allocate_eligible [simp]:
  "eligible_bitmap (snd (snd (frame_allocate p s))) = eligible_bitmap s"
  "allocator_initialized (snd (snd (frame_allocate p s))) = allocator_initialized s"
  unfolding frame_allocate_def Let_def by (simp_all split: option.split)

lemma frame_release_eligible [simp]:
  "eligible_bitmap (snd (frame_release a s)) = eligible_bitmap s"
  "allocator_initialized (snd (frame_release a s)) = allocator_initialized s"
  unfolding frame_release_def Let_def by simp_all

lemma frame_allocate_contiguous_eligible [simp]:
  "eligible_bitmap (snd (snd (frame_allocate_contiguous rp h s))) = eligible_bitmap s"
  "allocator_initialized (snd (snd (frame_allocate_contiguous rp h s))) = allocator_initialized s"
  unfolding frame_allocate_contiguous_def contiguous_commit_def Let_def
  by (simp_all split: option.split prod.split)

lemma frame_release_contiguous_eligible [simp]:
  "eligible_bitmap (snd (snd (frame_release_contiguous h s))) = eligible_bitmap s"
  "allocator_initialized (snd (snd (frame_release_contiguous h s))) = allocator_initialized s"
  unfolding frame_release_contiguous_def Let_def by (simp_all split: option.split)

lemma frame_reserve_range_cases:
  assumes "frame_inv s"
  shows "frame_inv (snd (frame_reserve_range base len s))"
    and "eligible_frames (snd (frame_reserve_range base len s)) \<subseteq> eligible_frames s"
    and "allocator_initialized (snd (frame_reserve_range base len s)) = allocator_initialized s"
proof -
  let ?r = "frame_reserve_range base len s"
  have init: "allocator_initialized (snd ?r) = allocator_initialized s"
    and err: "fst ?r \<noteq> FRAME_STATUS_OK \<Longrightarrow> snd ?r = s"
    unfolding frame_reserve_range_def by (auto split: prod.split)
  show "allocator_initialized (snd ?r) = allocator_initialized s" by (rule init)
  have "frame_inv (snd ?r) \<and> eligible_frames (snd ?r) \<subseteq> eligible_frames s"
  proof (cases "fst ?r = FRAME_STATUS_OK")
    case True
    then have "?r = (FRAME_STATUS_OK, snd ?r)" by (cases ?r) simp
    from frame_reserve_range_OK(1,5) [OF assms this] show ?thesis by auto
  next
    case False
    then show ?thesis using err assms by simp
  qed
  then show "frame_inv (snd ?r)" "eligible_frames (snd ?r) \<subseteq> eligible_frames s" by blast+
qed

lemma frame_run_inv:
  assumes "frame_run m ks ke ctx s"
  shows "frame_inv s \<and> allocator_initialized s
     \<and> (\<forall>f \<in> eligible_frames s. allocatable m ks ke ctx f)"
  using assms
proof induction
  case (start s s')
  then show ?case
    using frame_allocator_initialize_OK [OF start] by simp
next
  case (reserve s base len)
  then show ?case using frame_reserve_range_cases [of s base len] by auto
qed (auto simp: frame_allocate_inv frame_release_inv frame_contiguous_inv frame_set_defs)

subsection \<open>A pool of resources\<close>

text \<open>
  The contract the page tables and the heap rely on when they take frames one at a time and give
  them back: a grant comes out of the free set, a refusal means it is empty, and whatever was taken
  through the interface can be returned.
\<close>

locale resource_source =
  fixes pool_inv :: "'s \<Rightarrow> bool"
    and pool_free :: "'s \<Rightarrow> 'a set"
    and pool_taken :: "'s \<Rightarrow> 'a set"
    and pool_take :: "'s \<Rightarrow> ('a \<times> 's) option"
  assumes finite_taken: "pool_inv s \<Longrightarrow> finite (pool_taken s)"
    and disjoint: "pool_inv s \<Longrightarrow> pool_free s \<inter> pool_taken s = {}"
    and take_Some: "pool_inv s \<Longrightarrow> pool_take s = Some (a, s') \<Longrightarrow> a \<in> pool_free s
        \<and> pool_free s' = pool_free s - {a} \<and> pool_taken s' = insert a (pool_taken s) \<and> pool_inv s'"
    and take_None: "pool_inv s \<Longrightarrow> pool_take s = None \<Longrightarrow> pool_free s = {}"
begin

lemma take_fresh:
  assumes "pool_inv s" and "pool_take s = Some (a, s')"
  shows "a \<notin> pool_taken s" and "pool_taken s \<subseteq> pool_taken s'"
  using take_Some [OF assms] disjoint [OF assms(1)] by blast+

lemma take_iff: "pool_inv s \<Longrightarrow> pool_take s = None \<longleftrightarrow> pool_free s = {}"
  using take_None by (cases "pool_take s") (auto dest: take_Some)

end

locale resource_pool = resource_source pool_inv pool_free pool_taken pool_take
  for pool_inv :: "'s \<Rightarrow> bool"
    and pool_free :: "'s \<Rightarrow> 'a set"
    and pool_taken :: "'s \<Rightarrow> 'a set"
    and pool_take :: "'s \<Rightarrow> ('a \<times> 's) option" +
  fixes pool_give :: "'a \<Rightarrow> 's \<Rightarrow> 's option"
  assumes give_taken: "pool_inv s \<Longrightarrow> a \<in> pool_taken s \<Longrightarrow> \<exists>s'. pool_give a s = Some s'
        \<and> pool_free s' = insert a (pool_free s) \<and> pool_taken s' = pool_taken s - {a} \<and> pool_inv s'"
begin

lemma take_give:
  assumes "pool_inv s" and "pool_take s = Some (a, s')"
  shows "\<exists>s''. pool_give a s' = Some s'' \<and> pool_free s'' = pool_free s
      \<and> pool_taken s'' = pool_taken s \<and> pool_inv s''"
proof -
  note t = take_Some [OF assms]
  have "pool_inv s'" "a \<in> pool_taken s'" using t by blast+
  from give_taken [OF this] t take_fresh(1) [OF assms] show ?thesis by (auto simp: insert_absorb)
qed

end

text \<open>
  The single-frame interface of the allocator is such a pool, over physical addresses. The frames
  taken through it are the allocated ones that belong to no contiguous allocation.
\<close>

definition single_set :: "frame_state \<Rightarrow> nat set" where
  "single_set s = {f \<in> allocated_set s. \<not> frame_in_contiguous_allocation s f}"

definition frame_addresses :: "nat set \<Rightarrow> u64 set" where
  "frame_addresses F = (\<lambda>f. of_nat f * SAPOTE_PAGE_SIZE) ` F"

definition frame_take :: "frame_state \<Rightarrow> (u64 \<times> frame_state) option" where
  "frame_take s = (case frame_allocate (Some 0) s of
     (FRAME_STATUS_OK, Some a, s') \<Rightarrow> Some (a, s') | _ \<Rightarrow> None)"

definition frame_give :: "u64 \<Rightarrow> frame_state \<Rightarrow> frame_state option" where
  "frame_give a s = (case frame_release a s of (FRAME_STATUS_OK, s') \<Rightarrow> Some s' | _ \<Rightarrow> None)"

definition frame_pool_inv :: "frame_state \<Rightarrow> bool" where
  "frame_pool_inv s \<longleftrightarrow> frame_inv s \<and> allocator_initialized s"

lemma frame_address_inj: "inj_on (\<lambda>f. of_nat f * SAPOTE_PAGE_SIZE :: u64) {f. f < FRAME_COUNT}"
  using frame_address(4) by (intro inj_on_inverseI [where g = "\<lambda>a. unat (a div SAPOTE_PAGE_SIZE)"]) simp

lemma frame_set_bounds: "free_set s \<subseteq> {f. f < FRAME_COUNT}" "allocated_set s \<subseteq> {f. f < FRAME_COUNT}"
  by (auto simp: frame_set_defs)

lemma frame_addresses_insert:
  "frame_addresses (insert f F) = insert (of_nat f * SAPOTE_PAGE_SIZE) (frame_addresses F)"
  and frame_addresses_member: "f \<in> F \<Longrightarrow> of_nat f * SAPOTE_PAGE_SIZE \<in> frame_addresses F"
  by (auto simp: frame_addresses_def)

lemma frame_addresses_Diff:
  assumes "f \<in> F" and "F \<subseteq> {f. f < FRAME_COUNT}"
  shows "frame_addresses (F - {f}) = frame_addresses F - {of_nat f * SAPOTE_PAGE_SIZE}"
  unfolding frame_addresses_def
  using inj_on_image_set_diff [OF frame_address_inj, of F "{f}"] assms by auto

lemma not_contiguous:
  assumes "frame_inv s" and "contiguous_records t = contiguous_records s" and "f \<notin> allocated_set s"
  shows "\<not> frame_in_contiguous_allocation t f"
  using assms records_okD [of "contiguous_records s" "allocated_set s"]
  unfolding frame_in_contiguous_iff frame_inv_def by auto

lemma frame_in_contiguous_cong:
  "contiguous_records t = contiguous_records s
   \<Longrightarrow> frame_in_contiguous_allocation t f = frame_in_contiguous_allocation s f"
  by (simp add: frame_in_contiguous_allocation_def)

lemma frame_take_OK:
  assumes "frame_pool_inv s" and "frame_take s = Some (a, s')"
  shows "\<exists>f. a = of_nat f * SAPOTE_PAGE_SIZE \<and> f \<in> free_set s \<and> free_set s' = free_set s - {f}
      \<and> allocated_set s' = insert f (allocated_set s) \<and> single_set s' = insert f (single_set s)
      \<and> contiguous_records s' = contiguous_records s \<and> eligible_frames s' = eligible_frames s
      \<and> frame_pool_inv s'"
proof -
  have i: "frame_inv s" "allocator_initialized s" using assms(1) by (simp_all add: frame_pool_inv_def)
  have "free_set s \<noteq> {}"
    using assms(2) frame_allocate_cases(1) [OF i, of 0] by (auto simp: frame_take_def)
  from frame_allocate_cases(2) [OF i this, of 0] assms(2) obtain f where
    f: "a = of_nat f * SAPOTE_PAGE_SIZE" "f \<in> free_set s" "free_set s' = free_set s - {f}"
      "allocated_set s' = insert f (allocated_set s)" "contiguous_records s' = contiguous_records s"
      "eligible_frames s' = eligible_frames s" "frame_pool_inv s'"
    by (auto simp: frame_take_def frame_pool_inv_def)
  have "f \<notin> allocated_set s" using f(2) by (simp add: frame_set_defs)
  then have "\<not> frame_in_contiguous_allocation s f" by (intro not_contiguous [OF i(1) refl])
  then have "single_set s' = insert f (single_set s)"
    unfolding single_set_def f(4) frame_in_contiguous_cong [OF f(5)] by blast
  then show ?thesis using f by blast
qed

lemma frame_give_OK:
  assumes "frame_pool_inv s" and "f \<in> single_set s"
  shows "\<exists>s'. frame_give (of_nat f * SAPOTE_PAGE_SIZE) s = Some s' \<and> free_set s' = insert f (free_set s)
      \<and> allocated_set s' = allocated_set s - {f} \<and> single_set s' = single_set s - {f}
      \<and> contiguous_records s' = contiguous_records s \<and> eligible_frames s' = eligible_frames s
      \<and> frame_pool_inv s'"
proof -
  have i: "frame_inv s" "allocator_initialized s" using assms(1) by (simp_all add: frame_pool_inv_def)
  have f: "f \<in> allocated_set s" "\<not> frame_in_contiguous_allocation s f" "f < FRAME_COUNT"
    using assms(2) by (auto simp: single_set_def frame_set_defs)
  from frame_release_cases(4) [OF i f(3,1,2)] obtain s' where
    s': "frame_release (of_nat f * SAPOTE_PAGE_SIZE) s = (FRAME_STATUS_OK, s')"
      "eligible_frames s' = eligible_frames s" "free_set s' = insert f (free_set s)"
      "allocated_set s' = allocated_set s - {f}" "contiguous_records s' = contiguous_records s"
      "frame_pool_inv s'" by (auto simp: frame_pool_inv_def)
  have "single_set s' = single_set s - {f}"
    unfolding single_set_def s'(4) frame_in_contiguous_cong [OF s'(5)] by blast
  then show ?thesis using s' by (auto simp: frame_give_def)
qed

interpretation frames: resource_pool frame_pool_inv "\<lambda>s. frame_addresses (free_set s)"
  "\<lambda>s. frame_addresses (single_set s)" frame_take frame_give
proof
  fix s a s' assume inv: "frame_pool_inv s"
  then have i: "frame_inv s" "allocator_initialized s" by (simp_all add: frame_pool_inv_def)
  have sub: "single_set s \<subseteq> allocated_set s" for s by (auto simp: single_set_def)
  then show "finite (frame_addresses (single_set s))"
    by (auto simp: frame_addresses_def intro: finite_subset)
  have "free_set s \<inter> single_set s = {}" using eligible_split(2) [of s] sub [of s] by blast
  then show "frame_addresses (free_set s) \<inter> frame_addresses (single_set s) = {}"
    using inj_on_image_Int [OF frame_address_inj frame_set_bounds(1) order_trans [OF sub frame_set_bounds(2)], of s s]
    by (simp add: frame_addresses_def)
  show "frame_addresses (free_set s) = {}" if "frame_take s = None"
  proof (rule ccontr)
    assume "\<not> ?thesis"
    then have "free_set s \<noteq> {}" by (auto simp: frame_addresses_def)
    from frame_allocate_cases(2) [OF i this, of 0] that show False by (auto simp: frame_take_def)
  qed
  show "a \<in> frame_addresses (free_set s)
      \<and> frame_addresses (free_set s') = frame_addresses (free_set s) - {a}
      \<and> frame_addresses (single_set s') = insert a (frame_addresses (single_set s))
      \<and> frame_pool_inv s'" if "frame_take s = Some (a, s')"
  proof -
    from frame_take_OK [OF inv that] obtain f where f: "a = of_nat f * SAPOTE_PAGE_SIZE" "f \<in> free_set s"
      "free_set s' = free_set s - {f}" "single_set s' = insert f (single_set s)"
      "frame_pool_inv s'" by blast
    show ?thesis
      using f(2,5) frame_addresses_Diff [OF f(2) frame_set_bounds(1)]
        frame_addresses_member [OF f(2)] unfolding f(1,3,4)
      by (simp add: frame_addresses_insert)
  qed
  show "\<exists>s'. frame_give a s = Some s'
      \<and> frame_addresses (free_set s') = insert a (frame_addresses (free_set s))
      \<and> frame_addresses (single_set s') = frame_addresses (single_set s) - {a}
      \<and> frame_pool_inv s'" if "a \<in> frame_addresses (single_set s)"
  proof -
    from that obtain f where a: "a = of_nat f * SAPOTE_PAGE_SIZE" and f: "f \<in> single_set s"
      by (auto simp: frame_addresses_def)
    from frame_give_OK [OF inv f] obtain t where t: "frame_give a s = Some t"
      "free_set t = insert f (free_set s)" "single_set t = single_set s - {f}" "frame_pool_inv t"
      unfolding a by blast
    have "frame_addresses (single_set t) = frame_addresses (single_set s) - {a}"
      unfolding t(3) a by (rule frame_addresses_Diff [OF f order_trans [OF sub frame_set_bounds(2)]])
    then show ?thesis using t by (auto simp: frame_addresses_insert a)
  qed
qed

subsection \<open>A sample machine\<close>

text \<open>
  The context the parser builds from the sample information block, and the allocator set up on it
  with a kernel image at 2 MiB.
\<close>

definition sample_context :: boot_information where
  "sample_context = blank_information\<lparr>information_start := 0x10000, information_end := 0x10078,
     memory_map := Some 0x10008, memory_map_entry_count := 2\<rparr>"

definition sample_memory :: memory where
  "sample_memory = image_at 0x10000 sample_information"

definition blank_frames :: frame_state where
  "blank_frames = \<lparr>eligible_bitmap = (\<lambda>_. 0), used_bitmap = (\<lambda>_. 0),
     allocator_stats = \<lparr>addressable_frames = 0, allocatable_frames = 0, free_frames = 0,
       allocated_frames = 0, reserved_frames = 0, highest_allocatable_address = 0\<rparr>,
     next_search_index = 0, allocator_initialized = False,
     contiguous_records = replicate FRAME_CONTIGUOUS_ALLOCATION_CAPACITY inactive_record,
     next_contiguous_identifier = 0\<rparr>"

definition sample_frames :: frame_state where
  "sample_frames = snd (frame_allocator_initialize sample_memory 0x200000 0x300000
     (Some sample_context) blank_frames)"

lemma sample_context_fields:
  "memory_map sample_context = Some 0x10008" "information_start sample_context = 0x10000"
  "information_end sample_context = 0x10078"
  by (simp_all add: sample_context_def)

lemma sample_regions:
  "region_of sample_memory sample_context (of_nat 0)
     = Some \<lparr>region_base_address = 0, region_length = 0x9FC00, region_type = 1\<rparr>"
  "region_of sample_memory sample_context (of_nat (Suc 0))
     = Some \<lparr>region_base_address = 0x100000, region_length = 0x7F00000, region_type = 1\<rparr>"
  "unat (memory_map_entry_count sample_context) = 2"
  by code_simp+

lemma sample_bounds:
  "available_frame_bounds 0 0x9FC00 = (FRAME_STATUS_OK, 0, 159)"
  "available_frame_bounds 0x100000 0x7F00000 = (FRAME_STATUS_OK, 256, 32768)"
  "covering_frame_bounds 0 0x100000 = (FRAME_STATUS_OK, 0, 256)"
  "covering_frame_bounds 0x200000 0x100000 = (FRAME_STATUS_OK, 512, 768)"
  "covering_frame_bounds 0x10000 0x78 = (FRAME_STATUS_OK, 16, 17)"
  unfolding available_frame_bounds_def covering_frame_bounds_def checked_range_end_def Let_def
  by simp_all

lemma sample_map:
  "apply_memory_map sample_memory sample_context s
     = (FRAME_STATUS_OK, mark_available_frames 256 32768 (mark_available_frames 0 159 s))"
proof -
  let ?r = "\<lambda>p i s. apply_regions sample_memory sample_context p i s"
  note step = apply_regions.simps [of sample_memory sample_context]
  have "?r p (Suc (Suc 0)) s = (FRAME_STATUS_OK, s)" for p s
    by (simp add: step [of _ "Suc (Suc 0)"] sample_regions(3))
  then have "?r False 0 s = (FRAME_STATUS_OK, s)"
    "?r True 0 s = (FRAME_STATUS_OK, mark_available_frames 256 32768 (mark_available_frames 0 159 s))" for s
    by (simp_all add: step [of _ 0] step [of _ "Suc 0"] sample_regions(3)
        sample_regions(1,2) [simplified] apply_region_def
        MULTIBOOT2_MEMORY_AVAILABLE_def sample_bounds)
  then show ?thesis by (simp add: apply_memory_map_def)
qed

lemma sample_frames_OK:
  "frame_allocator_initialize sample_memory 0x200000 0x300000 (Some sample_context) blank_frames
     = (FRAME_STATUS_OK, sample_frames)"
proof -
  let ?call = "frame_allocator_initialize sample_memory 0x200000 0x300000 (Some sample_context) blank_frames"
  let ?z = "blank_frames\<lparr>allocator_initialized := False, next_search_index := 0,
       next_contiguous_identifier := 1,
       eligible_bitmap := bitmap_fill (eligible_bitmap blank_frames) 0,
       used_bitmap := bitmap_fill (used_bitmap blank_frames) 0xFF,
       contiguous_records := replicate FRAME_CONTIGUOUS_ALLOCATION_CAPACITY inactive_record\<rparr>"
  let ?s = "mark_reserved_frames 16 17 (mark_reserved_frames 512 768 (mark_reserved_frames 0 256
       (mark_available_frames 256 32768 (mark_available_frames 0 159 ?z))))"
  have "2048 \<in> free_set ?s"
    by (simp add: free_set_def mark_reserved_frames_bits mark_available_frames_bits FRAME_COUNT_eq)
  then have "free_frames (allocator_stats (recompute_stats ?s)) \<noteq> 0"
    using free_frames_zero_iff [of "recompute_stats ?s"] frame_set_cong [of "recompute_stats ?s" ?s]
      stats_of_cong [of "recompute_stats ?s" ?s]
    by (simp add: recompute_stats_eq) blast
  then have "fst ?call = FRAME_STATUS_OK"
    unfolding frame_allocator_initialize_def Let_def reserve_internal_def
    by (simp add: sample_map sample_bounds sample_context_fields)
  then show ?thesis unfolding sample_frames_def by (cases ?call) simp
qed

lemmas sample_frames_facts = frame_allocator_initialize_OK [OF sample_frames_OK]

lemma sample_eligible: "f < FRAME_COUNT \<Longrightarrow> f \<in> free_set sample_frames \<longleftrightarrow>
    256 \<le> f \<and> f < 32768 \<and> \<not> (512 \<le> f \<and> f < 768)"
proof -
  assume f: "f < FRAME_COUNT"
  have "f \<in> free_set sample_frames \<longleftrightarrow> f \<in> eligible_frames sample_frames"
    using sample_frames_facts(2) by (auto simp: frame_set_defs)
  also have "\<dots> \<longleftrightarrow> allocatable sample_memory 0x200000 0x300000 sample_context f"
    using f unfolding sample_frames_facts(1) by simp
  also have "\<dots> \<longleftrightarrow> 256 \<le> f \<and> f < 32768 \<and> \<not> (512 \<le> f \<and> f < 768)"
  proof -
    have r: "map_region sample_memory sample_context r \<longleftrightarrow>
        r = \<lparr>region_base_address = 0, region_length = 0x9FC00, region_type = 1\<rparr>
        \<or> r = \<lparr>region_base_address = 0x100000, region_length = 0x7F00000, region_type = 1\<rparr>" for r
      unfolding map_region_def sample_regions(3) using sample_regions(1,2)
      by (auto simp: less_2_cases_iff numeral_2_eq_2 less_Suc_eq)
    have "frame_inside f 0 0x9FC00 \<longleftrightarrow> f < 159" "frame_inside f 0x100000 0x7F00000 \<longleftrightarrow> 256 \<le> f \<and> f < 32768"
      "frame_touches f 0 0x100000 \<longleftrightarrow> f < 256" "frame_touches f 0x200000 0x100000 \<longleftrightarrow> 512 \<le> f \<and> f < 768"
      "frame_touches f 0x10000 0x78 \<longleftrightarrow> f = 16"
      unfolding frame_inside_def frame_touches_def by (simp; linarith)+
    moreover let ?A = "\<lparr>region_base_address = 0, region_length = 0x9FC00, region_type = 1\<rparr>"
      and ?B = "\<lparr>region_base_address = 0x100000, region_length = 0x7F00000, region_type = 1\<rparr>"
    have "(\<exists>r. map_region sample_memory sample_context r \<and> P r) \<longleftrightarrow> P ?A \<or> P ?B"
      "(\<forall>r. map_region sample_memory sample_context r \<and> P r \<longrightarrow> Q r)
         \<longleftrightarrow> (P ?A \<longrightarrow> Q ?A) \<and> (P ?B \<longrightarrow> Q ?B)" for P Q
      unfolding r by blast+
    ultimately show ?thesis
      unfolding allocatable_def sample_context_fields
      by (simp add: region_available_def MULTIBOOT2_MEMORY_AVAILABLE_def) linarith
  qed
  finally show ?thesis .
qed

subsection \<open>Properties\<close>

text \<open>
  C21. After a successful initialisation the eligible frames are exactly the frames below 4 GiB that
  lie wholly inside an available region of the memory map and share no byte with a region of any
  other type, the first mebibyte, the kernel image or the boot information; none of them is
  allocated, at least one is free and the invariant of the allocator holds.
\<close>

theorem frame_allocator_initialize_exact:
  assumes "frame_allocator_initialize m kernel_start kernel_end (Some ctx) s = (FRAME_STATUS_OK, s')"
  shows "eligible_frames s' = {f. f < FRAME_COUNT \<and> allocatable m kernel_start kernel_end ctx f}
     \<and> allocated_set s' = {} \<and> free_set s' \<noteq> {} \<and> allocator_initialized s' \<and> frame_inv s'"
  using frame_allocator_initialize_OK [OF assms] by blast

theorem frame_allocator_initialize_exact_witness:
  "frame_allocator_initialize sample_memory 0x200000 0x300000 (Some sample_context) blank_frames
     = (FRAME_STATUS_OK, sample_frames)
   \<and> eligible_frames sample_frames
     = {f. f < FRAME_COUNT \<and> allocatable sample_memory 0x200000 0x300000 sample_context f}"
  using sample_frames_OK frame_allocator_initialize_exact [OF sample_frames_OK] by blast

text \<open>
  C20. In every state the allocator can reach from a successful initialisation by any sequence of
  calls, a frame that \<open>frame_allocate\<close> hands out is page aligned memory the boot map declares
  available and nothing reserves, it was not allocated before the call, and it is the only frame
  whose state changes.
\<close>

theorem frame_allocate_safe:
  assumes "frame_run m kernel_start kernel_end ctx s"
    and "frame_allocate (Some old) s = (FRAME_STATUS_OK, Some a, s')"
  shows "\<exists>f < FRAME_COUNT. a = of_nat f * SAPOTE_PAGE_SIZE \<and> unat a = f * 4096
     \<and> allocatable m kernel_start kernel_end ctx f
     \<and> f \<in> free_set s \<and> f \<notin> allocated_set s
     \<and> free_set s' = free_set s - {f} \<and> allocated_set s' = insert f (allocated_set s)"
proof -
  have inv: "frame_inv s" "allocator_initialized s" "\<forall>f \<in> eligible_frames s. allocatable m kernel_start kernel_end ctx f"
    using frame_run_inv [OF assms(1)] by blast+
  have "free_set s \<noteq> {}" using frame_allocate_cases(1) [OF inv(1,2), of old] assms(2) by auto
  from frame_allocate_cases(2) [OF inv(1,2) this, of old] assms(2) obtain f where
    f: "a = of_nat f * SAPOTE_PAGE_SIZE" "f \<in> free_set s" "free_set s' = free_set s - {f}"
      "allocated_set s' = insert f (allocated_set s)" by auto
  have "f < FRAME_COUNT" "f \<in> eligible_frames s" "f \<notin> allocated_set s"
    using f(2) by (auto simp: frame_set_defs)
  then show ?thesis using f inv(3) frame_address(1) [of f] by blast
qed

lemma sample_run: "frame_run sample_memory 0x200000 0x300000 sample_context sample_frames"
  by (rule frame_run.start [OF sample_frames_OK])

lemma sample_allocate:
  obtains a s' where "frame_allocate (Some 0) sample_frames = (FRAME_STATUS_OK, Some a, s')"
  using frame_allocate_cases(2) [OF sample_frames_facts(6,4,3), of 0] by blast

theorem frame_allocate_safe_witness:
  "\<exists>a s' f. frame_allocate (Some 0) sample_frames = (FRAME_STATUS_OK, Some a, s')
     \<and> unat a = f * 4096 \<and> allocatable sample_memory 0x200000 0x300000 sample_context f"
proof -
  obtain a s' where *: "frame_allocate (Some 0) sample_frames = (FRAME_STATUS_OK, Some a, s')"
    by (rule sample_allocate)
  from frame_allocate_safe [OF sample_run *] show ?thesis using * by blast
qed

text \<open>
  C29. In every reachable state the statistics of the allocator are exact: the counters are the
  numbers of eligible, free and allocated frames, and every eligible frame is either free or
  allocated; \<open>frame_allocate\<close> refuses only when no frame is free.
\<close>

theorem frame_statistics_exact:
  assumes "frame_run m kernel_start kernel_end ctx s"
  shows "unat (free_frames (frame_allocator_get_stats s)) = card (free_set s)
     \<and> unat (allocated_frames (frame_allocator_get_stats s)) = card (allocated_set s)
     \<and> unat (allocatable_frames (frame_allocator_get_stats s)) = card (free_set s) + card (allocated_set s)
     \<and> unat (reserved_frames (frame_allocator_get_stats s))
         = FRAME_COUNT - (card (free_set s) + card (allocated_set s))
     \<and> (fst (frame_allocate (Some old) s) = FRAME_STATUS_OUT_OF_MEMORY \<longleftrightarrow> free_set s = {})"
proof -
  have inv: "frame_inv s" "allocator_initialized s" using frame_run_inv [OF assms] by blast+
  have st: "allocator_stats s = stats_of s" using inv(1) by (simp add: frame_inv_def)
  have el: "card (eligible_frames s) = card (free_set s) + card (allocated_set s)"
    using eligible_split [of s] by (metis card_Un_disjoint finite_frame_sets(2,3))
  have le: "card (eligible_frames s) \<le> FRAME_COUNT" by (rule card_frame_sets_le)
  have small: "k \<le> FRAME_COUNT \<Longrightarrow> unat (of_nat k :: u64) = k" for k
    by (rule unat_of_nat_small) (simp add: FRAME_COUNT_eq)
  have oom: "fst (frame_allocate (Some old) s) = FRAME_STATUS_OUT_OF_MEMORY \<longleftrightarrow> free_set s = {}"
    using frame_allocate_cases [OF inv, of old] by (cases "free_set s = {}") auto
  show ?thesis
    using el le oom unfolding frame_allocator_get_stats_def st stats_of_def
    by (simp add: small del: of_nat_add of_nat_diff)
qed

theorem frame_statistics_exact_witness:
  "unat (free_frames (frame_allocator_get_stats sample_frames)) = card (free_set sample_frames)"
  using frame_statistics_exact [OF sample_run] by blast

text \<open>
  C28. A frame obtained from \<open>frame_allocate\<close> can be returned: the release succeeds and restores
  the free and the allocated frames of before the allocation, and a second release of the same
  address is refused as a double free without changing anything.
\<close>

theorem frame_allocate_release:
  assumes "frame_run m kernel_start kernel_end ctx s"
    and "frame_allocate (Some old) s = (FRAME_STATUS_OK, Some a, s1)"
  shows "\<exists>s2. frame_release a s1 = (FRAME_STATUS_OK, s2) \<and> free_set s2 = free_set s
     \<and> allocated_set s2 = allocated_set s \<and> frame_inv s2
     \<and> frame_release a s2 = (FRAME_STATUS_DOUBLE_FREE, s2)"
proof -
  have inv: "frame_inv s" "allocator_initialized s" using frame_run_inv [OF assms(1)] by blast+
  have "free_set s \<noteq> {}" using frame_allocate_cases(1) [OF inv, of old] assms(2) by auto
  from frame_allocate_cases(2) [OF inv this, of old] assms(2) obtain f where
    f: "a = of_nat f * SAPOTE_PAGE_SIZE" "f \<in> free_set s" "free_set s1 = free_set s - {f}"
      "allocated_set s1 = insert f (allocated_set s)" "contiguous_records s1 = contiguous_records s"
      "allocator_initialized s1" "frame_inv s1" by auto
  have na: "f \<notin> allocated_set s" and lt: "f < FRAME_COUNT" using f(2) by (auto simp: frame_set_defs)
  from frame_release_cases(4) [OF f(7,6) lt] not_contiguous [OF inv(1) f(5) na] f(1,4) obtain s2 where
    s2: "frame_release a s1 = (FRAME_STATUS_OK, s2)" "free_set s2 = insert f (free_set s1)"
      "allocated_set s2 = allocated_set s1 - {f}" "allocator_initialized s2" "frame_inv s2" by auto
  have "frame_release a s2 = (FRAME_STATUS_DOUBLE_FREE, s2)"
    using frame_release_cases(2) [OF s2(5,4) lt] s2(2) f(1) by simp
  then show ?thesis using s2 f na by auto
qed

theorem frame_allocate_release_witness:
  "\<exists>a s1 s2. frame_allocate (Some 0) sample_frames = (FRAME_STATUS_OK, Some a, s1)
     \<and> frame_release a s1 = (FRAME_STATUS_OK, s2)
     \<and> frame_release a s2 = (FRAME_STATUS_DOUBLE_FREE, s2)"
proof -
  obtain a s1 where *: "frame_allocate (Some 0) sample_frames = (FRAME_STATUS_OK, Some a, s1)"
    by (rule sample_allocate)
  from frame_allocate_release [OF sample_run *] show ?thesis using * by blast
qed

text \<open>
  C25. A contiguous allocation that succeeds hands out a range of frames that were all free, starts
  on the requested alignment, ends at or below the requested maximum address, shares no frame with
  any other live contiguous allocation, and keeps the invariant of the allocator.
\<close>

theorem frame_allocate_contiguous_safe:
  assumes "frame_inv s"
    and "frame_allocate_contiguous (Some request) p s = (FRAME_STATUS_OK, Some h, s')"
  shows "unat (req_alignment request) dvd unat (alloc_physical_base h)
     \<and> 0 < unat (alloc_page_count h)
     \<and> unat (alloc_physical_base h) + unat (alloc_page_count h) * 4096
         \<le> unat (req_maximum_physical_address request) + 1
     \<and> (\<forall>k < unat (alloc_page_count h). unat (alloc_physical_base h) div 4096 + k \<in> free_set s
          \<and> unat (alloc_physical_base h) div 4096 + k \<in> allocated_set s'
          \<and> \<not> frame_in_contiguous_allocation s (unat (alloc_physical_base h) div 4096 + k))
     \<and> free_set s' \<subseteq> free_set s \<and> frame_inv s'"
proof -
  from frame_allocate_contiguous_OK [OF assms] obtain first where
    h: "alloc_physical_base h = of_nat first * SAPOTE_PAGE_SIZE" "alloc_page_count h = req_page_count request"
    and n0: "0 < unat (req_page_count request)"
    and lim: "first + unat (req_page_count request) \<le> FRAME_COUNT"
    and le: "(first + unat (req_page_count request)) * 4096
         \<le> unat (req_maximum_physical_address request) + 1"
    and dv: "unat (req_alignment request) dvd first * 4096"
    and sub: "{first ..< first + unat (req_page_count request)} \<subseteq> free_set s"
    and sets: "free_set s' = free_set s - {first ..< first + unat (req_page_count request)}"
      "allocated_set s' = allocated_set s \<union> {first ..< first + unat (req_page_count request)}"
    and inv: "frame_inv s'"
    by auto
  have "first < FRAME_COUNT" using n0 lim by linarith
  then have base: "unat (alloc_physical_base h) = first * 4096" using h(1) frame_address(1) by simp
  have "first + k \<in> free_set s \<and> first + k \<in> allocated_set s' \<and> \<not> frame_in_contiguous_allocation s (first + k)"
    if "k < unat (req_page_count request)" for k
  proof -
    have k: "first + k \<in> free_set s" using sub that by auto
    then have "first + k \<notin> allocated_set s" using eligible_split(2) [of s] by blast
    then show ?thesis using k that not_contiguous [OF assms(1) refl] unfolding sets(2) by auto
  qed
  then show ?thesis using base h(2) n0 le dv sets(1) inv by (auto simp: algebra_simps)
qed

definition sample_request :: frame_contiguous_request where
  "sample_request = \<lparr>req_page_count = 4, req_alignment = 0x10000,
     req_maximum_physical_address = 0xFFFFFFFF\<rparr>"

definition low_request :: frame_contiguous_request where
  "low_request = \<lparr>req_page_count = 2, req_alignment = 0x1000,
     req_maximum_physical_address = 0xFFFF\<rparr>"

lemma sample_request_fields:
  "req_page_count sample_request = 4" "req_alignment sample_request = 0x10000"
  "req_page_count low_request = 2" "req_alignment low_request = 0x1000"
  by (simp_all add: sample_request_def low_request_def)

lemma sample_contiguous:
  obtains h s' where "frame_allocate_contiguous (Some sample_request) (Some cleared_allocation) sample_frames
     = (FRAME_STATUS_OK, Some h, s')"
proof -
  have b: "contiguous_bound sample_request = (FRAME_STATUS_OK, 1048576)"
    unfolding contiguous_bound_def Let_def sample_request_def power_of_two_def by simp
  have slot: "find_record (\<lambda>r. \<not> rec_active r) (contiguous_records sample_frames) = Some 0"
    unfolding sample_frames_facts(5) by (simp add: inactive_record_def numeral_eq_Suc)
  have "candidate sample_frames 0x10000 4 2048"
    using sample_eligible unfolding candidate_def free_set_def by (simp add: FRAME_COUNT_eq)
  moreover have "\<not> candidate sample_frames 0x10000 4 2048"
    if "contiguous_search sample_frames 0x10000 4 1048572 0 = None"
    by (rule contiguous_search_None [OF that]) simp_all
  ultimately have "contiguous_search sample_frames 0x10000 4 1048572 0 \<noteq> None" by blast
  then obtain first where "contiguous_search sample_frames 0x10000 4 1048572 0 = Some first"
    by blast
  then have "\<exists>h s'. frame_allocate_contiguous (Some sample_request) (Some cleared_allocation) sample_frames
     = (FRAME_STATUS_OK, Some h, s')"
    unfolding frame_allocate_contiguous_def
    by (simp add: b slot sample_frames_facts(4) sample_request_fields contiguous_commit_def Let_def)
  then show thesis using that by blast
qed

theorem frame_allocate_contiguous_safe_witness:
  "\<exists>h s'. frame_allocate_contiguous (Some sample_request) (Some cleared_allocation) sample_frames
     = (FRAME_STATUS_OK, Some h, s')
   \<and> unat (req_alignment sample_request) dvd unat (alloc_physical_base h) \<and> frame_inv s'"
proof -
  obtain h s' where *: "frame_allocate_contiguous (Some sample_request) (Some cleared_allocation)
      sample_frames = (FRAME_STATUS_OK, Some h, s')" by (rule sample_contiguous)
  from frame_allocate_contiguous_safe [OF sample_frames_facts(6) *] show ?thesis using * by blast
qed

text \<open>
  C27. Returning the handle of a contiguous allocation restores the frame sets of before it and
  deactivates the handle, provided the identifier it was given is not in use (the 64-bit counter
  has not come back to a live identifier); returning the deactivated handle again is refused.
\<close>

theorem frame_contiguous_release:
  assumes "frame_inv s"
    and "frame_allocate_contiguous (Some request) p s = (FRAME_STATUS_OK, Some h, s1)"
    and "\<forall>r \<in> set (contiguous_records s). rec_active r
           \<longrightarrow> rec_identifier r \<noteq> next_contiguous_identifier s"
  shows "\<exists>s2. frame_release_contiguous (Some h) s1
       = (FRAME_STATUS_OK, Some (h\<lparr>alloc_active := False\<rparr>), s2)
     \<and> free_set s2 = free_set s \<and> allocated_set s2 = allocated_set s \<and> frame_inv s2
     \<and> frame_release_contiguous (Some (h\<lparr>alloc_active := False\<rparr>)) s2
       = (FRAME_STATUS_DOUBLE_FREE, Some (h\<lparr>alloc_active := False\<rparr>), s2)"
proof -
  from contiguous_release_after_allocate [OF assms] obtain s2 where
    s2: "frame_release_contiguous (Some h) s1 = (FRAME_STATUS_OK, Some (h\<lparr>alloc_active := False\<rparr>), s2)"
    "free_set s2 = free_set s" "allocated_set s2 = allocated_set s" "frame_inv s2" by blast
  have "frame_inv s1" using frame_allocate_contiguous_OK [OF assms(1,2)] by blast
  from frame_release_contiguous_OK [OF this s2(1)] have "allocator_initialized s2" by blast
  then show ?thesis using s2 by (simp add: frame_release_contiguous_def)
qed

theorem frame_contiguous_release_witness:
  "\<exists>h s1 s2. frame_allocate_contiguous (Some sample_request) (Some cleared_allocation) sample_frames
       = (FRAME_STATUS_OK, Some h, s1)
     \<and> frame_release_contiguous (Some h) s1
       = (FRAME_STATUS_OK, Some (h\<lparr>alloc_active := False\<rparr>), s2)"
proof -
  obtain h s1 where *: "frame_allocate_contiguous (Some sample_request) (Some cleared_allocation)
      sample_frames = (FRAME_STATUS_OK, Some h, s1)" by (rule sample_contiguous)
  have "\<forall>r \<in> set (contiguous_records sample_frames). rec_active r
           \<longrightarrow> rec_identifier r \<noteq> next_contiguous_identifier sample_frames"
    unfolding sample_frames_facts(5) by (simp add: inactive_record_def)
  from frame_contiguous_release [OF sample_frames_facts(6) * this] show ?thesis using * by blast
qed

text \<open>
  C26. A contiguous request is refused for lack of memory only when there is no answer: no aligned
  range of the requested length that ends within the requested bound consists of free frames.
\<close>

theorem frame_allocate_contiguous_complete:
  assumes "frame_allocate_contiguous (Some request) p s = (FRAME_STATUS_OUT_OF_MEMORY, q, s')"
    and "unat (req_alignment request) dvd first * 4096"
    and "(first + unat (req_page_count request)) * 4096
           \<le> unat (req_maximum_physical_address request) + 1"
    and "first + unat (req_page_count request) \<le> FRAME_COUNT"
  shows "\<not> {first ..< first + unat (req_page_count request)} \<subseteq> free_set s \<and> s' = s"
  using frame_allocate_contiguous_OOM [OF assms] frame_contiguous_error_unchanged(1) [of "Some request" p s]
    assms(1) by simp

lemma sample_contiguous_low:
  "frame_allocate_contiguous (Some low_request) (Some cleared_allocation) sample_frames
     = (FRAME_STATUS_OUT_OF_MEMORY, Some cleared_allocation, sample_frames)"
proof -
  have b: "contiguous_bound low_request = (FRAME_STATUS_OK, 16)"
    unfolding contiguous_bound_def Let_def low_request_def power_of_two_def by simp
  have slot: "find_record (\<lambda>r. \<not> rec_active r) (contiguous_records sample_frames) = Some 0"
    unfolding sample_frames_facts(5) by (simp add: inactive_record_def numeral_eq_Suc)
  have "contiguous_search sample_frames 0x1000 2 14 0 = None"
  proof (cases "contiguous_search sample_frames 0x1000 2 14 0")
    case (Some first)
    then have "first \<le> 14" and all: "\<forall>k<2. frame_is_free sample_frames (first + k)"
      using contiguous_search_Some [OF Some] unfolding candidate_def by blast+
    then have "frame_is_free sample_frames first" using spec [OF all, of 0] by simp
    then have "first \<in> free_set sample_frames" using \<open>first \<le> 14\<close> by (simp add: free_set_def FRAME_COUNT_eq)
    then show ?thesis using sample_eligible [of first] \<open>first \<le> 14\<close> by (simp add: FRAME_COUNT_eq)
  qed
  then show ?thesis
    unfolding frame_allocate_contiguous_def
    by (simp add: b slot sample_frames_facts(4) sample_request_fields)
qed

theorem frame_allocate_contiguous_complete_witness:
  "\<not> {0 ..< 0 + unat (req_page_count low_request)} \<subseteq> free_set sample_frames"
  using frame_allocate_contiguous_complete [OF sample_contiguous_low, of 0]
  by (simp add: low_request_def FRAME_COUNT_eq)

text \<open>
  C30. A reservation that succeeds removes exactly the frames that share a byte with the range from
  the frames the allocator may use, touches no allocated frame and keeps the invariant.
\<close>

theorem frame_reserve_range_exact:
  assumes "frame_inv s" and "frame_reserve_range base len s = (FRAME_STATUS_OK, s')"
  shows "eligible_frames s' = {f \<in> eligible_frames s. \<not> frame_touches f base len}
     \<and> free_set s' = {f \<in> free_set s. \<not> frame_touches f base len}
     \<and> allocated_set s' = allocated_set s \<and> frame_inv s'"
  using frame_reserve_range_OK [OF assms] by blast

theorem frame_reserve_range_exact_witness:
  "\<exists>s'. frame_reserve_range 0x800000 0x1800 sample_frames = (FRAME_STATUS_OK, s')
     \<and> 2049 \<notin> eligible_frames s' \<and> frame_inv s'"
proof -
  have b: "covering_frame_bounds 0x800000 0x1800 = (FRAME_STATUS_OK, 2048, 2050)"
    unfolding covering_frame_bounds_def checked_range_end_def Let_def by simp
  have "f \<notin> allocated_set sample_frames" for f using sample_frames_facts(2) by simp
  then have "\<not> list_ex (\<lambda>f. bitmap_get (eligible_bitmap sample_frames) f
      \<and> bitmap_get (used_bitmap sample_frames) f) [2048..<2050]"
    unfolding list_ex_iff by (auto simp: allocated_set_def FRAME_COUNT_eq)
  then obtain s' where *: "frame_reserve_range 0x800000 0x1800 sample_frames = (FRAME_STATUS_OK, s')"
    unfolding frame_reserve_range_def by (simp add: b sample_frames_facts(4))
  from frame_reserve_range_exact [OF sample_frames_facts(6) *] show ?thesis
    using * by (auto simp: frame_touches_def)
qed

end
