(* ===== verification/Page_Bits.thy ===== *)
theory Page_Bits
  imports Frames
begin

text \<open>
  The page-table entry format of \<open>src/kernel/paging.c\<close>: entry bits, the PAT memory types, the four
  nine-bit indices of a canonical address, the translation between permissions and entry bits, and
  the range checks every paging operation starts with.
\<close>

subsection \<open>Constants and types\<close>

definition PAGING_LEVEL_COUNT :: nat where "PAGING_LEVEL_COUNT = 4"
definition PAGING_ENTRIES_PER_TABLE :: nat where "PAGING_ENTRIES_PER_TABLE = 512"
definition PAGING_PAGE_SIZE :: u64 where "PAGING_PAGE_SIZE = 4096"
definition PAGING_HUGE_PAGE_SIZE :: u64 where "PAGING_HUGE_PAGE_SIZE = 0x200000"

definition PAGE_PRESENT :: u64 where "PAGE_PRESENT = 0x1"
definition PAGE_WRITABLE :: u64 where "PAGE_WRITABLE = 0x2"
definition PAGE_USER :: u64 where "PAGE_USER = 0x4"
definition PAGE_WRITE_THROUGH :: u64 where "PAGE_WRITE_THROUGH = 0x8"
definition PAGE_CACHE_DISABLE :: u64 where "PAGE_CACHE_DISABLE = 0x10"
definition PAGE_HUGE :: u64 where "PAGE_HUGE = 0x80"
definition PAGE_LARGE_PAT :: u64 where "PAGE_LARGE_PAT = 0x1000"
definition PAGE_NO_EXECUTE :: u64 where "PAGE_NO_EXECUTE = 0x8000000000000000"
definition PAGE_FRAME_MASK :: u64 where "PAGE_FRAME_MASK = 0x000FFFFFFFFFF000"
definition PAGE_PHYSICAL_LIMIT :: u64 where "PAGE_PHYSICAL_LIMIT = 0x0010000000000000"

definition PAGING_READ :: u32 where "PAGING_READ = 0"
definition PAGING_WRITE :: u32 where "PAGING_WRITE = 0x1"
definition PAGING_EXECUTE :: u32 where "PAGING_EXECUTE = 0x2"
definition PAGING_UNCACHED :: u32 where "PAGING_UNCACHED = 0x4"
definition PAGING_WRITE_COMBINING :: u32 where "PAGING_WRITE_COMBINING = 0x8"

datatype paging_status =
    PAGING_STATUS_OK
  | PAGING_STATUS_NULL_ARGUMENT
  | PAGING_STATUS_ALREADY_INITIALIZED
  | PAGING_STATUS_NOT_INITIALIZED
  | PAGING_STATUS_INTERRUPTS_ENABLED
  | PAGING_STATUS_NO_EXECUTE_UNSUPPORTED
  | PAGING_STATUS_NO_EXECUTE_INACTIVE
  | PAGING_STATUS_WRITE_PROTECT_INACTIVE
  | PAGING_STATUS_FIVE_LEVEL_PAGING
  | PAGING_STATUS_PHYSICAL_EXTENSION_DISABLED
  | PAGING_STATUS_PAT_UNSUPPORTED
  | PAGING_STATUS_PAT_LAYOUT_UNSAFE
  | PAGING_STATUS_PAT_READBACK_MISMATCH
  | PAGING_STATUS_BAD_KERNEL_LAYOUT
  | PAGING_STATUS_BAD_DEVICE_WINDOW_KIND
  | PAGING_STATUS_BAD_DEVICE_WINDOW_INSTANCE
  | PAGING_STATUS_UNSUPPORTED_DEVICE_WINDOW_MEMORY_TYPE
  | PAGING_STATUS_BAD_DEVICE_WINDOW_PERMISSIONS
  | PAGING_STATUS_ZERO_LENGTH_DEVICE_WINDOW
  | PAGING_STATUS_UNALIGNED_DEVICE_WINDOW
  | PAGING_STATUS_DEVICE_WINDOW_RANGE_OVERFLOW
  | PAGING_STATUS_DEVICE_WINDOW_UNSUPPORTED_RANGE
  | PAGING_STATUS_TOO_MANY_DEVICE_WINDOWS
  | PAGING_STATUS_CONFLICTING_DEVICE_WINDOW_OVERLAP
  | PAGING_STATUS_OVERLAPPING_DEVICE_WINDOWS
  | PAGING_STATUS_DUPLICATE_DEVICE_WINDOW
  | PAGING_STATUS_REQUIRED_DEVICE_WINDOW_MISSING
  | PAGING_STATUS_DEVICE_WINDOW_KERNEL_OVERLAP
  | PAGING_STATUS_INSTALLED_DEVICE_WINDOW_MISMATCH
  | PAGING_STATUS_ZERO_LENGTH
  | PAGING_STATUS_UNALIGNED_ADDRESS
  | PAGING_STATUS_NONCANONICAL_ADDRESS
  | PAGING_STATUS_RANGE_OVERFLOW
  | PAGING_STATUS_PHYSICAL_TOO_WIDE
  | PAGING_STATUS_BAD_PERMISSIONS
  | PAGING_STATUS_CONFLICTING_MEMORY_TYPES
  | PAGING_STATUS_MEMORY_TYPE_CHANGE_UNSAFE
  | PAGING_STATUS_WRITABLE_AND_EXECUTABLE
  | PAGING_STATUS_ALREADY_MAPPED
  | PAGING_STATUS_NOT_MAPPED
  | PAGING_STATUS_HUGE_PAGE_PRESENT
  | PAGING_STATUS_OUT_OF_FRAMES
  | PAGING_STATUS_VALIDATION_FAILURE
  | PAGING_STATUS_PROCESS_BUSY
  | PAGING_STATUS_PROCESS_BAD_TOKEN
  | PAGING_STATUS_PROCESS_BAD_STATE
  | PAGING_STATUS_PROCESS_BAD_MAPPING
  | PAGING_STATUS_PROCESS_ALIAS_STATE
  | PAGING_STATUS_SUPERVISOR_INTENT_FULL

datatype paging_memory_type =
    PAGING_MEMORY_WRITE_BACK
  | PAGING_MEMORY_WRITE_COMBINING
  | PAGING_MEMORY_UNCACHEABLE
  | PAGING_MEMORY_WRITE_THROUGH
  | PAGING_MEMORY_WRITE_PROTECTED
  | PAGING_MEMORY_UNCACHED_MINUS
  | PAGING_MEMORY_INVALID

subsection \<open>The page attribute table\<close>

definition PAT_TYPE_UNCACHEABLE :: u8 where "PAT_TYPE_UNCACHEABLE = 0"
definition PAT_TYPE_WRITE_COMBINING :: u8 where "PAT_TYPE_WRITE_COMBINING = 1"
definition PAT_TYPE_WRITE_THROUGH :: u8 where "PAT_TYPE_WRITE_THROUGH = 4"
definition PAT_TYPE_WRITE_PROTECTED :: u8 where "PAT_TYPE_WRITE_PROTECTED = 5"
definition PAT_TYPE_WRITE_BACK :: u8 where "PAT_TYPE_WRITE_BACK = 6"
definition PAT_TYPE_UNCACHED_MINUS :: u8 where "PAT_TYPE_UNCACHED_MINUS = 7"
definition PAT_WRITE_BACK_ENTRY :: nat where "PAT_WRITE_BACK_ENTRY = 0"
definition PAT_WRITE_COMBINING_ENTRY :: nat where "PAT_WRITE_COMBINING_ENTRY = 1"
definition PAT_DEVICE_ENTRY :: nat where "PAT_DEVICE_ENTRY = 3"

definition pat_entry :: "u64 \<Rightarrow> nat \<Rightarrow> u8" where
  "pat_entry pat index = ucast (drop_bit (index * 8) pat)"

definition pat_replace_entry :: "u64 \<Rightarrow> nat \<Rightarrow> u8 \<Rightarrow> u64" where
  "pat_replace_entry pat index memory_type =
     (let shift = index * 8; entry_mask = push_bit shift 0xFF
      in (pat AND NOT entry_mask) OR push_bit shift (ucast memory_type))"

definition decode_pat_type :: "u8 \<Rightarrow> paging_memory_type" where
  "decode_pat_type memory_type =
     (if memory_type = PAT_TYPE_WRITE_BACK then PAGING_MEMORY_WRITE_BACK
      else if memory_type = PAT_TYPE_WRITE_COMBINING then PAGING_MEMORY_WRITE_COMBINING
      else if memory_type = PAT_TYPE_UNCACHEABLE then PAGING_MEMORY_UNCACHEABLE
      else if memory_type = PAT_TYPE_WRITE_THROUGH then PAGING_MEMORY_WRITE_THROUGH
      else if memory_type = PAT_TYPE_WRITE_PROTECTED then PAGING_MEMORY_WRITE_PROTECTED
      else if memory_type = PAT_TYPE_UNCACHED_MINUS then PAGING_MEMORY_UNCACHED_MINUS
      else PAGING_MEMORY_INVALID)"

definition leaf_pat_index :: "u64 \<Rightarrow> nat \<Rightarrow> nat" where
  "leaf_pat_index entry level =
     (let pat_bit = (if level = 1 then PAGE_HUGE else PAGE_LARGE_PAT);
          index = (0 :: nat);
          index = (if entry AND PAGE_WRITE_THROUGH \<noteq> 0 then index OR 1 else index);
          index = (if entry AND PAGE_CACHE_DISABLE \<noteq> 0 then index OR 2 else index);
          index = (if entry AND pat_bit \<noteq> 0 then index OR 4 else index)
      in index)"

definition leaf_memory_type :: "u64 \<Rightarrow> nat \<Rightarrow> u64 \<Rightarrow> paging_memory_type" where
  "leaf_memory_type entry level pat = decode_pat_type (pat_entry pat (leaf_pat_index entry level))"

subsection \<open>Addresses\<close>

definition table_index :: "u64 \<Rightarrow> nat \<Rightarrow> nat" where
  "table_index virtual_address level =
     unat (drop_bit (12 + 9 * (level - 1)) virtual_address
           AND of_nat (PAGING_ENTRIES_PER_TABLE - 1))"

definition level_page_size :: "nat \<Rightarrow> u64" where
  "level_page_size level = push_bit (12 + 9 * (level - 1)) 1"

definition address_is_canonical :: "u64 \<Rightarrow> bool" where
  "address_is_canonical virtual_address \<longleftrightarrow>
     (let high = drop_bit 47 virtual_address in high = 0 \<or> high = 0x1FFFF)"

subsection \<open>Permissions\<close>

definition permissions_to_flags :: "u32 \<Rightarrow> u64" where
  "permissions_to_flags permissions =
     (let flags = PAGE_PRESENT;
          flags = (if permissions AND PAGING_WRITE \<noteq> 0 then flags OR PAGE_WRITABLE else flags);
          flags = (if permissions AND PAGING_EXECUTE = 0 then flags OR PAGE_NO_EXECUTE else flags);
          flags = (if permissions AND PAGING_UNCACHED \<noteq> 0
                   then flags OR (PAGE_CACHE_DISABLE OR PAGE_WRITE_THROUGH) else flags);
          flags = (if permissions AND PAGING_WRITE_COMBINING \<noteq> 0
                   then flags OR PAGE_WRITE_THROUGH else flags)
      in flags)"

text \<open>What a memory type adds to reported permissions.\<close>

definition memory_type_permissions :: "paging_memory_type \<Rightarrow> u32 \<Rightarrow> u32" where
  "memory_type_permissions memory_type permissions =
     (if memory_type = PAGING_MEMORY_UNCACHEABLE then permissions OR PAGING_UNCACHED
      else if memory_type = PAGING_MEMORY_WRITE_COMBINING then permissions OR PAGING_WRITE_COMBINING
      else permissions)"

definition flags_to_permissions :: "u64 \<Rightarrow> nat \<Rightarrow> u64 \<Rightarrow> u32" where
  "flags_to_permissions entry level pat =
     (let permissions = PAGING_READ;
          permissions = (if entry AND PAGE_WRITABLE \<noteq> 0 then permissions OR PAGING_WRITE
                         else permissions);
          permissions = (if entry AND PAGE_NO_EXECUTE = 0 then permissions OR PAGING_EXECUTE
                         else permissions)
      in memory_type_permissions (leaf_memory_type entry level pat) permissions)"

definition validate_permissions :: "u32 \<Rightarrow> paging_status" where
  "validate_permissions permissions =
     (let known = PAGING_WRITE OR PAGING_EXECUTE OR PAGING_UNCACHED OR PAGING_WRITE_COMBINING in
      if permissions AND NOT known \<noteq> 0 then PAGING_STATUS_BAD_PERMISSIONS
      else if permissions AND PAGING_WRITE \<noteq> 0 \<and> permissions AND PAGING_EXECUTE \<noteq> 0
      then PAGING_STATUS_WRITABLE_AND_EXECUTABLE
      else if permissions AND PAGING_UNCACHED \<noteq> 0 \<and> permissions AND PAGING_WRITE_COMBINING \<noteq> 0
      then PAGING_STATUS_CONFLICTING_MEMORY_TYPES
      else PAGING_STATUS_OK)"

subsection \<open>Ranges\<close>

definition validate_virtual_range :: "u64 \<Rightarrow> u64 \<Rightarrow> u64 \<Rightarrow> paging_status" where
  "validate_virtual_range virtual_address len page_size =
     (if len = 0 then PAGING_STATUS_ZERO_LENGTH
      else if virtual_address AND (page_size - 1) \<noteq> 0 \<or> len AND (page_size - 1) \<noteq> 0
      then PAGING_STATUS_UNALIGNED_ADDRESS
      else if \<not> address_is_canonical virtual_address then PAGING_STATUS_NONCANONICAL_ADDRESS
      else if len > 0xFFFFFFFFFFFFFFFF - virtual_address then PAGING_STATUS_RANGE_OVERFLOW
      else if \<not> address_is_canonical (virtual_address + len - 1)
      then PAGING_STATUS_NONCANONICAL_ADDRESS
      else PAGING_STATUS_OK)"

definition validate_physical_range :: "u64 \<Rightarrow> u64 \<Rightarrow> u64 \<Rightarrow> paging_status" where
  "validate_physical_range physical_address len page_size =
     (if physical_address AND (page_size - 1) \<noteq> 0 then PAGING_STATUS_UNALIGNED_ADDRESS
      else if len > 0xFFFFFFFFFFFFFFFF - physical_address then PAGING_STATUS_RANGE_OVERFLOW
      else if physical_address + len > PAGE_PHYSICAL_LIMIT then PAGING_STATUS_PHYSICAL_TOO_WIDE
      else PAGING_STATUS_OK)"

subsection \<open>The processor\<close>

definition CPUID_EXTENDED_FEATURES :: u32 where "CPUID_EXTENDED_FEATURES = 0x80000001"
definition CPUID_NO_EXECUTE :: u32 where "CPUID_NO_EXECUTE = 0x00100000"
definition CPUID_PAT :: u32 where "CPUID_PAT = 0x00010000"
definition CR4_PHYSICAL_ADDRESS_EXTENSION :: u64 where "CR4_PHYSICAL_ADDRESS_EXTENSION = 0x20"
definition CR4_FIVE_LEVEL_PAGING :: u64 where "CR4_FIVE_LEVEL_PAGING = 0x1000"

definition decode_processor_support :: "u32 \<Rightarrow> u32 \<Rightarrow> u32 \<Rightarrow> u64 \<Rightarrow> u64 \<Rightarrow> paging_status" where
  "decode_processor_support basic_features_edx extended_root_eax extended_features_edx cr4 pat =
     (if extended_root_eax < CPUID_EXTENDED_FEATURES
         \<or> extended_features_edx AND CPUID_NO_EXECUTE = 0
      then PAGING_STATUS_NO_EXECUTE_UNSUPPORTED
      else if basic_features_edx AND CPUID_PAT = 0 then PAGING_STATUS_PAT_UNSUPPORTED
      else if cr4 AND CR4_FIVE_LEVEL_PAGING \<noteq> 0 then PAGING_STATUS_FIVE_LEVEL_PAGING
      else if cr4 AND CR4_PHYSICAL_ADDRESS_EXTENSION = 0
      then PAGING_STATUS_PHYSICAL_EXTENSION_DISABLED
      else if list_ex (\<lambda>index. decode_pat_type (pat_entry pat index) = PAGING_MEMORY_INVALID) [0..<8]
      then PAGING_STATUS_PAT_LAYOUT_UNSAFE
      else if pat_entry pat PAT_WRITE_BACK_ENTRY \<noteq> PAT_TYPE_WRITE_BACK
              \<or> pat_entry pat PAT_DEVICE_ENTRY \<noteq> PAT_TYPE_UNCACHEABLE
      then PAGING_STATUS_PAT_LAYOUT_UNSAFE
      else PAGING_STATUS_OK)"

definition PAGING_KERNEL_IMAGE_LIMIT :: u64 where "PAGING_KERNEL_IMAGE_LIMIT = 0x800000"

definition validate_kernel_layout :: "u64 \<Rightarrow> u64 \<Rightarrow> paging_status" where
  "validate_kernel_layout kernel_start kernel_end =
     (if kernel_start \<ge> kernel_end
         \<or> kernel_start AND (PAGING_PAGE_SIZE - 1) \<noteq> 0
         \<or> kernel_end AND (PAGING_PAGE_SIZE - 1) \<noteq> 0
         \<or> kernel_end > PAGING_KERNEL_IMAGE_LIMIT
      then PAGING_STATUS_BAD_KERNEL_LAYOUT else PAGING_STATUS_OK)"

subsection \<open>Flag bits\<close>

lemma and_exp_eq_0_iff: "((w :: 'a::len word) AND 2 ^ k = 0) \<longleftrightarrow> \<not> bit w k"
  using and_exp_nonzero_iff [of w k] by blast

lemma page_flag_exp:
  "PAGE_PRESENT = 2 ^ 0" "PAGE_WRITABLE = 2 ^ 1" "PAGE_USER = 2 ^ 2" "PAGE_WRITE_THROUGH = 2 ^ 3"
  "PAGE_CACHE_DISABLE = 2 ^ 4" "PAGE_HUGE = 2 ^ 7" "PAGE_LARGE_PAT = 2 ^ 12" "PAGE_NO_EXECUTE = 2 ^ 63"
  by (simp_all add: PAGE_PRESENT_def PAGE_WRITABLE_def PAGE_USER_def PAGE_WRITE_THROUGH_def
      PAGE_CACHE_DISABLE_def PAGE_HUGE_def PAGE_LARGE_PAT_def PAGE_NO_EXECUTE_def)

lemma page_flag_bits [simp]:
  "e AND PAGE_PRESENT = 0 \<longleftrightarrow> \<not> bit e 0" "e AND PAGE_WRITABLE = 0 \<longleftrightarrow> \<not> bit e 1"
  "e AND PAGE_USER = 0 \<longleftrightarrow> \<not> bit e 2" "e AND PAGE_WRITE_THROUGH = 0 \<longleftrightarrow> \<not> bit e 3"
  "e AND PAGE_CACHE_DISABLE = 0 \<longleftrightarrow> \<not> bit e 4" "e AND PAGE_HUGE = 0 \<longleftrightarrow> \<not> bit e 7"
  "e AND PAGE_LARGE_PAT = 0 \<longleftrightarrow> \<not> bit e 12" "e AND PAGE_NO_EXECUTE = 0 \<longleftrightarrow> \<not> bit e 63"
  unfolding page_flag_exp by (rule and_exp_eq_0_iff)+

lemma bit_page_flags:
  "bit PAGE_PRESENT n \<longleftrightarrow> n = 0" "bit PAGE_WRITABLE n \<longleftrightarrow> n = 1" "bit PAGE_USER n \<longleftrightarrow> n = 2"
  "bit PAGE_WRITE_THROUGH n \<longleftrightarrow> n = 3" "bit PAGE_CACHE_DISABLE n \<longleftrightarrow> n = 4"
  "bit PAGE_HUGE n \<longleftrightarrow> n = 7" "bit PAGE_NO_EXECUTE n \<longleftrightarrow> n = 63"
  unfolding page_flag_exp bit_exp_iff possible_bit_word by auto

lemma permission_exp:
  "PAGING_WRITE = 2 ^ 0" "PAGING_EXECUTE = 2 ^ 1" "PAGING_UNCACHED = 2 ^ 2"
  "PAGING_WRITE_COMBINING = 2 ^ 3"
  by (simp_all add: PAGING_WRITE_def PAGING_EXECUTE_def PAGING_UNCACHED_def PAGING_WRITE_COMBINING_def)

lemma permission_bits [simp]:
  "p AND PAGING_WRITE = 0 \<longleftrightarrow> \<not> bit p 0" "p AND PAGING_EXECUTE = 0 \<longleftrightarrow> \<not> bit p 1"
  "p AND PAGING_UNCACHED = 0 \<longleftrightarrow> \<not> bit p 2" "p AND PAGING_WRITE_COMBINING = 0 \<longleftrightarrow> \<not> bit p 3"
  unfolding permission_exp by (rule and_exp_eq_0_iff)+

lemma bit_permissions:
  "bit PAGING_WRITE n \<longleftrightarrow> n = 0" "bit PAGING_EXECUTE n \<longleftrightarrow> n = 1" "bit PAGING_UNCACHED n \<longleftrightarrow> n = 2"
  "bit PAGING_WRITE_COMBINING n \<longleftrightarrow> n = 3" "bit PAGING_READ n \<longleftrightarrow> False"
  unfolding permission_exp PAGING_READ_def bit_exp_iff possible_bit_word by auto

lemma bit_permissions_to_flags:
  "bit (permissions_to_flags p) n \<longleftrightarrow> n = 0 \<or> n = 1 \<and> bit p 0 \<or> n = 63 \<and> \<not> bit p 1
     \<or> n = 4 \<and> bit p 2 \<or> n = 3 \<and> (bit p 2 \<or> bit p 3)"
  unfolding permissions_to_flags_def Let_def by (auto simp: bit_or_iff bit_page_flags)

lemma bit_frame_mask: "bit PAGE_FRAME_MASK n \<longleftrightarrow> 12 \<le> n \<and> n < 52"
proof -
  have eq: "PAGE_FRAME_MASK = mask 52 AND NOT (mask 12)"
    by (simp add: PAGE_FRAME_MASK_def mask_eq_exp_minus_1)
  show ?thesis unfolding eq by (auto simp: bit_and_iff bit_not_iff bit_mask_iff)
qed

lemma validate_permissions_OK:
  "validate_permissions p = PAGING_STATUS_OK \<longleftrightarrow>
     (\<forall>n. bit p n \<longrightarrow> n < 4) \<and> \<not> (bit p 0 \<and> bit p 1) \<and> \<not> (bit p 2 \<and> bit p 3)"
proof -
  let ?known = "PAGING_WRITE OR PAGING_EXECUTE OR PAGING_UNCACHED OR PAGING_WRITE_COMBINING"
  have "p AND NOT ?known = 0 \<longleftrightarrow> (\<forall>n. \<not> bit (p AND NOT ?known) n)"
    by (auto intro: bit_word_eqI)
  also have "\<dots> \<longleftrightarrow> (\<forall>n. bit p n \<longrightarrow> n < 4)"
  proof (intro iff_allI)
    fix n
    have "bit p n \<Longrightarrow> n < 32" using bit_imp_le_length [of p n] by simp
    then show "(\<not> bit (p AND NOT ?known) n) \<longleftrightarrow> (bit p n \<longrightarrow> n < 4)"
      by (auto simp: bit_and_iff bit_not_iff bit_or_iff bit_permissions)
  qed
  finally show ?thesis
    unfolding validate_permissions_def Let_def by simp
qed

subsection \<open>Frame numbers\<close>

text \<open>An address an entry can hold: page aligned and below the 52-bit physical limit.\<close>

definition frame_address_ok :: "u64 \<Rightarrow> bool" where
  "frame_address_ok a \<longleftrightarrow> 4096 dvd unat a \<and> unat a < 2 ^ 52"

lemma frame_address_ok_bits:
  assumes "frame_address_ok a" and "bit a n"
  shows "12 \<le> n \<and> n < 52"
proof -
  have n: "bit (unat a) n" using assms(2) by (simp add: bit_unsigned_iff)
  have "take_bit 12 (unat a) = 0"
    using assms(1) by (auto simp: frame_address_ok_def take_bit_eq_mod dvd_eq_mod_eq_0)
  then have "\<not> n < 12" using n by (metis bit_take_bit_iff bit_0_eq bot_apply bot_bool_def)
  moreover have "take_bit 52 (unat a) = unat a"
    using assms(1) by (simp add: frame_address_ok_def take_bit_nat_eq_self)
  then have "n < 52" using n by (metis bit_take_bit_iff)
  ultimately show ?thesis by simp
qed

lemma frame_address_or_flags:
  assumes "frame_address_ok a" and "\<And>n. bit f n \<Longrightarrow> n < 12 \<or> 52 \<le> n"
  shows "(a OR f) AND PAGE_FRAME_MASK = a"
proof (rule bit_word_eqI)
  fix n
  show "bit ((a OR f) AND PAGE_FRAME_MASK) n \<longleftrightarrow> bit a n"
    using assms(2) [of n] frame_address_ok_bits [OF assms(1), of n]
    by (auto simp: bit_simps bit_frame_mask)
qed

subsection \<open>Indices\<close>

lemma unat_drop_bit_div: "unat (drop_bit k (w :: 'a::len word)) = unat w div 2 ^ k"
  unfolding unat_drop_bit_eq by (rule drop_bit_eq_div)

lemma table_index_eq: "table_index va l = unat va div 2 ^ (12 + 9 * (l - 1)) mod 512"
proof -
  have "(of_nat (PAGING_ENTRIES_PER_TABLE - 1) :: u64) = mask 9"
    by (simp add: PAGING_ENTRIES_PER_TABLE_def mask_eq_exp_minus_1)
  then have "table_index va l = unat (drop_bit (12 + 9 * (l - 1)) va) mod 512"
    unfolding table_index_def by (simp only: unat_and_mask) simp
  then show ?thesis by (simp only: unat_drop_bit_div)
qed

lemma table_index_less [simp]: "table_index va l < 512"
  by (simp add: table_index_eq)

lemma canonical_iff: "address_is_canonical va \<longleftrightarrow> unat va < 2 ^ 47 \<or> 2 ^ 64 - 2 ^ 47 \<le> unat va"
proof -
  have h: "unat (drop_bit 47 va) = unat va div 2 ^ 47" by (rule unat_drop_bit_div)
  have lt: "unat va < 2 ^ 64" using unat_less_size [of va] by simp
  have "drop_bit 47 va = 0 \<longleftrightarrow> unat va div 2 ^ 47 = 0"
    using h by (metis unat_eq_0)
  moreover have "drop_bit 47 va = 0x1FFFF \<longleftrightarrow> unat va div 2 ^ 47 = 0x1FFFF"
    unfolding word_unat_eq_iff h by simp
  ultimately show ?thesis
    unfolding address_is_canonical_def Let_def using lt by auto
qed

lemma level_page_size_nat:
  assumes "1 \<le> l" and "l \<le> 4" shows "unat (level_page_size l) = 2 ^ (12 + 9 * (l - 1))"
proof -
  have "12 + 9 * (l - 1) < 64" using assms by simp
  then have "(2 :: nat) ^ (12 + 9 * (l - 1)) < 2 ^ 64" by (rule power_strict_increasing) simp
  then have "unat (of_nat (2 ^ (12 + 9 * (l - 1))) :: u64) = 2 ^ (12 + 9 * (l - 1))"
    by (intro unat_of_nat_small) simp
  then show ?thesis by (simp add: level_page_size_def)
qed


lemma table_index_split:
  assumes "1 \<le> l"
  shows "unat va div 2 ^ (12 + 9 * (l - 1))
    = unat va div 2 ^ (12 + 9 * l) * 512 + table_index va l"
proof -
  have "12 + 9 * l = (12 + 9 * (l - 1)) + 9" using assms by simp
  then have "unat va div 2 ^ (12 + 9 * l) = unat va div 2 ^ (12 + 9 * (l - 1)) div 512"
    by (simp only: power_add div_mult2_eq) simp
  then show ?thesis by (simp add: table_index_eq)
qed

text \<open>
  The indices of two canonical addresses down to a level determine the page of that level.
\<close>

lemma canonical_high_arith:
  assumes "33554176 \<le> (d :: nat)" and "d < 33554432"
  shows "d div 512 = 65535 \<and> 256 \<le> d mod 512"
proof
  show q: "d div 512 = 65535" by (rule div_nat_eqI) (use assms in simp_all)
  have "d = d div 512 * 512 + d mod 512" by simp
  then show "256 \<le> d mod 512" using assms unfolding q by linarith
qed

lemma canonical_top:
  assumes "address_is_canonical va" and "address_is_canonical va'"
    and "table_index va 4 = table_index va' 4"
  shows "unat va div 2 ^ 39 = unat va' div 2 ^ 39"
proof -
  have split: "unat a div 2 ^ 39 = unat a div 2 ^ 48 * 512 + table_index a 4" for a
    using table_index_split [of 4 a] by simp
  have hi: "unat a div 2 ^ 48 = (if table_index a 4 < 256 then 0 else 2 ^ 16 - 1)"
    if "address_is_canonical a" for a
  proof -
    define d where "d = unat a div 2 ^ 39"
    have "unat a < 2 ^ 64" using unat_less_size [of a] by simp
    then have "d < 256 \<or> 33554176 \<le> d \<and> d < 33554432"
      using that unfolding canonical_iff d_def by auto
    then have "d < 256 \<or> d div 512 = 65535 \<and> 256 \<le> d mod 512"
      using canonical_high_arith [of d] by blast
    moreover have "unat a div 2 ^ 48 = d div 512"
      unfolding d_def div_mult2_eq [symmetric] by simp
    moreover have "table_index a 4 = d mod 512" unfolding d_def table_index_eq by simp
    ultimately show ?thesis by auto
  qed
  show ?thesis unfolding split hi [OF assms(1)] hi [OF assms(2)] assms(3) ..
qed

lemma same_page_iff:
  assumes "address_is_canonical va" and "address_is_canonical va'" and "1 \<le> l" and "l \<le> 4"
  shows "(\<forall>k. l \<le> k \<and> k \<le> 4 \<longrightarrow> table_index va k = table_index va' k)
     \<longleftrightarrow> unat va div 2 ^ (12 + 9 * (l - 1)) = unat va' div 2 ^ (12 + 9 * (l - 1))"
  using assms(4,3)
proof (induction l rule: inc_induct)
  case base
  have "(\<forall>k. 4 \<le> k \<and> k \<le> 4 \<longrightarrow> table_index va k = table_index va' k)
      \<longleftrightarrow> table_index va 4 = table_index va' 4" by auto
  moreover have "unat va div 2 ^ 39 = unat va' div 2 ^ 39 \<Longrightarrow> table_index va 4 = table_index va' 4"
    by (simp add: table_index_eq)
  ultimately show ?case using canonical_top [OF assms(1,2)] by auto
next
  case (step n)
  have all: "(\<forall>k. n \<le> k \<and> k \<le> 4 \<longrightarrow> table_index va k = table_index va' k) \<longleftrightarrow>
      table_index va n = table_index va' n
      \<and> (\<forall>k. Suc n \<le> k \<and> k \<le> 4 \<longrightarrow> table_index va k = table_index va' k)"
    using step.hyps by (metis Suc_leD Suc_leI le_neq_implies_less order_refl less_imp_le_nat)
  show ?case
    unfolding all step.IH [OF le_SucI [OF step.prems], simplified]
      table_index_split [OF step.prems]
    by (auto dest: arg_cong [where f = "\<lambda>x. x mod 512"] arg_cong [where f = "\<lambda>x. x div 512"])
qed

subsection \<open>Alignment and ranges\<close>

abbreviation page_shift :: "nat \<Rightarrow> nat" where
  "page_shift level \<equiv> 12 + 9 * (level - 1)"

lemma level_page_size_mask: "level_page_size l - 1 = mask (page_shift l)"
  by (simp add: level_page_size_def mask_eq_exp_minus_1)

lemma level_aligned_iff: "x AND (level_page_size l - 1) = 0 \<longleftrightarrow> 2 ^ page_shift l dvd unat x"
proof -
  have "x AND (level_page_size l - 1) = 0 \<longleftrightarrow> unat (x AND mask (page_shift l)) = 0"
    unfolding level_page_size_mask by (simp only: unat_eq_0)
  then show ?thesis unfolding unat_and_mask dvd_eq_mod_eq_0 .
qed

lemma page_size_level_1 [simp]: "level_page_size 1 = 4096" "level_page_size (Suc 0) = 4096"
  by (simp_all add: level_page_size_def)

lemma page_size_level_2 [simp]: "level_page_size 2 = 0x200000"
  by (simp add: level_page_size_def)

lemma validate_virtual_range_OK:
  assumes "validate_virtual_range va len (level_page_size l) = PAGING_STATUS_OK"
  shows "0 < unat len" and "2 ^ page_shift l dvd unat va" and "2 ^ page_shift l dvd unat len"
    and "unat va + unat len < 2 ^ 64" and "address_is_canonical va"
    and "address_is_canonical (va + len - 1)"
proof -
  from assms have *: "len \<noteq> 0" "va AND (level_page_size l - 1) = 0" "len AND (level_page_size l - 1) = 0"
    "address_is_canonical va" "\<not> len > 0xFFFFFFFFFFFFFFFF - va" "address_is_canonical (va + len - 1)"
    unfolding validate_virtual_range_def by (auto split: if_split_asm)
  then show "0 < unat len" "2 ^ page_shift l dvd unat va" "2 ^ page_shift l dvd unat len"
    "address_is_canonical va" "address_is_canonical (va + len - 1)"
    unfolding level_aligned_iff by (simp_all add: unat_gt_0)
  show "unat va + unat len < 2 ^ 64" using *(5) by (simp add: not_less checked_add_iff)
qed

text \<open>
  A range whose ends are canonical is canonical throughout, unless it is long enough to span the
  whole hole between the two halves of the address space.
\<close>

lemma canonical_between:
  assumes "address_is_canonical va" and "address_is_canonical (va + len - 1)"
    and "0 < unat len" and "unat va + unat len < 2 ^ 64" and "unat len \<le> 2 ^ 63"
    and "unat va \<le> unat a" and "unat a < unat va + unat len"
  shows "address_is_canonical a"
proof -
  have "va + len - 1 = of_nat (unat va + unat len - 1)"
    using assms(3) by (simp add: of_nat_diff)
  then have last: "unat (va + len - 1) = unat va + unat len - 1"
    using assms(4) by (simp only:) (rule unat_of_nat_small, simp)
  show ?thesis
    using assms(1,2,3,5,6,7) unfolding canonical_iff last by auto
qed

lemma validate_physical_range_OK:
  assumes "validate_physical_range pa len (level_page_size l) = PAGING_STATUS_OK"
  shows "2 ^ page_shift l dvd unat pa" and "unat pa + unat len \<le> 2 ^ 52"
proof -
  from assms have *: "pa AND (level_page_size l - 1) = 0" "\<not> len > 0xFFFFFFFFFFFFFFFF - pa"
    "\<not> pa + len > PAGE_PHYSICAL_LIMIT"
    unfolding validate_physical_range_def by (auto split: if_split_asm)
  then show "2 ^ page_shift l dvd unat pa" unfolding level_aligned_iff by simp
  have "unat (pa + len) = unat pa + unat len"
    using *(2) by (intro unat_plus_checked) (simp add: not_less)
  then show "unat pa + unat len \<le> 2 ^ 52"
    using *(3) by (simp add: PAGE_PHYSICAL_LIMIT_def word_less_nat_alt not_less)
qed

subsection \<open>The PAT layout\<close>

text \<open>The three entries the kernel's mappings select, after the write-combining entry is set.\<close>

definition pat_ok :: "u64 \<Rightarrow> bool" where
  "pat_ok pat \<longleftrightarrow> pat_entry pat PAT_WRITE_BACK_ENTRY = PAT_TYPE_WRITE_BACK
     \<and> pat_entry pat PAT_WRITE_COMBINING_ENTRY = PAT_TYPE_WRITE_COMBINING
     \<and> pat_entry pat PAT_DEVICE_ENTRY = PAT_TYPE_UNCACHEABLE"

lemma pat_entry_bit: "bit (pat_entry pat i) n \<longleftrightarrow> n < 8 \<and> bit pat (i * 8 + n)"
  by (auto simp: pat_entry_def bit_ucast_iff bit_drop_bit_eq)

lemma pat_entry_replace:
  assumes "i < 8" and "j < 8"
  shows "pat_entry (pat_replace_entry pat i t) j = (if i = j then t else pat_entry pat j)"
proof (rule bit_word_eqI)
  fix n assume n: "n < LENGTH(8)"
  have b: "bit (pat_replace_entry pat i t) k \<longleftrightarrow>
      (if i * 8 \<le> k \<and> k < i * 8 + 8 then bit t (k - i * 8) else bit pat k)" if "k < 64" for k
  proof -
    have FF: "(0xFF :: u64) = mask 8" by (simp add: mask_eq_exp_minus_1)
    show ?thesis
      using that assms(1) unfolding pat_replace_entry_def Let_def FF
      by (auto simp: bit_or_iff bit_and_iff bit_not_iff bit_push_bit_iff bit_ucast_iff bit_mask_iff
          dest: bit_imp_le_length)
  qed
  have k: "j * 8 + n < 64" using n assms(2) by simp
  show "bit (pat_entry (pat_replace_entry pat i t) j) n
      \<longleftrightarrow> bit (if i = j then t else pat_entry pat j) n"
  proof (cases "i = j")
    case True
    then show ?thesis using n b [OF k] by (simp add: pat_entry_bit)
  next
    case False
    then have "\<not> (i * 8 \<le> j * 8 + n \<and> j * 8 + n < i * 8 + 8)" using n by auto
    then have "bit (pat_replace_entry pat i t) (j * 8 + n) \<longleftrightarrow> bit pat (j * 8 + n)"
      unfolding b [OF k] by (simp only: if_False)
    then show ?thesis using False n by (simp add: pat_entry_bit)
  qed
qed

lemma decode_processor_support_pat:
  assumes "decode_processor_support a b c d pat = PAGING_STATUS_OK"
  shows "pat_ok (pat_replace_entry pat PAT_WRITE_COMBINING_ENTRY PAT_TYPE_WRITE_COMBINING)"
proof -
  have "pat_entry pat PAT_WRITE_BACK_ENTRY = PAT_TYPE_WRITE_BACK"
    "pat_entry pat PAT_DEVICE_ENTRY = PAT_TYPE_UNCACHEABLE"
    using assms unfolding decode_processor_support_def by (auto split: if_split_asm)
  then show ?thesis
    unfolding pat_ok_def
    by (simp add: pat_entry_replace PAT_WRITE_BACK_ENTRY_def PAT_WRITE_COMBINING_ENTRY_def
        PAT_DEVICE_ENTRY_def)
qed

subsection \<open>Leaves\<close>

text \<open>The value \<open>map_range\<close> stores, and what the processor reads back from it.\<close>

definition leaf_entry :: "u64 \<Rightarrow> u32 \<Rightarrow> nat \<Rightarrow> u64" where
  "leaf_entry pa permissions level =
     (let entry = pa OR permissions_to_flags permissions
      in if level > 1 then entry OR PAGE_HUGE else entry)"

definition leaf_ok :: "u64 \<Rightarrow> u32 \<Rightarrow> nat \<Rightarrow> bool" where
  "leaf_ok pa permissions level \<longleftrightarrow> validate_permissions permissions = PAGING_STATUS_OK
     \<and> 2 ^ page_shift level dvd unat pa \<and> unat pa < 2 ^ 52 \<and> (level = 1 \<or> level = 2)"

lemma bit_aligned:
  assumes "2 ^ k dvd unat (a :: 'a::len word)" and "bit a n" shows "k \<le> n"
proof (rule ccontr)
  assume "\<not> k \<le> n"
  then have "bit (take_bit k (unat a)) n" using assms(2) by (simp add: bit_take_bit_iff bit_unsigned_iff)
  moreover have "take_bit k (unat a) = 0" using assms(1) by (simp add: take_bit_eq_mod dvd_eq_mod_eq_0)
  ultimately show False by simp
qed

lemma bit_bounded:
  assumes "unat (a :: 'a::len word) < 2 ^ k" and "bit a n" shows "n < k"
proof -
  have "take_bit k (unat a) = unat a" using assms(1) by (simp add: take_bit_nat_eq_self)
  moreover have "bit (unat a) n" using assms(2) by (simp add: bit_unsigned_iff)
  ultimately show ?thesis by (metis bit_take_bit_iff)
qed

lemma leaf_ok_bits:
  assumes "leaf_ok pa p l" and "bit pa n" shows "page_shift l \<le> n \<and> n < 52"
  using assms bit_aligned [of "page_shift l" pa n] bit_bounded [of pa 52 n] by (simp add: leaf_ok_def)

lemma bit_leaf_entry:
  assumes "leaf_ok pa p l"
  shows "bit (leaf_entry pa p l) 0" and "bit (leaf_entry pa p l) 1 \<longleftrightarrow> bit p 0"
    and "bit (leaf_entry pa p l) (Suc 0) \<longleftrightarrow> bit p 0"
    and "\<not> bit (leaf_entry pa p l) 2" and "bit (leaf_entry pa p l) 7 \<longleftrightarrow> l \<noteq> 1"
    and "bit (leaf_entry pa p l) 63 \<longleftrightarrow> \<not> bit p 1"
    and "bit (leaf_entry pa p l) 3 \<longleftrightarrow> bit p 2 \<or> bit p 3" and "bit (leaf_entry pa p l) 4 \<longleftrightarrow> bit p 2"
    and "l = 2 \<Longrightarrow> \<not> bit (leaf_entry pa p l) 12"
  using leaf_ok_bits [OF assms] assms
  by (fastforce simp: leaf_entry_def Let_def bit_or_iff bit_permissions_to_flags bit_page_flags leaf_ok_def)+

lemma leaf_memory_type_entry:
  assumes "leaf_ok pa p l" and "pat_ok pat"
  shows "leaf_memory_type (leaf_entry pa p l) l pat =
     (if bit p 2 then PAGING_MEMORY_UNCACHEABLE
      else if bit p 3 then PAGING_MEMORY_WRITE_COMBINING else PAGING_MEMORY_WRITE_BACK)"
proof -
  have l: "l = 1 \<or> l = 2" and p: "\<not> (bit p 2 \<and> bit p 3)"
    using assms(1) by (auto simp: leaf_ok_def validate_permissions_OK)
  have "leaf_pat_index (leaf_entry pa p l) l = (if bit p 2 then 3 else if bit p 3 then 1 else 0)"
    using l p bit_leaf_entry [OF assms(1)] unfolding leaf_pat_index_def Let_def by auto
  then show ?thesis
    using assms(2) unfolding leaf_memory_type_def pat_ok_def decode_pat_type_def
    by (simp add: PAT_TYPE_WRITE_BACK_def PAT_TYPE_WRITE_COMBINING_def PAT_TYPE_UNCACHEABLE_def
        PAT_WRITE_BACK_ENTRY_def PAT_WRITE_COMBINING_ENTRY_def PAT_DEVICE_ENTRY_def)
qed

lemma leaf_physical:
  assumes "leaf_ok pa p l"
  shows "leaf_entry pa p l AND PAGE_FRAME_MASK AND NOT (level_page_size l - 1) = pa"
proof (rule bit_word_eqI)
  fix n
  have l: "l = 1 \<or> l = 2" using assms by (simp add: leaf_ok_def)
  show "bit (leaf_entry pa p l AND PAGE_FRAME_MASK AND NOT (level_page_size l - 1)) n \<longleftrightarrow> bit pa n"
    using leaf_ok_bits [OF assms, of n] l unfolding level_page_size_mask
    by (auto simp: leaf_entry_def Let_def bit_or_iff bit_and_iff bit_not_iff bit_mask_iff bit_frame_mask
        bit_permissions_to_flags bit_page_flags)
qed

end
