(* ===== verification/Page_Tables.thy ===== *)
theory Page_Tables
  imports Page_Bits
begin

text \<open>
  The four-level table hierarchy of \<open>src/kernel/paging.c\<close>: taking and returning table frames, the
  walk to an entry, mapping, unmapping and protecting ranges, translating an address and auditing
  the leaves.

  The memory of the tables is a function from the physical address of a table and an index below
  512 to the entry: every table is a page-aligned frame below the identity limit, so two tables
  never share a byte. \<open>INVLPG\<close> is recorded in a log. A loop
  \<open>for (offset = 0; offset < length; offset += page_size)\<close> runs over the list
  \<open>range_offsets length page_size\<close>; the operations check beforehand that the range does not wrap.
\<close>

subsection \<open>State\<close>

record page_hierarchy =
  h_root :: u64
  h_arena_base :: u64
  h_arena_capacity :: nat
  h_arena_used :: nat
  h_table_frames :: u64
  h_live :: bool

type_synonym tables = "u64 \<Rightarrow> nat \<Rightarrow> u64"

record paging_world =
  pw_tables :: tables
  pw_frames :: frame_state
  pw_invalidated :: "u64 list"

record paging_translation =
  tr_physical_address :: u64
  tr_permissions :: u32
  tr_memory_type :: paging_memory_type
  tr_level :: nat
  tr_user :: bool

record paging_audit =
  leaf_count :: nat
  huge_leaves :: nat
  writable_leaves :: nat
  executable_leaves :: nat
  write_execute_leaves :: nat
  user_leaves :: nat

definition table_write :: "tables \<Rightarrow> u64 \<Rightarrow> nat \<Rightarrow> u64 \<Rightarrow> tables" where
  "table_write T table index entry = T(table := (T table)(index := entry))"

abbreviation set_entry :: "u64 \<Rightarrow> nat \<Rightarrow> u64 \<Rightarrow> paging_world \<Rightarrow> paging_world" where
  "set_entry table index entry w \<equiv> w\<lparr>pw_tables := table_write (pw_tables w) table index entry\<rparr>"

definition zero_table :: "u64 \<Rightarrow> tables \<Rightarrow> tables" where
  "zero_table table T = T(table := (\<lambda>index. if index < PAGING_ENTRIES_PER_TABLE then 0 else T table index))"

subsection \<open>Table frames\<close>

text \<open>The output pointer is the second component: \<open>None\<close> when nothing was stored through it.\<close>

definition allocate_table ::
  "page_hierarchy \<Rightarrow> paging_world \<Rightarrow> paging_status \<times> u64 option \<times> page_hierarchy \<times> paging_world" where
  "allocate_table h w =
     (let taken =
        (if h_arena_capacity h \<noteq> 0 then
           if h_arena_used h = h_arena_capacity h then None
           else Some (h_arena_base h + of_nat (h_arena_used h) * PAGING_PAGE_SIZE,
                      h\<lparr>h_arena_used := h_arena_used h + 1\<rparr>, w)
         else
           (case frame_allocate (Some 0) (pw_frames w) of
              (status, frame, fs) \<Rightarrow>
                if status \<noteq> FRAME_STATUS_OK then None
                else Some (the frame, h, w\<lparr>pw_frames := fs\<rparr>)))
      in case taken of
           None \<Rightarrow> (PAGING_STATUS_OUT_OF_FRAMES, None, h, w)
         | Some (frame, h, w) \<Rightarrow>
             if frame \<ge> SAPOTE_EARLY_PHYSICAL_LIMIT
             then (PAGING_STATUS_PHYSICAL_TOO_WIDE, None, h, w)
             else (PAGING_STATUS_OK, Some frame,
                   h\<lparr>h_table_frames := h_table_frames h + 1\<rparr>,
                   w\<lparr>pw_tables := zero_table frame (pw_tables w)\<rparr>))"

definition release_table ::
  "page_hierarchy \<Rightarrow> u64 \<Rightarrow> paging_world \<Rightarrow> page_hierarchy \<times> paging_world" where
  "release_table h physical w =
     (h\<lparr>h_table_frames := h_table_frames h - 1\<rparr>,
      if h_arena_capacity h = 0
      then w\<lparr>pw_frames := snd (frame_release physical (pw_frames w))\<rparr> else w)"

definition invalidate :: "page_hierarchy \<Rightarrow> u64 \<Rightarrow> paging_world \<Rightarrow> paging_world" where
  "invalidate h virtual_address w =
     (if h_live h then w\<lparr>pw_invalidated := virtual_address # pw_invalidated w\<rparr> else w)"

subsection \<open>The walk to an entry\<close>

text \<open>A slot is a table and an index, the address of an entry.\<close>

fun entry_walk ::
  "nat \<Rightarrow> bool \<Rightarrow> u64 \<Rightarrow> nat \<Rightarrow> u64 \<Rightarrow> page_hierarchy \<Rightarrow> paging_world
     \<Rightarrow> paging_status \<times> (u64 \<times> nat) option \<times> page_hierarchy \<times> paging_world" where
  "entry_walk target_level create virtual_address level table h w =
     (if level > target_level then
        let index = table_index virtual_address level;
            slot = pw_tables w table index
        in if slot AND PAGE_PRESENT = 0 then
             if \<not> create then (PAGING_STATUS_NOT_MAPPED, None, h, w)
             else
               (case allocate_table h w of
                  (status, next_table, h1, w1) \<Rightarrow>
                    if status \<noteq> PAGING_STATUS_OK then (status, None, h1, w1)
                    else
                      entry_walk target_level create virtual_address (level - 1) (the next_table) h1
                        (set_entry table index
                           (the next_table OR PAGE_PRESENT OR PAGE_WRITABLE) w1))
           else if slot AND PAGE_HUGE \<noteq> 0 then (PAGING_STATUS_HUGE_PAGE_PRESENT, None, h, w)
           else
             entry_walk target_level create virtual_address (level - 1) (slot AND PAGE_FRAME_MASK) h w
      else (PAGING_STATUS_OK, Some (table, table_index virtual_address target_level), h, w))"

declare entry_walk.simps [simp del]

definition entry_for ::
  "page_hierarchy \<Rightarrow> u64 \<Rightarrow> nat \<Rightarrow> bool \<Rightarrow> paging_world
     \<Rightarrow> paging_status \<times> (u64 \<times> nat) option \<times> page_hierarchy \<times> paging_world" where
  "entry_for h virtual_address target_level create w =
     entry_walk target_level create virtual_address PAGING_LEVEL_COUNT (h_root h) h w"

subsection \<open>Giving tables back\<close>

definition table_is_empty :: "tables \<Rightarrow> u64 \<Rightarrow> bool" where
  "table_is_empty T table \<longleftrightarrow>
     list_all (\<lambda>index. T table index AND PAGE_PRESENT = 0) [0..<PAGING_ENTRIES_PER_TABLE]"

text \<open>The array \<open>tables\<close>, indexed by level, or \<open>None\<close> on the early return.\<close>

fun collect_tables :: "tables \<Rightarrow> u64 \<Rightarrow> nat \<Rightarrow> (nat \<Rightarrow> u64) \<Rightarrow> (nat \<Rightarrow> u64) option" where
  "collect_tables T virtual_address level path =
     (if level > 1 then
        let entry = T (path level) (table_index virtual_address level)
        in if entry AND PAGE_PRESENT = 0 \<or> entry AND PAGE_HUGE \<noteq> 0 then None
           else collect_tables T virtual_address (level - 1)
                  (path(level - 1 := entry AND PAGE_FRAME_MASK))
      else Some path)"

declare collect_tables.simps [simp del]

function release_empty ::
  "u64 \<Rightarrow> (nat \<Rightarrow> u64) \<Rightarrow> nat \<Rightarrow> page_hierarchy \<Rightarrow> paging_world \<Rightarrow> page_hierarchy \<times> paging_world" where
  "release_empty virtual_address path level h w =
     (if level < PAGING_LEVEL_COUNT then
        if \<not> table_is_empty (pw_tables w) (path level) then (h, w)
        else
          (case release_table h (path level)
                  (set_entry (path (level + 1)) (table_index virtual_address (level + 1)) 0 w) of
             (h', w') \<Rightarrow> release_empty virtual_address path (level + 1) h' w')
      else (h, w))"
  by pat_completeness auto
termination
  by (relation "measure (\<lambda>(va, path, level, h, w). PAGING_LEVEL_COUNT - level)") auto

declare release_empty.simps [simp del]

definition reclaim_empty_tables ::
  "page_hierarchy \<Rightarrow> u64 \<Rightarrow> paging_world \<Rightarrow> page_hierarchy \<times> paging_world" where
  "reclaim_empty_tables h virtual_address w =
     (case collect_tables (pw_tables w) virtual_address PAGING_LEVEL_COUNT
             ((\<lambda>_. 0)(PAGING_LEVEL_COUNT := h_root h)) of
        None \<Rightarrow> (h, w)
      | Some path \<Rightarrow> release_empty virtual_address path 1 h w)"

subsection \<open>Ranges\<close>

definition range_offsets :: "u64 \<Rightarrow> u64 \<Rightarrow> u64 list" where
  "range_offsets len page_size =
     map (\<lambda>k. of_nat k * page_size) [0..<(unat len + (unat page_size - 1)) div unat page_size]"

definition clear_page ::
  "u64 \<Rightarrow> nat \<Rightarrow> u64 \<Rightarrow> page_hierarchy \<times> paging_world \<Rightarrow> page_hierarchy \<times> paging_world" where
  "clear_page virtual_address level offset hw =
     (case hw of (h, w) \<Rightarrow>
        (case entry_for h (virtual_address + offset) level False w of
           (status, slot, h, w) \<Rightarrow>
             if status \<noteq> PAGING_STATUS_OK then (h, w)
             else
               (case the slot of (table, index) \<Rightarrow>
                  let w = invalidate h (virtual_address + offset) (set_entry table index 0 w)
                  in if level = 1 then reclaim_empty_tables h (virtual_address + offset) w
                     else (h, w))))"

definition clear_range ::
  "page_hierarchy \<Rightarrow> u64 \<Rightarrow> u64 \<Rightarrow> nat \<Rightarrow> paging_world \<Rightarrow> page_hierarchy \<times> paging_world" where
  "clear_range h virtual_address len level w =
     fold (clear_page virtual_address level) (range_offsets len (level_page_size level)) (h, w)"

text \<open>The first pass of \<open>map_range\<close>: every entry of the range must be absent.\<close>

primrec map_check :: "page_hierarchy \<Rightarrow> u64 \<Rightarrow> nat \<Rightarrow> paging_world \<Rightarrow> u64 list \<Rightarrow> paging_status" where
  "map_check h virtual_address level w [] = PAGING_STATUS_OK"
| "map_check h virtual_address level w (offset # offsets) =
     (case entry_for h (virtual_address + offset) level False w of
        (status, slot, _, _) \<Rightarrow>
          if status = PAGING_STATUS_OK then
            if pw_tables w (fst (the slot)) (snd (the slot)) AND PAGE_PRESENT \<noteq> 0
            then PAGING_STATUS_ALREADY_MAPPED
            else map_check h virtual_address level w offsets
          else if status \<noteq> PAGING_STATUS_NOT_MAPPED then status
          else map_check h virtual_address level w offsets)"

text \<open>The second pass, with the rollback of the pages mapped before a failure.\<close>

primrec map_pages ::
  "u64 \<Rightarrow> u64 \<Rightarrow> u32 \<Rightarrow> nat \<Rightarrow> page_hierarchy \<Rightarrow> paging_world \<Rightarrow> u64 list
     \<Rightarrow> paging_status \<times> page_hierarchy \<times> paging_world" where
  "map_pages virtual_address physical_address permissions level h w [] = (PAGING_STATUS_OK, h, w)"
| "map_pages virtual_address physical_address permissions level h w (offset # offsets) =
     (case entry_for h (virtual_address + offset) level True w of
        (status, slot, h, w) \<Rightarrow>
          if status \<noteq> PAGING_STATUS_OK then
            (case clear_range h virtual_address offset level w of (h, w) \<Rightarrow> (status, h, w))
          else
            map_pages virtual_address physical_address permissions level h
              (invalidate h (virtual_address + offset)
                 (set_entry (fst (the slot)) (snd (the slot))
                    (leaf_entry (physical_address + offset) permissions level) w)) offsets)"

definition map_range ::
  "page_hierarchy \<Rightarrow> u64 \<Rightarrow> u64 \<Rightarrow> u64 \<Rightarrow> u32 \<Rightarrow> nat \<Rightarrow> paging_world
     \<Rightarrow> paging_status \<times> page_hierarchy \<times> paging_world" where
  "map_range h virtual_address physical_address len permissions level w =
     (let page_size = level_page_size level;
          offsets = range_offsets len page_size;
          status = validate_permissions permissions
      in if status \<noteq> PAGING_STATUS_OK then (status, h, w)
         else let status = validate_virtual_range virtual_address len page_size in
         if status \<noteq> PAGING_STATUS_OK then (status, h, w)
         else let status = validate_physical_range physical_address len page_size in
         if status \<noteq> PAGING_STATUS_OK then (status, h, w)
         else let status = map_check h virtual_address level w offsets in
         if status \<noteq> PAGING_STATUS_OK then (status, h, w)
         else map_pages virtual_address physical_address permissions level h w offsets)"

primrec require_mapped_range :: "page_hierarchy \<Rightarrow> u64 \<Rightarrow> paging_world \<Rightarrow> u64 list \<Rightarrow> paging_status" where
  "require_mapped_range h virtual_address w [] = PAGING_STATUS_OK"
| "require_mapped_range h virtual_address w (offset # offsets) =
     (case entry_for h (virtual_address + offset) 1 False w of
        (status, slot, _, _) \<Rightarrow>
          if status \<noteq> PAGING_STATUS_OK then status
          else if pw_tables w (fst (the slot)) (snd (the slot)) AND PAGE_PRESENT = 0
          then PAGING_STATUS_NOT_MAPPED
          else require_mapped_range h virtual_address w offsets)"

definition unmap_range ::
  "page_hierarchy \<Rightarrow> u64 \<Rightarrow> u64 \<Rightarrow> paging_world \<Rightarrow> paging_status \<times> page_hierarchy \<times> paging_world" where
  "unmap_range h virtual_address len w =
     (let status = validate_virtual_range virtual_address len PAGING_PAGE_SIZE in
      if status \<noteq> PAGING_STATUS_OK then (status, h, w)
      else
        let status = require_mapped_range h virtual_address w (range_offsets len PAGING_PAGE_SIZE) in
        if status \<noteq> PAGING_STATUS_OK then (status, h, w)
        else (case clear_range h virtual_address len 1 w of (h, w) \<Rightarrow> (PAGING_STATUS_OK, h, w)))"

definition apply_permission ::
  "page_hierarchy \<Rightarrow> u64 \<Rightarrow> u64 \<Rightarrow> u64 \<Rightarrow> paging_world \<Rightarrow> paging_world" where
  "apply_permission h virtual_address flags offset w =
     (case entry_for h (virtual_address + offset) 1 False w of
        (status, slot, _, _) \<Rightarrow>
          if status \<noteq> PAGING_STATUS_OK then w
          else
            (case the slot of (table, index) \<Rightarrow>
               invalidate h (virtual_address + offset)
                 (set_entry table index ((pw_tables w table index AND PAGE_FRAME_MASK) OR flags) w)))"

definition apply_permissions ::
  "page_hierarchy \<Rightarrow> u64 \<Rightarrow> u64 \<Rightarrow> u32 \<Rightarrow> paging_world \<Rightarrow> paging_world" where
  "apply_permissions h virtual_address len permissions w =
     fold (apply_permission h virtual_address (permissions_to_flags permissions))
       (range_offsets len PAGING_PAGE_SIZE) w"

text \<open>The loop of \<open>protect_range\<close> that refuses a change of memory type.\<close>

primrec protect_check ::
  "page_hierarchy \<Rightarrow> u64 \<Rightarrow> paging_memory_type \<Rightarrow> u64 \<Rightarrow> paging_world \<Rightarrow> u64 list \<Rightarrow> paging_status" where
  "protect_check h virtual_address requested_type pat w [] = PAGING_STATUS_OK"
| "protect_check h virtual_address requested_type pat w (offset # offsets) =
     (case entry_for h (virtual_address + offset) 1 False w of
        (status, slot, _, _) \<Rightarrow>
          if status \<noteq> PAGING_STATUS_OK then status
          else if leaf_memory_type (pw_tables w (fst (the slot)) (snd (the slot))) 1 pat \<noteq> requested_type
          then PAGING_STATUS_MEMORY_TYPE_CHANGE_UNSAFE
          else protect_check h virtual_address requested_type pat w offsets)"

definition protect_range ::
  "page_hierarchy \<Rightarrow> u64 \<Rightarrow> u64 \<Rightarrow> u32 \<Rightarrow> u64 \<Rightarrow> paging_world \<Rightarrow> paging_status \<times> paging_world" where
  "protect_range h virtual_address len permissions pat w =
     (let status = validate_permissions permissions in
      if status \<noteq> PAGING_STATUS_OK then (status, w)
      else
        let requested_type = leaf_memory_type (permissions_to_flags permissions) 1 pat;
            status = validate_virtual_range virtual_address len PAGING_PAGE_SIZE;
            offsets = range_offsets len PAGING_PAGE_SIZE
        in if status \<noteq> PAGING_STATUS_OK then (status, w)
           else let status = require_mapped_range h virtual_address w offsets in
           if status \<noteq> PAGING_STATUS_OK then (status, w)
           else let status = protect_check h virtual_address requested_type pat w offsets in
           if status \<noteq> PAGING_STATUS_OK then (status, w)
           else (PAGING_STATUS_OK, apply_permissions h virtual_address len permissions w))"

subsection \<open>Translation\<close>

definition fill_translation :: "u64 \<Rightarrow> u64 \<Rightarrow> nat \<Rightarrow> bool \<Rightarrow> bool \<Rightarrow> bool \<Rightarrow> u64 \<Rightarrow> paging_translation" where
  "fill_translation entry virtual_address level writable executable user pat =
     (let page_size = level_page_size level;
          memory_type = leaf_memory_type entry level pat;
          permissions = PAGING_READ;
          permissions = (if writable then permissions OR PAGING_WRITE else permissions);
          permissions = (if executable then permissions OR PAGING_EXECUTE else permissions)
      in \<lparr>tr_physical_address = (entry AND PAGE_FRAME_MASK AND NOT (page_size - 1))
             OR (virtual_address AND (page_size - 1)),
          tr_permissions = memory_type_permissions memory_type permissions,
          tr_memory_type = memory_type, tr_level = level, tr_user = user\<rparr>)"

definition no_translation :: paging_translation where
  "no_translation = \<lparr>tr_physical_address = 0, tr_permissions = PAGING_READ,
     tr_memory_type = PAGING_MEMORY_INVALID, tr_level = 0, tr_user = False\<rparr>"

fun translate_walk ::
  "tables \<Rightarrow> u64 \<Rightarrow> u64 \<Rightarrow> nat \<Rightarrow> u64 \<Rightarrow> bool \<Rightarrow> bool \<Rightarrow> bool \<Rightarrow> paging_status \<times> paging_translation" where
  "translate_walk T pat virtual_address level table writable executable user =
     (let entry = T table (table_index virtual_address level) in
      if entry AND PAGE_PRESENT = 0 then (PAGING_STATUS_NOT_MAPPED, no_translation)
      else
        let writable = (writable \<and> entry AND PAGE_WRITABLE \<noteq> 0);
            executable = (executable \<and> entry AND PAGE_NO_EXECUTE = 0);
            user = (user \<and> entry AND PAGE_USER \<noteq> 0)
        in if level > 1 \<and> entry AND PAGE_HUGE = 0
           then translate_walk T pat virtual_address (level - 1) (entry AND PAGE_FRAME_MASK)
                  writable executable user
           else (PAGING_STATUS_OK,
                 fill_translation entry virtual_address level writable executable user pat))"

declare translate_walk.simps [simp del]

definition translate_address ::
  "page_hierarchy \<Rightarrow> u64 \<Rightarrow> u64 \<Rightarrow> paging_world \<Rightarrow> paging_status \<times> paging_translation" where
  "translate_address h virtual_address pat w =
     (if \<not> address_is_canonical virtual_address
      then (PAGING_STATUS_NONCANONICAL_ADDRESS, no_translation)
      else translate_walk (pw_tables w) pat virtual_address PAGING_LEVEL_COUNT (h_root h) True True True)"

subsection \<open>Audit\<close>

definition audit_leaf :: "nat \<Rightarrow> bool \<Rightarrow> bool \<Rightarrow> bool \<Rightarrow> paging_audit \<Rightarrow> paging_audit" where
  "audit_leaf level writable executable user audit =
     \<lparr>leaf_count = leaf_count audit + 1,
      huge_leaves = (if level > 1 then huge_leaves audit + 1 else huge_leaves audit),
      writable_leaves = (if writable then writable_leaves audit + 1 else writable_leaves audit),
      executable_leaves = (if executable then executable_leaves audit + 1 else executable_leaves audit),
      write_execute_leaves = (if writable \<and> executable then write_execute_leaves audit + 1
                              else write_execute_leaves audit),
      user_leaves = (if user then user_leaves audit + 1 else user_leaves audit)\<rparr>"

text \<open>The recursion over the levels; a table has level \<open>Suc l\<close>.\<close>

primrec audit_table ::
  "nat \<Rightarrow> tables \<Rightarrow> u64 \<Rightarrow> bool \<Rightarrow> bool \<Rightarrow> bool \<Rightarrow> paging_audit \<Rightarrow> paging_audit" where
  "audit_table 0 T table writable executable user audit = audit"
| "audit_table (Suc l) T table writable executable user audit =
     fold (\<lambda>index audit.
        let entry = T table index in
        if entry AND PAGE_PRESENT = 0 then audit
        else
          let leaf_writable = (writable \<and> entry AND PAGE_WRITABLE \<noteq> 0);
              leaf_executable = (executable \<and> entry AND PAGE_NO_EXECUTE = 0);
              leaf_user = (user \<and> entry AND PAGE_USER \<noteq> 0)
          in if Suc l > 1 \<and> entry AND PAGE_HUGE = 0
             then audit_table l T (entry AND PAGE_FRAME_MASK) leaf_writable leaf_executable leaf_user audit
             else audit_leaf (Suc l) leaf_writable leaf_executable leaf_user audit)
       [0..<PAGING_ENTRIES_PER_TABLE] audit"

definition zero_audit :: paging_audit where
  "zero_audit = \<lparr>leaf_count = 0, huge_leaves = 0, writable_leaves = 0, executable_leaves = 0,
     write_execute_leaves = 0, user_leaves = 0\<rparr>"

definition audit_hierarchy :: "page_hierarchy \<Rightarrow> paging_world \<Rightarrow> paging_audit" where
  "audit_hierarchy h w =
     audit_table PAGING_LEVEL_COUNT (pw_tables w) (h_root h) True True True zero_audit"

end
