(* ===== verification/Page_Walk.thy ===== *)
theory Page_Walk
  imports Page_Tables "HOL-Library.Sublist"
begin

text \<open>
  The shape of the table hierarchy and the walk through it: tables named by the path of indices that
  leads to them, the invariant that distinct paths lead to distinct tables, the supply of table
  frames (from an arena or from the frame allocator) as a resource source, and what each kind of
  slot write does to every translation. The specification of \<open>entry_for\<close> and of
  \<open>reclaim_empty_tables\<close> rests on these.
\<close>

subsection \<open>Paths\<close>

text \<open>
  A table is named by the indices that lead to it from the root. \<open>tab T root p\<close> follows them as the
  walk does; \<open>next_table\<close> is the link an entry holds.
\<close>

definition next_table :: "u64 \<Rightarrow> u64 option" where
  "next_table e = (if bit e 0 \<and> \<not> bit e 7 then Some (e AND PAGE_FRAME_MASK) else None)"

primrec tab :: "tables \<Rightarrow> u64 \<Rightarrow> nat list \<Rightarrow> u64 option" where
  "tab T t [] = Some t"
| "tab T t (i # p) = (case next_table (T t i) of None \<Rightarrow> None | Some u \<Rightarrow> tab T u p)"

lemma tab_append: "tab T t (p @ q) = (case tab T t p of None \<Rightarrow> None | Some u \<Rightarrow> tab T u q)"
  by (induction p arbitrary: t) (auto split: option.split)

lemma tab_snoc: "tab T t (p @ [i]) = (case tab T t p of None \<Rightarrow> None | Some u \<Rightarrow> next_table (T u i))"
  by (simp add: tab_append split: option.split)

lemma tab_through: "tab T t p = Some u \<Longrightarrow> tab T t (p @ q) = tab T u q"
  and tab_blocked: "tab T t p = None \<Longrightarrow> tab T t (p @ q) = None"
  by (simp_all add: tab_append)

text \<open>A walk depends only on the links it follows.\<close>

lemma tab_agree:
  assumes "\<And>q i u. prefix (q @ [i]) p \<Longrightarrow> tab T t q = Some u
             \<Longrightarrow> next_table (T' u i) = next_table (T u i)"
  shows "tab T' t p = tab T t p"
  using assms
proof (induction p arbitrary: t)
  case (Cons i p)
  have first: "next_table (T' t i) = next_table (T t i)"
    using Cons.prems [of "[]" i t] by simp
  show ?case
  proof (cases "next_table (T t i)")
    case (Some u)
    have "tab T' u p = tab T u p"
    proof (rule Cons.IH)
      fix q j v assume "prefix (q @ [j]) p" and "tab T u q = Some v"
      then show "next_table (T' v j) = next_table (T v j)"
        using Cons.prems [of "i # q" j v] Some by simp
    qed
    then show ?thesis using first Some by simp
  qed (simp add: first)
qed simp

definition table_path :: "nat list \<Rightarrow> bool" where
  "table_path p \<longleftrightarrow> length p \<le> 3 \<and> (\<forall>i \<in> set p. i < 512)"

lemma table_path_prefix: "table_path p \<Longrightarrow> prefix q p \<Longrightarrow> table_path q"
  unfolding table_path_def by (auto dest: set_mono_prefix prefix_length_le)

lemma table_path_Nil [simp]: "table_path []"
  by (simp add: table_path_def)

lemma table_path_snoc: "table_path (p @ [i]) \<longleftrightarrow> table_path p \<and> length p \<le> 2 \<and> i < 512"
  by (auto simp: table_path_def)

definition reach :: "tables \<Rightarrow> u64 \<Rightarrow> u64 set" where
  "reach T root = {t. \<exists>p. table_path p \<and> tab T root p = Some t}"

text \<open>The shape every operation keeps: distinct paths lead to distinct tables, and a link never
  takes a permission away.\<close>

definition tree :: "tables \<Rightarrow> u64 \<Rightarrow> bool" where
  "tree T root \<longleftrightarrow>
     (\<forall>p q t. table_path p \<longrightarrow> table_path q \<longrightarrow> tab T root p = Some t \<longrightarrow> tab T root q = Some t \<longrightarrow> p = q)"

definition links_open :: "tables \<Rightarrow> u64 \<Rightarrow> bool" where
  "links_open T root \<longleftrightarrow>
     (\<forall>p t i. table_path (p @ [i]) \<longrightarrow> tab T root p = Some t \<longrightarrow> next_table (T t i) \<noteq> None
        \<longrightarrow> bit (T t i) 1 \<and> \<not> bit (T t i) 63)"

lemma treeD: "tree T root \<Longrightarrow> table_path p \<Longrightarrow> table_path q \<Longrightarrow> tab T root p = Some t
   \<Longrightarrow> tab T root q = Some t \<Longrightarrow> p = q"
  by (simp add: tree_def)

lemma reachI: "table_path p \<Longrightarrow> tab T root p = Some t \<Longrightarrow> t \<in> reach T root"
  by (auto simp: reach_def)

lemma root_reach [simp]: "root \<in> reach T root"
  by (rule reachI [of "[]"]) simp_all

subsection \<open>Three ways to write a slot\<close>

lemma table_write_same [simp]: "table_write T t i e t i = e"
  and table_write_other: "(u, j) \<noteq> (t, i) \<Longrightarrow> table_write T t i e u j = T u j"
  by (auto simp: table_write_def)

text \<open>
  First, a write that changes no link that a table path follows: both entries are leaves, or the
  slot is in a bottom table.
\<close>

lemma tab_write_leaf:
  assumes "tree T root" and "table_path p0" and "tab T root p0 = Some t0"
    and "length p0 = 3 \<or> next_table (T t0 i0) = None \<and> next_table e = None"
    and "table_path p"
  shows "tab (table_write T t0 i0 e) root p = tab T root p"
proof (rule tab_agree)
  fix q i u assume q: "prefix (q @ [i]) p" "tab T root q = Some u"
  have tp: "table_path (q @ [i])" using q(1) assms(5) table_path_prefix by blast
  show "next_table (table_write T t0 i0 e u i) = next_table (T u i)"
  proof (cases "(u, i) = (t0, i0)")
    case True
    then have "q = p0" using treeD [OF assms(1) _ assms(2) _ assms(3)] tp q(2)
      by (auto simp: table_path_snoc)
    then have "length p0 \<noteq> 3" using tp by (auto simp: table_path_snoc)
    then show ?thesis using assms(4) True by simp
  qed (simp add: table_write_other)
qed

lemma shape_write_leaf:
  assumes "tree T root" and "links_open T root" and "table_path p0" and "tab T root p0 = Some t0"
    and "length p0 = 3 \<or> next_table (T t0 i0) = None \<and> next_table e = None"
  defines "T' \<equiv> table_write T t0 i0 e"
  shows "tree T' root" and "links_open T' root" and "reach T' root = reach T root"
proof -
  note same = tab_write_leaf [OF assms(1,3,4,5), folded T'_def]
  show "tree T' root" using assms(1) unfolding tree_def by (simp add: same)
  show "reach T' root = reach T root" unfolding reach_def using same by auto
  show "links_open T' root"
    unfolding links_open_def
  proof (intro allI impI)
    fix p t i assume p: "table_path (p @ [i])" "tab T' root p = Some t" "next_table (T' t i) \<noteq> None"
    have pt: "tab T root p = Some t" using p(1,2) same by (simp add: table_path_snoc)
    have "(t, i) \<noteq> (t0, i0)"
    proof
      assume eq: "(t, i) = (t0, i0)"
      then have "p = p0" using treeD [OF assms(1) _ assms(3) pt] assms(4) p(1) by (simp add: table_path_snoc)
      then have "length p0 \<noteq> 3" using p(1) by (auto simp: table_path_snoc)
      then show False using p(3) eq assms(5) by (simp add: T'_def)
    qed
    then show "bit (T' t i) 1 \<and> \<not> bit (T' t i) 63"
      using assms(2) p(1,3) pt unfolding links_open_def T'_def by (auto simp: table_write_other)
  qed
qed

text \<open>Second, linking a fresh empty table into an absent slot.\<close>

definition empty_table :: "tables \<Rightarrow> u64 \<Rightarrow> bool" where
  "empty_table T t \<longleftrightarrow> (\<forall>i < 512. \<not> bit (T t i) 0)"

lemma empty_next: "empty_table T t \<Longrightarrow> i < 512 \<Longrightarrow> next_table (T t i) = None"
  by (simp add: empty_table_def next_table_def)

lemma tab_write_link:
  assumes "tree T root" and p0: "table_path p0" "tab T root p0 = Some t0" "length p0 \<le> 2"
    and "i0 < 512" and "next_table (T t0 i0) = None"
    and new: "n \<notin> reach T root" "empty_table T' n" "next_table (T' t0 i0) = Some n"
    and other: "\<forall>u i. u \<noteq> n \<longrightarrow> (u, i) \<noteq> (t0, i0) \<longrightarrow> T' u i = T u i"
    and "table_path p"
  shows "tab T' root p = (if p = p0 @ [i0] then Some n else tab T root p)"
proof -
  have agree: "tab T' root q = tab T root q" if "table_path q" "\<not> prefix (p0 @ [i0]) q" for q
  proof (rule tab_agree)
    fix r i u assume r: "prefix (r @ [i]) q" "tab T root r = Some u"
    have tp: "table_path (r @ [i])" using r(1) that(1) table_path_prefix by blast
    then have "u \<noteq> n" using new(1) reachI [OF _ r(2)] by (auto simp: table_path_snoc)
    moreover have "(u, i) \<noteq> (t0, i0)"
    proof
      assume "(u, i) = (t0, i0)"
      then have "r = p0" using treeD [OF assms(1) _ p0(1) r(2)] p0(2) tp by (simp add: table_path_snoc)
      then show False using r(1) that(2) \<open>(u, i) = (t0, i0)\<close> by simp
    qed
    ultimately show "next_table (T' u i) = next_table (T u i)" by (simp add: other)
  qed
  have at: "tab T' root (p0 @ [i0]) = Some n"
    using agree [OF p0(1)] p0(2) new(3) by (simp add: tab_snoc)
  have was: "tab T root (p0 @ [i0]) = None" using p0(2) assms(6) by (simp add: tab_snoc)
  show ?thesis
  proof (cases "prefix (p0 @ [i0]) p")
    case False
    then show ?thesis using agree [OF assms(11)] by auto
  next
    case True
    then obtain r where r: "p = (p0 @ [i0]) @ r" by (auto simp: prefix_def)
    show ?thesis
    proof (cases r)
      case Nil
      then show ?thesis using r at by simp
    next
      case (Cons j r')
      then have "j < 512" using assms(11) r by (simp add: table_path_def)
      then have "tab T' root p = None"
        unfolding r tab_through [OF at] Cons using empty_next [OF new(2)] by simp
      moreover have "tab T root p = None" unfolding r by (rule tab_blocked [OF was])
      ultimately show ?thesis using r Cons by simp
    qed
  qed
qed

lemma shape_write_link:
  assumes "tree T root" and "links_open T root"
    and p0: "table_path p0" "tab T root p0 = Some t0" "length p0 \<le> 2"
    and "i0 < 512" and "next_table (T t0 i0) = None"
    and new: "n \<notin> reach T root" "empty_table T' n" "next_table (T' t0 i0) = Some n"
      "bit (T' t0 i0) 1" "\<not> bit (T' t0 i0) 63"
    and other: "\<forall>u i. u \<noteq> n \<longrightarrow> (u, i) \<noteq> (t0, i0) \<longrightarrow> T' u i = T u i"
  shows "tree T' root" and "links_open T' root" and "reach T' root = insert n (reach T root)"
proof -
  note t = tab_write_link [OF assms(1) p0 assms(6,7) new(1,2,3) other]
  have path: "table_path (p0 @ [i0])" using p0 assms(6) by (simp add: table_path_snoc)
  have fresh: "tab T root p \<noteq> Some n" if "table_path p" for p
    using new(1) reachI that by blast
  show "tree T' root"
    unfolding tree_def
  proof (intro allI impI)
    fix p q v assume tp: "table_path p" "table_path q"
      and "tab T' root p = Some v" "tab T' root q = Some v"
    then show "p = q"
      using treeD [OF assms(1) tp, of v] fresh [OF tp(1)] fresh [OF tp(2)]
      unfolding t [OF tp(1)] t [OF tp(2)] by (auto split: if_split_asm)
  qed
  show "reach T' root = insert n (reach T root)"
  proof (intro set_eqI iffI)
    fix v assume "v \<in> reach T' root"
    then show "v \<in> insert n (reach T root)" by (auto simp: reach_def t split: if_split_asm)
  next
    fix v assume "v \<in> insert n (reach T root)"
    then consider "v = n" | p where "table_path p" "tab T root p = Some v" by (auto simp: reach_def)
    then show "v \<in> reach T' root"
    proof cases
      case 1
      then show ?thesis using path t [OF path] by (intro reachI [OF path]) simp
    next
      case 2
      have "p \<noteq> p0 @ [i0]" using 2(2) p0(2) assms(7) by (auto simp: tab_snoc)
      then show ?thesis using 2 t [OF 2(1)] by (intro reachI [OF 2(1)]) simp
    qed
  qed
  show "links_open T' root"
    unfolding links_open_def
  proof (intro allI impI)
    fix p v i assume p: "table_path (p @ [i])" "tab T' root p = Some v" "next_table (T' v i) \<noteq> None"
    have tp: "table_path p" "i < 512" using p(1) by (auto simp: table_path_snoc)
    have "v \<noteq> n" using p(3) empty_next [OF new(2) tp(2)] by auto
    then have pv: "tab T root p = Some v" using p(2) t [OF tp(1)] by (auto split: if_split_asm)
    show "bit (T' v i) 1 \<and> \<not> bit (T' v i) 63"
    proof (cases "(v, i) = (t0, i0)")
      case True
      then show ?thesis using new(4,5) by simp
    next
      case False
      then have "T' v i = T v i" using other \<open>v \<noteq> n\<close> by blast
      then show ?thesis using assms(2) p(1,3) pv unfolding links_open_def by auto
    qed
  qed
qed

text \<open>Third, clearing the link to an empty table.\<close>

lemma tab_write_unlink:
  assumes "tree T root" and p0: "table_path p0" "tab T root p0 = Some t0" "length p0 \<le> 2"
    and "i0 < 512" and link: "next_table (T t0 i0) = Some c" and "empty_table T c"
    and "table_path p"
  shows "tab (table_write T t0 i0 0) root p = (if p = p0 @ [i0] then None else tab T root p)"
proof -
  let ?T = "table_write T t0 i0 0"
  have zero: "next_table 0 = None" by (simp add: next_table_def)
  have agree: "tab ?T root q = tab T root q" if "table_path q" "\<not> prefix (p0 @ [i0]) q" for q
  proof (rule tab_agree)
    fix r i u assume r: "prefix (r @ [i]) q" "tab T root r = Some u"
    have tp: "table_path (r @ [i])" using r(1) that(1) table_path_prefix by blast
    have "(u, i) \<noteq> (t0, i0)"
    proof
      assume "(u, i) = (t0, i0)"
      then have "r = p0" using treeD [OF assms(1) _ p0(1) r(2)] p0(2) tp by (simp add: table_path_snoc)
      then show False using r(1) that(2) \<open>(u, i) = (t0, i0)\<close> by simp
    qed
    then show "next_table (?T u i) = next_table (T u i)" by (simp add: table_write_other)
  qed
  have at: "tab ?T root (p0 @ [i0]) = None"
    using agree [OF p0(1)] p0(2) zero by (simp add: tab_snoc)
  have was: "tab T root (p0 @ [i0]) = Some c" using p0(2) link by (simp add: tab_snoc)
  show ?thesis
  proof (cases "prefix (p0 @ [i0]) p")
    case False
    then show ?thesis using agree [OF assms(8)] by auto
  next
    case True
    then obtain r where r: "p = (p0 @ [i0]) @ r" by (auto simp: prefix_def)
    show ?thesis
    proof (cases r)
      case Nil
      then show ?thesis using r at by simp
    next
      case (Cons j r')
      then have "j < 512" using assms(8) r by (simp add: table_path_def)
      then have "tab T root p = None"
        unfolding r tab_through [OF was] Cons using empty_next [OF assms(7)] by simp
      moreover have "tab ?T root p = None" unfolding r by (rule tab_blocked [OF at])
      ultimately show ?thesis by simp
    qed
  qed
qed

lemma shape_write_unlink:
  assumes "tree T root" and "links_open T root"
    and p0: "table_path p0" "tab T root p0 = Some t0" "length p0 \<le> 2"
    and "i0 < 512" and link: "next_table (T t0 i0) = Some c" and "empty_table T c"
  defines "T' \<equiv> table_write T t0 i0 0"
  shows "tree T' root" and "links_open T' root" and "reach T' root = reach T root - {c}"
proof -
  note t = tab_write_unlink [OF assms(1) p0 assms(6) link assms(8), folded T'_def]
  have path: "table_path (p0 @ [i0])" using p0 assms(6) by (simp add: table_path_snoc)
  have c: "tab T root (p0 @ [i0]) = Some c" using p0(2) link by (simp add: tab_snoc)
  show "tree T' root" using assms(1) unfolding tree_def by (simp add: t)
  show "reach T' root = reach T root - {c}"
  proof (intro set_eqI iffI)
    fix v assume "v \<in> reach T' root"
    then obtain p where "table_path p" "tab T' root p = Some v" by (auto simp: reach_def)
    then have p: "table_path p" "p \<noteq> p0 @ [i0]" "tab T root p = Some v"
      by (auto simp: t split: if_split_asm)
    then have "v \<noteq> c" using treeD [OF assms(1) p(1) path p(3)] c by auto
    then show "v \<in> reach T root - {c}" using reachI p by auto
  next
    fix v assume "v \<in> reach T root - {c}"
    then obtain p where p: "table_path p" "tab T root p = Some v" "v \<noteq> c" by (auto simp: reach_def)
    then have "p \<noteq> p0 @ [i0]" using c by auto
    then show "v \<in> reach T' root" using p by (intro reachI [OF p(1)]) (simp add: t)
  qed
  show "links_open T' root"
    unfolding links_open_def
  proof (intro allI impI)
    fix p v i assume p: "table_path (p @ [i])" "tab T' root p = Some v" "next_table (T' v i) \<noteq> None"
    have pv: "tab T root p = Some v" using p(1,2) by (auto simp: t table_path_snoc split: if_split_asm)
    have "(v, i) \<noteq> (t0, i0)" using p(3) by (auto simp: T'_def next_table_def)
    then show "bit (T' v i) 1 \<and> \<not> bit (T' v i) 63"
      using assms(2) p(1,3) pv unfolding links_open_def T'_def by (auto simp: table_write_other)
  qed
qed

subsection \<open>The path of an address\<close>

text \<open>\<open>vpath va l k\<close> leads from a table of level \<open>l\<close> to the table of level \<open>k\<close> for the address.\<close>

definition vpath :: "u64 \<Rightarrow> nat \<Rightarrow> nat \<Rightarrow> nat list" where
  "vpath va l k = map (table_index va) (rev [Suc k..<Suc l])"

lemma vpath_same [simp]: "vpath va l l = []"
  by (simp add: vpath_def)

lemma length_vpath [simp]: "length (vpath va l k) = l - k"
  by (simp add: vpath_def del: upt_Suc)

lemma vpath_Cons: "k < l \<Longrightarrow> vpath va l k = table_index va l # vpath va (l - 1) k"
  by (cases l) (auto simp: vpath_def)

lemma vpath_snoc: "1 \<le> k \<Longrightarrow> k \<le> l \<Longrightarrow> vpath va l (k - 1) = vpath va l k @ [table_index va k]"
  by (simp add: vpath_def upt_conv_Cons del: upt_Suc)

lemma table_path_vpath: "1 \<le> k \<Longrightarrow> table_path (vpath va 4 k)"
  by (auto simp: table_path_def vpath_def)

text \<open>Two addresses use the same entry at a level when they agree on all indices from there up.\<close>

definition same_slot :: "nat \<Rightarrow> u64 \<Rightarrow> u64 \<Rightarrow> bool" where
  "same_slot k va va' \<longleftrightarrow> (\<forall>j. k \<le> j \<and> j \<le> 4 \<longrightarrow> table_index va j = table_index va' j)"

lemma same_slot_refl [simp]: "same_slot k va va"
  by (simp add: same_slot_def)

lemma same_slot_mono: "same_slot k va va' \<Longrightarrow> k \<le> j \<Longrightarrow> same_slot j va va'"
  by (simp add: same_slot_def)

lemma same_slot_page:
  assumes "address_is_canonical va" and "address_is_canonical va'" and "1 \<le> k" and "k \<le> 4"
  shows "same_slot k va va' \<longleftrightarrow> unat va div 2 ^ page_shift k = unat va' div 2 ^ page_shift k"
  unfolding same_slot_def by (rule same_page_iff [OF assms])

lemma vpath_eq_iff:
  "k \<le> 4 \<Longrightarrow> vpath va 4 k = vpath va' 4 k \<longleftrightarrow> same_slot (Suc k) va va'"
  by (auto simp: vpath_def same_slot_def)

lemma slot_unique:
  assumes "tree T root" and "tab T root (vpath va 4 k) = Some t" and "tab T root (vpath va0 4 k0) = Some t"
    and "table_index va k = table_index va0 k0" and "1 \<le> k" "k \<le> 4" "1 \<le> k0" "k0 \<le> 4"
  shows "k = k0 \<and> same_slot k0 va va0"
proof -
  have eq: "vpath va 4 k = vpath va0 4 k0"
    using treeD [OF assms(1) table_path_vpath table_path_vpath assms(2,3)] assms(5,7) by blast
  then have "length (vpath va 4 k) = length (vpath va0 4 k0)" by simp
  then have k: "k = k0" using assms(6,8) by simp
  then have "same_slot (Suc k0) va va0" using eq assms(8) vpath_eq_iff by blast
  then have "same_slot k0 va va0"
    using assms(4) k unfolding same_slot_def by (metis Suc_leI le_neq_implies_less)
  then show ?thesis using k by blast
qed

subsection \<open>What a translation reads\<close>

lemma translate_step:
  "translate_walk T pat va l t w x u =
     (let e = T t (table_index va l) in
      if \<not> bit e 0 then (PAGING_STATUS_NOT_MAPPED, no_translation)
      else if 1 < l \<and> \<not> bit e 7
      then translate_walk T pat va (l - 1) (e AND PAGE_FRAME_MASK) (w \<and> bit e 1) (x \<and> \<not> bit e 63) (u \<and> bit e 2)
      else (PAGING_STATUS_OK,
            fill_translation e va l (w \<and> bit e 1) (x \<and> \<not> bit e 63) (u \<and> bit e 2) pat))"
  by (subst translate_walk.simps) (simp add: Let_def)

lemma translate_agree:
  assumes "1 \<le> l"
    and "\<And>k t. 1 \<le> k \<Longrightarrow> k \<le> l \<Longrightarrow> tab T tb (vpath va l k) = Some t
           \<Longrightarrow> T' t (table_index va k) = T t (table_index va k)"
  shows "translate_walk T' pat va l tb w x u = translate_walk T pat va l tb w x u"
  using assms
proof (induction l arbitrary: tb w x u rule: nat_induct_at_least)
  case base
  have "T' tb (table_index va 1) = T tb (table_index va 1)" using base [of 1] by simp
  then show ?case
    by (simp add: translate_step [of T pat va "Suc 0"] translate_step [of T' pat va "Suc 0"] Let_def)
next
  case (Suc l)
  let ?e = "T tb (table_index va (Suc l))"
  have e: "T' tb (table_index va (Suc l)) = ?e" using Suc.prems [of "Suc l"] by simp
  show ?case
  proof (cases "bit ?e 0 \<and> \<not> bit ?e 7")
    case True
    have "translate_walk T' pat va l (?e AND PAGE_FRAME_MASK) w x u
        = translate_walk T pat va l (?e AND PAGE_FRAME_MASK) w x u" for w x u
    proof (rule Suc.IH)
      fix k t assume "1 \<le> k" "k \<le> l" "tab T (?e AND PAGE_FRAME_MASK) (vpath va l k) = Some t"
      then show "T' t (table_index va k) = T t (table_index va k)"
        using Suc.prems [of k t] True by (simp add: vpath_Cons next_table_def)
    qed
    then show ?thesis using True Suc.hyps e by (simp add: translate_step [of _ _ _ "Suc l"] Let_def)
  next
    case False
    then show ?thesis using e by (auto simp: translate_step [of _ _ _ "Suc l"] Let_def)
  qed
qed

text \<open>Induction along the path down to level \<open>k\<close>: one step.\<close>

lemma tab_vpath_step:
  assumes "k < l" and "tab T tb (vpath va l k) = Some t"
  shows "bit (T tb (table_index va l)) 0" and "\<not> bit (T tb (table_index va l)) 7"
    and "tab T (T tb (table_index va l) AND PAGE_FRAME_MASK) (vpath va (l - 1) k) = Some t"
  using assms by (auto simp: vpath_Cons next_table_def split: if_split_asm)

lemma translate_absent:
  assumes "1 \<le> k" and "k \<le> l" and "tab T tb (vpath va l k) = Some t" and "\<not> bit (T t (table_index va k)) 0"
  shows "translate_walk T pat va l tb w x u = (PAGING_STATUS_NOT_MAPPED, no_translation)"
  using assms(2,3)
proof (induction l arbitrary: tb w x u rule: dec_induct)
  case base
  then show ?case using assms(4) by (simp add: translate_step [of _ _ _ k] Let_def)
next
  case (step l)
  note s = tab_vpath_step [OF _ step.prems, simplified le_imp_less_Suc [OF step.hyps(1)] simp_thms]
  have "1 \<le> l" using step.hyps(1) assms(1) by simp
  then show ?case using s step.IH by (simp add: translate_step [of _ _ _ "Suc l"] Let_def)
qed

lemma translate_leaf:
  assumes "1 \<le> k" and "k \<le> l" and "tab T tb (vpath va l k) = Some t"
    and "bit (T t (table_index va k)) 0" and "k = 1 \<or> bit (T t (table_index va k)) 7"
    and "\<forall>j t'. k < j \<and> j \<le> l \<and> tab T tb (vpath va l j) = Some t'
       \<longrightarrow> bit (T t' (table_index va j)) 1 \<and> \<not> bit (T t' (table_index va j)) 63"
  shows "\<exists>u'. translate_walk T pat va l tb w x u = (PAGING_STATUS_OK,
       fill_translation (T t (table_index va k)) va k (w \<and> bit (T t (table_index va k)) 1)
         (x \<and> \<not> bit (T t (table_index va k)) 63) (u' \<and> bit (T t (table_index va k)) 2) pat)"
  using assms(2,3,6)
proof (induction l arbitrary: tb w x u rule: dec_induct)
  case base
  then show ?case using assms(1,4,5) by (auto simp: translate_step [of _ _ _ k] Let_def)
next
  case (step l)
  have kl: "k < Suc l" using step.hyps(1) by simp
  note s = tab_vpath_step [OF kl step.prems(1)]
  let ?e = "T tb (table_index va (Suc l))"
  have o: "bit ?e 1 \<and> \<not> bit ?e 63" using step.prems(2) kl by (metis le_refl tab.simps(1) vpath_same)
  have "\<exists>u'. translate_walk T pat va l (?e AND PAGE_FRAME_MASK) w x (u \<and> bit ?e 2) = (PAGING_STATUS_OK,
       fill_translation (T t (table_index va k)) va k (w \<and> bit (T t (table_index va k)) 1)
         (x \<and> \<not> bit (T t (table_index va k)) 63) (u' \<and> bit (T t (table_index va k)) 2) pat)"
  proof (rule step.IH)
    show "tab T (?e AND PAGE_FRAME_MASK) (vpath va l k) = Some t" using s(3) by simp
    show "\<forall>j t'. k < j \<and> j \<le> l \<and> tab T (?e AND PAGE_FRAME_MASK) (vpath va l j) = Some t'
       \<longrightarrow> bit (T t' (table_index va j)) 1 \<and> \<not> bit (T t' (table_index va j)) 63"
    proof (intro allI impI, elim conjE)
      fix j t' assume j: "k < j" "j \<le> l" "tab T (?e AND PAGE_FRAME_MASK) (vpath va l j) = Some t'"
      then have "tab T tb (vpath va (Suc l) j) = Some t'"
        using s(1,2) by (simp add: vpath_Cons next_table_def)
      then show "bit (T t' (table_index va j)) 1 \<and> \<not> bit (T t' (table_index va j)) 63"
        using step.prems(2) j by (metis le_SucI)
    qed
  qed
  moreover have "1 \<le> l" using step.hyps(1) assms(1) by simp
  ultimately show ?case using s o by (simp add: translate_step [of _ _ _ "Suc l"] Let_def)
qed

lemma links_open_vpath:
  assumes "links_open T root" and "1 < j" and "j \<le> 4" and "tab T root (vpath va 4 j) = Some t"
    and "next_table (T t (table_index va j)) \<noteq> None"
  shows "bit (T t (table_index va j)) 1 \<and> \<not> bit (T t (table_index va j)) 63"
proof -
  have "table_path (vpath va 4 j @ [table_index va j])"
    using table_path_vpath [of "j - 1" va] vpath_snoc [of j 4 va] assms(2,3) by simp
  then show ?thesis using assms unfolding links_open_def by blast
qed

lemma tab_vpath_next:
  assumes "k < j" and "j \<le> l" and "tab T tb (vpath va l k) \<noteq> None" and "tab T tb (vpath va l j) = Some t"
  shows "next_table (T t (table_index va j)) \<noteq> None"
proof -
  have "vpath va l k = vpath va l j @ table_index va j # vpath va (j - 1) k"
  proof -
    have "[Suc k..<j + (Suc l - j)] = [Suc k..<j] @ [j..<j + (Suc l - j)]"
      using assms(1) by (intro upt_add_eq_append) simp
    then have "[Suc k..<Suc l] = [Suc k..<j] @ j # [Suc j..<Suc l]"
      using assms(2) by (simp add: upt_conv_Cons del: upt_Suc)
    then show ?thesis using assms(1) by (cases j) (auto simp: vpath_def)
  qed
  then show ?thesis using assms(3,4) by (auto simp: tab_append split: option.splits)
qed

text \<open>The translation of an address whose path ends in a leaf, from the root.\<close>

lemma translate_leaf_root:
  assumes "links_open T root" and "1 \<le> k" and "k \<le> 4" and "tab T root (vpath va 4 k) = Some t"
    and "e = T t (table_index va k)" and "bit e 0" and "k = 1 \<or> bit e 7"
  shows "\<exists>u'. translate_walk T pat va 4 root True True True
     = (PAGING_STATUS_OK, fill_translation e va k (bit e 1) (\<not> bit e 63) (u' \<and> bit e 2) pat)"
proof -
  have "\<forall>j t'. k < j \<and> j \<le> 4 \<and> tab T root (vpath va 4 j) = Some t'
     \<longrightarrow> bit (T t' (table_index va j)) 1 \<and> \<not> bit (T t' (table_index va j)) 63"
  proof (intro allI impI, elim conjE)
    fix j t' assume j: "k < j" "j \<le> 4" "tab T root (vpath va 4 j) = Some t'"
    show "bit (T t' (table_index va j)) 1 \<and> \<not> bit (T t' (table_index va j)) 63"
    proof (rule links_open_vpath [OF assms(1) _ j(2,3)])
      show "1 < j" using j(1) assms(2) by linarith
      show "next_table (T t' (table_index va j)) \<noteq> None"
        by (rule tab_vpath_next [OF j(1,2) _ j(3)]) (simp add: assms(4))
    qed
  qed
  from translate_leaf [OF assms(2,3,4) _ _ this, where w = True and x = True and u = True and pat = pat]
    assms(6,7)
  show ?thesis unfolding assms(5) by (simp only: simp_thms)
qed

definition vacant :: "tables \<Rightarrow> u64 \<Rightarrow> u64 \<Rightarrow> nat \<Rightarrow> bool" where
  "vacant T root va k \<longleftrightarrow> (\<exists>j t. k \<le> j \<and> j \<le> 4 \<and> tab T root (vpath va 4 j) = Some t
     \<and> \<not> bit (T t (table_index va j)) 0)"

lemma vacant_translate:
  "vacant T root va k \<Longrightarrow> 1 \<le> k
   \<Longrightarrow> translate_walk T pat va 4 root w x u = (PAGING_STATUS_NOT_MAPPED, no_translation)"
  unfolding vacant_def using translate_absent by (metis le_trans)

abbreviation trans :: "tables \<Rightarrow> u64 \<Rightarrow> u64 \<Rightarrow> u64 \<Rightarrow> paging_status \<times> paging_translation" where
  "trans T root pat va \<equiv> translate_walk T pat va 4 root True True True"

text \<open>What the three writes do to translations and to vacancy.\<close>

lemma write_other_slot:
  assumes "tree T root" and "tab T root (vpath va0 4 k0) = Some t0" and "1 \<le> k0" "k0 \<le> 4"
    and "\<not> same_slot k0 va va0" and "1 \<le> j" "j \<le> 4" and "tab T root (vpath va 4 j) = Some t"
  shows "table_write T t0 (table_index va0 k0) e t (table_index va j) = T t (table_index va j)"
  using slot_unique [OF assms(1,8), of va0 k0] assms(2-7) by (auto simp: table_write_def)

lemma trans_write_leaf:
  assumes "tree T root" and "tab T root (vpath va0 4 k0) = Some t0" and "1 \<le> k0" "k0 \<le> 4"
    and "\<not> same_slot k0 va va0"
  shows "trans (table_write T t0 (table_index va0 k0) e) root pat va = trans T root pat va"
  by (rule translate_agree) (use write_other_slot [OF assms] in auto)

lemma vacant_write_leaf:
  assumes "tree T root" and "tab T root (vpath va0 4 k0) = Some t0" and "1 \<le> k0" "k0 \<le> 4"
    and "k0 = 1 \<or> next_table (T t0 (table_index va0 k0)) = None \<and> next_table e = None"
    and "\<not> same_slot k0 va va0" and "vacant T root va k" and "1 \<le> k"
  shows "vacant (table_write T t0 (table_index va0 k0) e) root va k"
proof -
  from assms(7) obtain j t where j: "k \<le> j" "j \<le> 4" "tab T root (vpath va 4 j) = Some t"
    "\<not> bit (T t (table_index va j)) 0" by (auto simp: vacant_def)
  have "length (vpath va0 4 k0) = 3 \<or> next_table (T t0 (table_index va0 k0)) = None \<and> next_table e = None"
    using assms(5) by auto
  from tab_write_leaf [OF assms(1) table_path_vpath [OF assms(3)] assms(2) this]
  have "tab (table_write T t0 (table_index va0 k0) e) root (vpath va 4 j) = Some t"
    using j assms(8) table_path_vpath [of j va] by simp
  moreover have "table_write T t0 (table_index va0 k0) e t (table_index va j) = T t (table_index va j)"
    using write_other_slot [OF assms(1-4,6) _ j(2,3)] j(1) assms(8) by simp
  ultimately show ?thesis using j unfolding vacant_def by metis
qed

lemma trans_write_link:
  assumes "tree T root" and p0: "tab T root (vpath va0 4 k0) = Some t0" "2 \<le> k0" "k0 \<le> 4"
    and "\<not> bit (T t0 (table_index va0 k0)) 0"
    and new: "n \<notin> reach T root" "empty_table T' n" "next_table (T' t0 (table_index va0 k0)) = Some n"
    and other: "\<forall>u i. u \<noteq> n \<longrightarrow> (u, i) \<noteq> (t0, table_index va0 k0) \<longrightarrow> T' u i = T u i"
  shows "trans T' root pat va = trans T root pat va"
    and "vacant T root va k \<Longrightarrow> 1 \<le> k \<Longrightarrow> k < k0 \<Longrightarrow> vacant T' root va k"
    and "tab T' root (vpath va0 4 (k0 - 1)) = Some n"
proof -
  have none: "next_table (T t0 (table_index va0 k0)) = None" using assms(5) by (simp add: next_table_def)
  have path0: "table_path (vpath va0 4 k0)" "length (vpath va0 4 k0) \<le> 2"
    using p0(2) table_path_vpath by simp_all
  note t = tab_write_link [OF assms(1) path0(1) p0(1) path0(2) table_index_less none new other]
  have down: "vpath va0 4 k0 @ [table_index va0 k0] = vpath va0 4 (k0 - 1)"
    using vpath_snoc [of k0 4 va0] p0 by simp
  then show at: "tab T' root (vpath va0 4 (k0 - 1)) = Some n"
    using t [OF table_path_vpath [of "k0 - 1" va0]] p0(2) by simp
  have same: "T' u (table_index va j) = T u (table_index va j)"
    if "tab T root (vpath va 4 j) = Some u" "1 \<le> j" "j \<le> 4" "\<not> same_slot k0 va va0" for u j
  proof -
    have "u \<noteq> n" using new(1) reachI [OF table_path_vpath [OF that(2)] that(1)] by auto
    moreover have "(u, table_index va j) \<noteq> (t0, table_index va0 k0)"
      using slot_unique [OF assms(1) that(1), of va0 k0] p0 that by auto
    ultimately show ?thesis using other by blast
  qed
  show "trans T' root pat va = trans T root pat va"
  proof (cases "same_slot k0 va va0")
    case False
    then show ?thesis by (intro translate_agree) (use same in auto)
  next
    case True
    have v: "vpath va 4 (k0 - 1) = vpath va0 4 (k0 - 1)" "vpath va 4 k0 = vpath va0 4 k0"
      "table_index va k0 = table_index va0 k0"
      using True p0(2,3) vpath_eq_iff [of "k0 - 1" va va0] vpath_eq_iff [of k0 va va0] same_slot_mono
      by (auto simp: same_slot_def)
    have "trans T root pat va = (PAGING_STATUS_NOT_MAPPED, no_translation)"
      by (rule translate_absent [of k0 _ _ _ _ t0]) (use p0 v assms(5) in auto)
    moreover have "trans T' root pat va = (PAGING_STATUS_NOT_MAPPED, no_translation)"
      by (rule translate_absent [of "k0 - 1" _ _ _ _ n])
        (use p0 v at new(2) in \<open>auto simp: empty_table_def\<close>)
    ultimately show ?thesis by simp
  qed
  show "vacant T' root va k" if v: "vacant T root va k" "1 \<le> k" "k < k0"
  proof (cases "same_slot k0 va va0")
    case True
    then have "vpath va 4 (k0 - 1) = vpath va0 4 (k0 - 1)"
      using p0(2,3) vpath_eq_iff [of "k0 - 1" va va0] by simp
    then show ?thesis
      unfolding vacant_def using at new(2) v p0
      by (intro exI [of _ "k0 - 1"] exI [of _ n]) (auto simp: empty_table_def)
  next
    case False
    from v(1) obtain j u where j: "k \<le> j" "j \<le> 4" "tab T root (vpath va 4 j) = Some u"
      "\<not> bit (T u (table_index va j)) 0" by (auto simp: vacant_def)
    have j1: "1 \<le> j" using j(1) v(2) by simp
    have "vpath va 4 j \<noteq> vpath va0 4 k0 @ [table_index va0 k0]"
      using j(3) none p0(1) by (auto simp: tab_snoc)
    then have "tab T' root (vpath va 4 j) = Some u" using t [OF table_path_vpath [OF j1]] j(3) by simp
    then show ?thesis
      using j same [OF j(3) j1 j(2) False] unfolding vacant_def by metis
  qed
qed

lemma trans_write_unlink:
  assumes "tree T root" and p0: "tab T root (vpath va0 4 k0) = Some t0" "2 \<le> k0" "k0 \<le> 4"
    and link: "next_table (T t0 (table_index va0 k0)) = Some c" and "empty_table T c"
  defines "T' \<equiv> table_write T t0 (table_index va0 k0) 0"
  shows "trans T' root pat va = trans T root pat va"
    and "vacant T root va k \<Longrightarrow> 1 \<le> k \<Longrightarrow> vacant T' root va k"
proof -
  have path0: "table_path (vpath va0 4 k0)" "length (vpath va0 4 k0) \<le> 2"
    using p0(2) table_path_vpath by simp_all
  note t = tab_write_unlink [OF assms(1) path0(1) p0(1) path0(2) table_index_less link assms(6), folded T'_def]
  have t0: "tab T' root (vpath va0 4 k0) = Some t0"
    using t [OF path0(1)] p0(1) by simp
  have down: "vpath va0 4 k0 @ [table_index va0 k0] = vpath va0 4 (k0 - 1)"
    using vpath_snoc [of k0 4 va0] p0 by simp
  have at: "tab T root (vpath va0 4 (k0 - 1)) = Some c"
    unfolding down [symmetric] using p0(1) link by (simp add: tab_snoc)
  have v: "vpath va 4 (k0 - 1) = vpath va0 4 (k0 - 1)" "vpath va 4 k0 = vpath va0 4 k0"
      "table_index va k0 = table_index va0 k0" if "same_slot k0 va va0" for va
    using that p0(2,3) vpath_eq_iff [of "k0 - 1" va va0] vpath_eq_iff [of k0 va va0] same_slot_mono
    by (auto simp: same_slot_def)
  show "trans T' root pat va = trans T root pat va"
  proof (cases "same_slot k0 va va0")
    case False
    then show ?thesis using trans_write_leaf [OF assms(1) p0(1) _ p0(3)] p0(2) by (simp add: T'_def)
  next
    case True
    have "trans T root pat va = (PAGING_STATUS_NOT_MAPPED, no_translation)"
      by (rule translate_absent [of "k0 - 1" _ _ _ _ c])
        (use p0 v [OF True] at assms(6) in \<open>auto simp: empty_table_def\<close>)
    moreover have "trans T' root pat va = (PAGING_STATUS_NOT_MAPPED, no_translation)"
      by (rule translate_absent [of k0 _ _ _ _ t0]) (use p0 v [OF True] t0 in \<open>auto simp: T'_def\<close>)
    ultimately show ?thesis by simp
  qed
  show "vacant T' root va k" if vac: "vacant T root va k" "1 \<le> k"
  proof (cases "same_slot k0 va va0 \<and> k \<le> k0")
    case True
    then show ?thesis
      unfolding vacant_def using t0 p0 v [of va]
      by (intro exI [of _ k0] exI [of _ t0]) (auto simp: T'_def)
  next
    case False
    from vac(1) obtain j u where j: "k \<le> j" "j \<le> 4" "tab T root (vpath va 4 j) = Some u"
      "\<not> bit (T u (table_index va j)) 0" by (auto simp: vacant_def)
    have j1: "1 \<le> j" using j(1) vac(2) by simp
    have "\<not> (j = k0 - 1 \<and> vpath va 4 j = vpath va0 4 (k0 - 1))"
      using False j(1) p0(2,3) vpath_eq_iff [of "k0 - 1" va va0] by auto
    then have "vpath va 4 j \<noteq> vpath va0 4 (k0 - 1)"
      using j(2) p0(2,3) by (metis diff_diff_cancel diff_le_self le_trans length_vpath)
    then have "tab T' root (vpath va 4 j) = Some u"
      using t [OF table_path_vpath [OF j1]] j(3) down by simp
    moreover have "bit (T' u (table_index va j)) 0 \<longleftrightarrow> False"
      using j(4) by (auto simp: T'_def table_write_def)
    ultimately show ?thesis using j unfolding vacant_def by metis
  qed
qed

text \<open>The leaf of level \<open>l\<close> that maps an address.\<close>

definition leaf_at :: "tables \<Rightarrow> u64 \<Rightarrow> u64 \<Rightarrow> nat \<Rightarrow> u64 \<Rightarrow> bool" where
  "leaf_at T root va l e \<longleftrightarrow> (\<exists>t. tab T root (vpath va 4 l) = Some t \<and> T t (table_index va l) = e)
     \<and> bit e 0 \<and> (l = 1 \<or> bit e 7)"

lemma leaf_at_write_leaf:
  assumes "tree T root" and "tab T root (vpath va0 4 k0) = Some t0" and "1 \<le> k0" "k0 \<le> 4"
    and "k0 = 1 \<or> next_table (T t0 (table_index va0 k0)) = None \<and> next_table e = None"
    and "\<not> same_slot k0 va va0" and "leaf_at T root va k a" and "1 \<le> k" "k \<le> 4"
  shows "leaf_at (table_write T t0 (table_index va0 k0) e) root va k a"
proof -
  from assms(7) obtain t where t: "tab T root (vpath va 4 k) = Some t" "T t (table_index va k) = a"
    by (auto simp: leaf_at_def)
  have "length (vpath va0 4 k0) = 3 \<or> next_table (T t0 (table_index va0 k0)) = None \<and> next_table e = None"
    using assms(5) by auto
  from tab_write_leaf [OF assms(1) table_path_vpath [OF assms(3)] assms(2) this table_path_vpath [OF assms(8)]]
  have "tab (table_write T t0 (table_index va0 k0) e) root (vpath va 4 k) = Some t" using t(1) by simp
  moreover note write_other_slot [OF assms(1-4,6,8,9) t(1), of e]
  ultimately show ?thesis using t(2) assms(7) unfolding leaf_at_def by metis
qed

lemma leaf_at_write_link:
  assumes "tree T root" and p0: "tab T root (vpath va0 4 k0) = Some t0" "2 \<le> k0" "k0 \<le> 4"
    and "\<not> bit (T t0 (table_index va0 k0)) 0"
    and new: "n \<notin> reach T root" "empty_table T' n" "next_table (T' t0 (table_index va0 k0)) = Some n"
    and other: "\<forall>u i. u \<noteq> n \<longrightarrow> (u, i) \<noteq> (t0, table_index va0 k0) \<longrightarrow> T' u i = T u i"
    and "leaf_at T root va k a" and "1 \<le> k"
  shows "leaf_at T' root va k a"
proof -
  from assms(10) obtain t where t: "tab T root (vpath va 4 k) = Some t" "T t (table_index va k) = a" "bit a 0"
    by (auto simp: leaf_at_def)
  have none: "next_table (T t0 (table_index va0 k0)) = None" using assms(5) by (simp add: next_table_def)
  have path0: "table_path (vpath va0 4 k0)" "length (vpath va0 4 k0) \<le> 2"
    using p0(2) table_path_vpath by simp_all
  note tl = tab_write_link [OF assms(1) path0(1) p0(1) path0(2) table_index_less none new other]
  have "vpath va 4 k \<noteq> vpath va0 4 k0 @ [table_index va0 k0]"
    using t(1) none p0(1) by (auto simp: tab_snoc)
  then have "tab T' root (vpath va 4 k) = Some t" using tl [OF table_path_vpath [OF assms(11)]] t(1) by simp
  have "t \<noteq> n" using new(1) reachI [OF table_path_vpath [OF assms(11)] t(1)] by auto
  moreover have "(t, table_index va k) \<noteq> (t0, table_index va0 k0)" using t(2,3) assms(5) by auto
  ultimately have "T' t (table_index va k) = T t (table_index va k)" using other by blast
  moreover note \<open>tab T' root (vpath va 4 k) = Some t\<close>
  ultimately show ?thesis using t(2) assms(10) unfolding leaf_at_def by metis
qed

lemma leaf_at_write_unlink:
  assumes "tree T root" and p0: "tab T root (vpath va0 4 k0) = Some t0" "2 \<le> k0" "k0 \<le> 4"
    and link: "next_table (T t0 (table_index va0 k0)) = Some c" and "empty_table T c"
    and "leaf_at T root va k a" and "1 \<le> k" "k \<le> 4"
  shows "leaf_at (table_write T t0 (table_index va0 k0) 0) root va k a"
proof -
  from assms(7) obtain t where t: "tab T root (vpath va 4 k) = Some t" "T t (table_index va k) = a"
    "bit a 0" "k = 1 \<or> bit a 7" by (auto simp: leaf_at_def)
  have path0: "table_path (vpath va0 4 k0)" "length (vpath va0 4 k0) \<le> 2"
    using p0(2) table_path_vpath by simp_all
  note tu = tab_write_unlink [OF assms(1) path0(1) p0(1) path0(2) table_index_less link assms(6)]
  have "t \<noteq> c" using t(2,3) assms(6) by (auto simp: empty_table_def)
  then have "vpath va 4 k \<noteq> vpath va0 4 k0 @ [table_index va0 k0]"
    using t(1) link p0(1) by (auto simp: tab_snoc)
  then have "tab (table_write T t0 (table_index va0 k0) 0) root (vpath va 4 k) = Some t"
    using tu [OF table_path_vpath [OF assms(8)]] t(1) by simp
  moreover have "(t, table_index va k) \<noteq> (t0, table_index va0 k0)"
  proof
    assume eq: "(t, table_index va k) = (t0, table_index va0 k0)"
    then have "k = k0" using slot_unique [OF assms(1) t(1), of va0 k0] p0 assms(8,9) by simp
    then show False using eq link t(2,4) p0(2) by (auto simp: next_table_def split: if_split_asm)
  qed
  ultimately show ?thesis using t(2) assms(7) unfolding leaf_at_def by (metis table_write_other)
qed

subsection \<open>The supply of tables\<close>

definition arena_page :: "page_hierarchy \<Rightarrow> nat \<Rightarrow> u64" where
  "arena_page h k = h_arena_base h + of_nat k * PAGING_PAGE_SIZE"

definition table_pool_inv :: "page_hierarchy \<times> paging_world \<Rightarrow> bool" where
  "table_pool_inv hw = (case hw of (h, w) \<Rightarrow>
     if h_arena_capacity h = 0 then frame_pool_inv (pw_frames w)
     else h_arena_used h \<le> h_arena_capacity h \<and> 4096 dvd unat (h_arena_base h)
       \<and> unat (h_arena_base h) + h_arena_capacity h * 4096 \<le> 2 ^ 32)"

definition table_free :: "page_hierarchy \<times> paging_world \<Rightarrow> u64 set" where
  "table_free hw = (case hw of (h, w) \<Rightarrow>
     if h_arena_capacity h = 0 then frame_addresses (free_set (pw_frames w))
     else arena_page h ` {h_arena_used h..<h_arena_capacity h})"

definition table_taken :: "page_hierarchy \<times> paging_world \<Rightarrow> u64 set" where
  "table_taken hw = (case hw of (h, w) \<Rightarrow>
     if h_arena_capacity h = 0 then frame_addresses (single_set (pw_frames w))
     else arena_page h ` {..<h_arena_used h})"

definition table_take :: "page_hierarchy \<times> paging_world \<Rightarrow> (u64 \<times> page_hierarchy \<times> paging_world) option" where
  "table_take hw = (case hw of (h, w) \<Rightarrow>
     (case allocate_table h w of (PAGING_STATUS_OK, Some a, h', w') \<Rightarrow> Some (a, h', w') | _ \<Rightarrow> None))"

lemmas table_pool_defs = table_pool_inv_def table_free_def table_taken_def

lemma unat_arena_page:
  assumes "unat (h_arena_base h) + n * 4096 \<le> 2 ^ 32" and "k < n"
  shows "unat (arena_page h k) = unat (h_arena_base h) + k * 4096"
proof -
  have "k * 4096 + 4096 \<le> n * 4096" using assms(2) by simp
  then have b: "unat (h_arena_base h) + k * 4096 < 2 ^ 32" using assms(1) by linarith
  have "unat (of_nat k * PAGING_PAGE_SIZE :: u64) = k * 4096"
    using b by (simp add: unat_word_ariths unat_of_nat PAGING_PAGE_SIZE_def mod_mult_left_eq)
  then show ?thesis using b by (simp add: arena_page_def unat_word_ariths)
qed

lemma arena_page_inj:
  assumes "unat (h_arena_base h) + n * 4096 \<le> 2 ^ 32"
  shows "inj_on (arena_page h) {..<n}"
  by (rule inj_on_inverseI [where g = "\<lambda>a. (unat a - unat (h_arena_base h)) div 4096"])
    (use unat_arena_page [OF assms] in auto)

text \<open>A table is a page-aligned frame below the identity limit.\<close>

lemma table_taken_ok:
  assumes "table_pool_inv (h, w)" and "t \<in> table_taken (h, w) \<union> table_free (h, w)"
  shows "frame_address_ok t" and "unat t < 2 ^ 32"
proof -
  have "4096 dvd unat t \<and> unat t < 2 ^ 32"
  proof (cases "h_arena_capacity h = 0")
    case True
    then obtain f where f: "f \<in> single_set (pw_frames w) \<union> free_set (pw_frames w)"
      "t = of_nat f * SAPOTE_PAGE_SIZE"
      using assms(2) by (auto simp: table_pool_defs frame_addresses_def)
    then have "f < FRAME_COUNT" using frame_set_bounds by (auto simp: single_set_def)
    then show ?thesis using f(2) frame_address(1,2) [of f] by (simp add: word_less_nat_alt)
  next
    case False
    then have "t \<in> arena_page h ` ({..<h_arena_used h} \<union> {h_arena_used h..<h_arena_capacity h})"
      and "h_arena_used h \<le> h_arena_capacity h"
      using assms by (auto simp: table_pool_defs)
    then obtain k where "k \<in> {..<h_arena_used h} \<union> {h_arena_used h..<h_arena_capacity h}"
      "t = arena_page h k" "h_arena_used h \<le> h_arena_capacity h" by blast
    then have k: "k < h_arena_capacity h" "t = arena_page h k" by auto
    have u: "unat t = unat (h_arena_base h) + k * 4096"
      using k unat_arena_page [of h "h_arena_capacity h" k] assms(1) False by (simp add: table_pool_inv_def)
    have "k * 4096 + 4096 \<le> h_arena_capacity h * 4096" using k(1) by simp
    then show ?thesis using assms(1) False unfolding u by (simp add: table_pool_inv_def)
  qed
  then show "frame_address_ok t" "unat t < 2 ^ 32" by (simp_all add: frame_address_ok_def)
qed

lemma below_limit: "unat t < 2 ^ 32 \<Longrightarrow> \<not> t \<ge> SAPOTE_EARLY_PHYSICAL_LIMIT"
  by (simp add: word_le_nat_alt SAPOTE_EARLY_PHYSICAL_LIMIT_def)

text \<open>What an allocation changes beside the pool.\<close>

definition same_hierarchy :: "page_hierarchy \<Rightarrow> page_hierarchy \<Rightarrow> bool" where
  "same_hierarchy h h' \<longleftrightarrow> h_root h' = h_root h \<and> h_live h' = h_live h
     \<and> h_arena_base h' = h_arena_base h \<and> h_arena_capacity h' = h_arena_capacity h"

lemma same_hierarchy_refl [simp]: "same_hierarchy h h"
  and same_hierarchy_trans: "same_hierarchy h h' \<Longrightarrow> same_hierarchy h' h'' \<Longrightarrow> same_hierarchy h h''"
  by (simp_all add: same_hierarchy_def)

lemma allocate_table_frames:
  assumes "h_arena_capacity h = 0" and "frame_pool_inv (pw_frames w)"
  shows "allocate_table h w = (PAGING_STATUS_OUT_OF_FRAMES, None, h, w) \<and> free_set (pw_frames w) = {}
     \<or> (\<exists>n fs. allocate_table h w = (PAGING_STATUS_OK, Some n, h\<lparr>h_table_frames := h_table_frames h + 1\<rparr>,
            w\<lparr>pw_frames := fs, pw_tables := zero_table n (pw_tables w)\<rparr>)
         \<and> frame_take (pw_frames w) = Some (n, fs))"
proof (cases "free_set (pw_frames w) = {}")
  case True
  then show ?thesis
    using frame_allocate_cases(1) [of "pw_frames w" 0] assms
    by (simp add: frame_pool_inv_def allocate_table_def)
next
  case False
  have i: "frame_inv (pw_frames w)" "allocator_initialized (pw_frames w)"
    using assms(2) by (simp_all add: frame_pool_inv_def)
  from frame_allocate_cases(2) [OF i False, of 0] obtain f fs where
    f: "frame_allocate (Some 0) (pw_frames w) = (FRAME_STATUS_OK, Some (of_nat f * SAPOTE_PAGE_SIZE), fs)"
      "f \<in> free_set (pw_frames w)" by blast
  let ?n = "of_nat f * SAPOTE_PAGE_SIZE :: u64"
  have "table_pool_inv (h, w)" "?n \<in> table_taken (h, w) \<union> table_free (h, w)"
    using assms f(2) by (auto simp: table_pool_defs frame_addresses_def)
  from below_limit [OF table_taken_ok(2) [OF this]]
  show ?thesis using assms(1) f by (auto simp: allocate_table_def frame_take_def)
qed

lemma allocate_table_arena:
  assumes "h_arena_capacity h \<noteq> 0" and "table_pool_inv (h, w)"
  shows "allocate_table h w = (PAGING_STATUS_OUT_OF_FRAMES, None, h, w) \<and> h_arena_used h = h_arena_capacity h
     \<or> allocate_table h w = (PAGING_STATUS_OK, Some (arena_page h (h_arena_used h)),
            h\<lparr>h_arena_used := h_arena_used h + 1, h_table_frames := h_table_frames h + 1\<rparr>,
            w\<lparr>pw_tables := zero_table (arena_page h (h_arena_used h)) (pw_tables w)\<rparr>)
         \<and> h_arena_used h < h_arena_capacity h"
proof (cases "h_arena_used h = h_arena_capacity h")
  case False
  then have u: "h_arena_used h < h_arena_capacity h" using assms by (simp add: table_pool_inv_def)
  then have "arena_page h (h_arena_used h) \<in> table_taken (h, w) \<union> table_free (h, w)"
    using assms(1) by (auto simp: table_pool_defs)
  from below_limit [OF table_taken_ok(2) [OF assms(2) this]] u assms(1)
  show ?thesis by (simp add: allocate_table_def arena_page_def)
qed (use assms(1) in \<open>simp add: allocate_table_def\<close>)

interpretation tables: resource_source table_pool_inv table_free table_taken table_take
proof
  fix s a s' assume inv: "table_pool_inv s"
  obtain h w where s: "s = (h, w)" by (cases s)
  note inv = inv [unfolded s]
  show "finite (table_taken s)"
    using inv frames.finite_taken [of "pw_frames w"] by (auto simp: s table_pool_defs)
  show "table_free s \<inter> table_taken s = {}"
  proof (cases "h_arena_capacity h = 0")
    case True
    then show ?thesis using inv frames.disjoint [of "pw_frames w"] by (simp add: s table_pool_defs)
  next
    case False
    then have "inj_on (arena_page h) {..<h_arena_capacity h}"
      using inv by (intro arena_page_inj) (simp add: table_pool_inv_def)
    then show ?thesis using False inv by (fastforce simp: s table_pool_defs inj_on_def)
  qed
  show "table_free s = {}" if "table_take s = None"
  proof (cases "h_arena_capacity h = 0")
    case True
    then show ?thesis
      using allocate_table_frames [OF True, of w] inv that
      by (auto simp: s table_pool_defs table_take_def frame_addresses_def)
  next
    case False
    then show ?thesis
      using allocate_table_arena [OF False inv] that by (auto simp: s table_pool_defs table_take_def)
  qed
  show "a \<in> table_free s \<and> table_free s' = table_free s - {a}
      \<and> table_taken s' = insert a (table_taken s) \<and> table_pool_inv s'" if "table_take s = Some (a, s')"
  proof (cases "h_arena_capacity h = 0")
    case True
    have fi: "frame_pool_inv (pw_frames w)" using inv True by (simp add: table_pool_inv_def)
    from allocate_table_frames [OF True fi] that obtain fs where
      "frame_take (pw_frames w) = Some (a, fs)"
      "s' = (h\<lparr>h_table_frames := h_table_frames h + 1\<rparr>,
             w\<lparr>pw_frames := fs, pw_tables := zero_table a (pw_tables w)\<rparr>)"
      by (auto simp: s table_take_def)
    then show ?thesis using frames.take_Some [OF fi] True by (simp add: s table_pool_defs)
  next
    case False
    from allocate_table_arena [OF False inv] that
    have a: "a = arena_page h (h_arena_used h)" "h_arena_used h < h_arena_capacity h"
      "s' = (h\<lparr>h_arena_used := h_arena_used h + 1, h_table_frames := h_table_frames h + 1\<rparr>,
            w\<lparr>pw_tables := zero_table a (pw_tables w)\<rparr>)"
      by (auto simp: s table_take_def)
    let ?I = "{h_arena_used h..<h_arena_capacity h}"
    have page: "arena_page (fst s') = arena_page h" by (simp add: a(3) arena_page_def fun_eq_iff)
    have "inj_on (arena_page h) {..<h_arena_capacity h}"
      using inv False by (intro arena_page_inj) (simp add: table_pool_inv_def)
    then have "arena_page h ` (?I - {h_arena_used h}) = arena_page h ` ?I - {a}"
      using a(2) by (subst inj_on_image_set_diff) (auto simp: a(1))
    moreover have "?I - {h_arena_used h} = {h_arena_used h + 1..<h_arena_capacity h}" by auto
    ultimately show ?thesis
      using inv False a page by (auto simp: s table_pool_defs lessThan_Suc)
  qed
qed

lemma allocate_table_OK:
  assumes "table_pool_inv (h, w)" and "allocate_table h w = (PAGING_STATUS_OK, a, h', w')"
  shows "\<exists>n. a = Some n \<and> n \<in> table_free (h, w) \<and> table_taken (h', w') = insert n (table_taken (h, w))
     \<and> table_free (h', w') = table_free (h, w) - {n}
     \<and> table_pool_inv (h', w') \<and> frame_address_ok n \<and> n \<notin> table_taken (h, w)
     \<and> pw_tables w' = zero_table n (pw_tables w) \<and> pw_invalidated w' = pw_invalidated w
     \<and> same_hierarchy h h' \<and> h_table_frames h' = h_table_frames h + 1"
proof -
  have d: "\<exists>n. a = Some n \<and> pw_tables w' = zero_table n (pw_tables w) \<and> pw_invalidated w' = pw_invalidated w
     \<and> same_hierarchy h h' \<and> h_table_frames h' = h_table_frames h + 1"
  proof (cases "h_arena_capacity h = 0")
    case True
    then have "frame_pool_inv (pw_frames w)" using assms(1) by (simp add: table_pool_inv_def)
    from allocate_table_frames [OF True this] assms(2) show ?thesis by (auto simp: same_hierarchy_def)
  next
    case False
    from allocate_table_arena [OF False assms(1)] assms(2) show ?thesis by (auto simp: same_hierarchy_def)
  qed
  then obtain n where n: "a = Some n" by blast
  have "table_take (h, w) = Some (n, h', w')" using assms(2) n by (simp add: table_take_def)
  from tables.take_Some [OF assms(1) this] tables.take_fresh(1) [OF assms(1) this] d n
  show ?thesis using table_taken_ok(1) [OF assms(1), of n] by auto
qed

lemma allocate_table_fail:
  assumes "table_pool_inv (h, w)" and "allocate_table h w = (st, a, h', w')" and "st \<noteq> PAGING_STATUS_OK"
  shows "st = PAGING_STATUS_OUT_OF_FRAMES" and "h' = h" and "w' = w" and "table_free (h, w) = {}"
proof -
  have "st = PAGING_STATUS_OUT_OF_FRAMES \<and> h' = h \<and> w' = w \<and> table_take (h, w) = None"
  proof (cases "h_arena_capacity h = 0")
    case True
    then have "frame_pool_inv (pw_frames w)" using assms(1) by (simp add: table_pool_inv_def)
    from allocate_table_frames [OF True this] assms(2,3) show ?thesis by (auto simp: table_take_def)
  next
    case False
    from allocate_table_arena [OF False assms(1)] assms(2,3) show ?thesis by (auto simp: table_take_def)
  qed
  then show "st = PAGING_STATUS_OUT_OF_FRAMES" "h' = h" "w' = w" "table_free (h, w) = {}"
    using tables.take_None [OF assms(1)] by blast+
qed

subsection \<open>The invariant of a hierarchy\<close>

definition hier_inv :: "page_hierarchy \<Rightarrow> paging_world \<Rightarrow> bool" where
  "hier_inv h w \<longleftrightarrow> table_pool_inv (h, w) \<and> tree (pw_tables w) (h_root h) \<and> links_open (pw_tables w) (h_root h)
     \<and> reach (pw_tables w) (h_root h) \<subseteq> table_taken (h, w)
     \<and> h_table_frames h = of_nat (card (reach (pw_tables w) (h_root h)))"

text \<open>
  A step that keeps every translation outside the pages of the addresses \<open>V\<close>, and there what is free
  for a leaf of level \<open>l\<close> and the leaves of that level. The frames that others took from the allocator
  stay theirs.
\<close>

definition others :: "page_hierarchy \<Rightarrow> paging_world \<Rightarrow> u64 set" where
  "others h w = table_taken (h, w) - reach (pw_tables w) (h_root h)"

definition keeps_out :: "nat \<Rightarrow> u64 set \<Rightarrow> page_hierarchy \<Rightarrow> paging_world \<Rightarrow> page_hierarchy \<Rightarrow> paging_world \<Rightarrow> bool" where
  "keeps_out l V h w h' w' \<longleftrightarrow> hier_inv h' w' \<and> same_hierarchy h h'
     \<and> (h_arena_capacity h = 0 \<longrightarrow> others h' w' = others h w)
     \<and> (\<forall>va. (\<forall>v \<in> V. \<not> same_slot l va v) \<longrightarrow>
          (\<forall>pat. trans (pw_tables w') (h_root h) pat va = trans (pw_tables w) (h_root h) pat va)
        \<and> (vacant (pw_tables w) (h_root h) va l \<longrightarrow> vacant (pw_tables w') (h_root h) va l)
        \<and> (\<forall>e. leaf_at (pw_tables w) (h_root h) va l e \<longrightarrow> leaf_at (pw_tables w') (h_root h) va l e))"

abbreviation keeps :: "nat \<Rightarrow> page_hierarchy \<Rightarrow> paging_world \<Rightarrow> page_hierarchy \<Rightarrow> paging_world \<Rightarrow> bool" where
  "keeps l \<equiv> keeps_out l {}"

lemma keeps_refl: "hier_inv h w \<Longrightarrow> keeps_out l V h w h w"
  by (simp add: keeps_out_def)

lemma keeps_trans:
  "keeps_out l V h w h1 w1 \<Longrightarrow> keeps_out l V' h1 w1 h2 w2 \<Longrightarrow> keeps_out l (V \<union> V') h w h2 w2"
  by (simp add: keeps_out_def same_hierarchy_def)

lemmas keeps_trans_0 = keeps_trans [where V = "{}", simplified]
lemmas keeps_trans_1 = keeps_trans [where V' = "{}", simplified]

lemma keeps_outD:
  assumes "keeps_out l V h w h' w'"
  shows "hier_inv h' w'" and "same_hierarchy h h'" and "h_root h' = h_root h"
    and "h_live h' = h_live h"
  using assms by (simp_all add: keeps_out_def same_hierarchy_def)

lemma table_pool_cong:
  assumes "pw_frames w' = pw_frames w"
  shows "table_pool_inv (h, w') = table_pool_inv (h, w)" and "table_taken (h, w') = table_taken (h, w)"
    and "table_free (h, w') = table_free (h, w)"
  unfolding table_pool_defs prod.case assms by (rule refl)+

lemma others_invalidated [simp]: "others h (invalidate h' va w) = others h w"
  using table_pool_cong(2) [of "invalidate h' va w" w h] by (simp add: others_def invalidate_def)

lemma hier_invD:
  assumes "hier_inv h w"
  shows "table_pool_inv (h, w)" and "tree (pw_tables w) (h_root h)" and "links_open (pw_tables w) (h_root h)"
    and "reach (pw_tables w) (h_root h) \<subseteq> table_taken (h, w)"
    and "h_table_frames h = of_nat (card (reach (pw_tables w) (h_root h)))"
    and "finite (reach (pw_tables w) (h_root h))"
  using assms tables.finite_taken [of "(h, w)"] by (auto simp: hier_inv_def intro: finite_subset)

lemma link_entry:
  assumes "frame_address_ok n"
  shows "next_table (n OR PAGE_PRESENT OR PAGE_WRITABLE) = Some n"
    and "bit (n OR PAGE_PRESENT OR PAGE_WRITABLE) 1" and "\<not> bit (n OR PAGE_PRESENT OR PAGE_WRITABLE) 63"
proof -
  have "(n OR (PAGE_PRESENT OR PAGE_WRITABLE)) AND PAGE_FRAME_MASK = n"
    by (rule frame_address_or_flags [OF assms]) (auto simp: bit_or_iff bit_page_flags)
  then show "next_table (n OR PAGE_PRESENT OR PAGE_WRITABLE) = Some n"
    using frame_address_ok_bits [OF assms, of 7]
    by (auto simp: next_table_def bit_or_iff bit_page_flags or.assoc)
  show "bit (n OR PAGE_PRESENT OR PAGE_WRITABLE) 1" "\<not> bit (n OR PAGE_PRESENT OR PAGE_WRITABLE) 63"
    using frame_address_ok_bits [OF assms, of 63] by (auto simp: bit_or_iff bit_page_flags)
qed

lemma vacant_at:
  assumes "tab T root (vpath va 4 k) = Some t" and "k \<le> 4"
  shows "vacant T root va k \<longleftrightarrow> \<not> bit (T t (table_index va k)) 0"
proof
  assume "vacant T root va k"
  then obtain j u where j: "k \<le> j" "j \<le> 4" "tab T root (vpath va 4 j) = Some u" "\<not> bit (T u (table_index va j)) 0"
    by (auto simp: vacant_def)
  have "j = k"
  proof (rule ccontr)
    assume "j \<noteq> k"
    then have "next_table (T u (table_index va j)) \<noteq> None"
      using tab_vpath_next [of k j 4 T root va u] assms j by simp
    then show False using j(4) by (simp add: next_table_def)
  qed
  then show "\<not> bit (T t (table_index va k)) 0" using j assms(1) by simp
qed (use assms in \<open>auto simp: vacant_def\<close>)

lemma vacant_above:
  assumes "tab T root (vpath va 4 j) = Some t" and "j \<le> 4" and "k \<le> j"
    and "bit (T t (table_index va j)) 0" and "bit (T t (table_index va j)) 7"
  shows "\<not> vacant T root va k"
proof
  assume "vacant T root va k"
  then obtain i u where i: "k \<le> i" "i \<le> 4" "tab T root (vpath va 4 i) = Some u" "\<not> bit (T u (table_index va i)) 0"
    by (auto simp: vacant_def)
  consider "i < j" | "i = j" | "j < i" by linarith
  then show False
  proof cases
    case 1
    from tab_vpath_next [OF this assms(2) _ assms(1)] i(3) show False
      using assms(5) by (simp add: next_table_def)
  next
    case 2
    then show False using i assms by simp
  next
    case 3
    from tab_vpath_next [OF this i(2) _ i(3)] assms(1) show False
      using i(4) by (simp add: next_table_def)
  qed
qed

text \<open>Linking a fresh table into an absent slot.\<close>

lemma zero_table_empty: "empty_table (zero_table n T) n"
  and zero_table_other: "u \<noteq> n \<Longrightarrow> zero_table n T u i = T u i"
  by (simp_all add: empty_table_def zero_table_def PAGING_ENTRIES_PER_TABLE_def)

lemma link_step:
  assumes inv: "hier_inv h w" and at: "tab (pw_tables w) (h_root h) (vpath va 4 k) = Some t" "2 \<le> k" "k \<le> 4"
    and absent: "\<not> bit (pw_tables w t (table_index va k)) 0"
    and alloc: "allocate_table h w = (PAGING_STATUS_OK, a, h1, w1)" and "1 \<le> l" "l < k"
  defines "w2 \<equiv> set_entry t (table_index va k) (the a OR PAGE_PRESENT OR PAGE_WRITABLE) w1"
  shows "keeps l h w h1 w2" and "tab (pw_tables w2) (h_root h1) (vpath va 4 (k - 1)) = Some (the a)"
    and "pw_invalidated w2 = pw_invalidated w"
proof -
  note i = hier_invD [OF inv]
  from allocate_table_OK [OF i(1) alloc] obtain n where
    n: "a = Some n" "n \<in> table_free (h, w)" "table_taken (h1, w1) = insert n (table_taken (h, w))"
      "table_pool_inv (h1, w1)" "frame_address_ok n" "n \<notin> table_taken (h, w)"
      "pw_tables w1 = zero_table n (pw_tables w)" "pw_invalidated w1 = pw_invalidated w"
      "same_hierarchy h h1" "h_table_frames h1 = h_table_frames h + 1" by blast
  let ?T = "pw_tables w" and ?T' = "pw_tables w2" and ?root = "h_root h" and ?i = "table_index va k"
  have root: "h_root h1 = ?root" using n(9) by (simp add: same_hierarchy_def)
  have path: "table_path (vpath va 4 k)" "length (vpath va 4 k) \<le> 2"
    using at(2) table_path_vpath by simp_all
  have fresh: "n \<notin> reach ?T ?root" using n(6) i(4) by blast
  have "t \<in> reach ?T ?root" by (rule reachI [OF path(1) at(1)])
  then have tn: "t \<noteq> n" using fresh by blast
  have T': "?T' = table_write (zero_table n ?T) t ?i (n OR PAGE_PRESENT OR PAGE_WRITABLE)"
    by (simp add: w2_def n(1,7))
  have other: "\<forall>u j. u \<noteq> n \<longrightarrow> (u, j) \<noteq> (t, ?i) \<longrightarrow> ?T' u j = ?T u j"
    unfolding T' by (auto simp: table_write_def zero_table_other)
  have empty: "empty_table ?T' n" using zero_table_empty [of n ?T] tn by (simp add: T' empty_table_def table_write_def)
  have link: "next_table (?T' t ?i) = Some n" "bit (?T' t ?i) 1" "\<not> bit (?T' t ?i) 63"
    unfolding T' using link_entry [OF n(5)] by simp_all
  have none: "next_table (?T t ?i) = None" using absent by (simp add: next_table_def)
  note s = shape_write_link [OF i(2,3) path(1) at(1) path(2) table_index_less none fresh empty link other]
  note tr = trans_write_link [OF i(2) at absent fresh empty link(1) other]
  have pool: "table_pool_inv (h1, w2)" "table_taken (h1, w2) = table_taken (h1, w1)"
    using n(4) table_pool_cong [of w2 w1 h1] by (simp_all add: w2_def)
  have "card (insert n (reach ?T ?root)) = Suc (card (reach ?T ?root))"
    using fresh i(6) by simp
  then have "hier_inv h1 w2"
    unfolding hier_inv_def root s(3) using pool s(1,2) n(3,10) i(4,5) by auto
  moreover have "others h1 w2 = others h w"
    unfolding others_def pool(2) root s(3) n(3) using n(6) by auto
  ultimately show "keeps l h w h1 w2"
    unfolding keeps_out_def using tr(1) tr(2) [OF _ assms(7,8)] n(9)
      leaf_at_write_link [OF i(2) at absent fresh empty link(1) other _ assms(7)] by blast
  show "tab ?T' (h_root h1) (vpath va 4 (k - 1)) = Some (the a)"
    unfolding root n(1) option.sel by (rule tr(3))
  show "pw_invalidated w2 = pw_invalidated w" using n(8) by (simp add: w2_def)
qed

subsection \<open>The walk to an entry\<close>

lemma entry_walk_step:
  "entry_walk l create va k t h w =
     (if l < k then
        let e = pw_tables w t (table_index va k) in
        if \<not> bit e 0 then
          if \<not> create then (PAGING_STATUS_NOT_MAPPED, None, h, w)
          else (case allocate_table h w of (st, a, h1, w1) \<Rightarrow>
             if st \<noteq> PAGING_STATUS_OK then (st, None, h1, w1)
             else entry_walk l create va (k - 1) (the a) h1
                    (set_entry t (table_index va k) (the a OR PAGE_PRESENT OR PAGE_WRITABLE) w1))
        else if bit e 7 then (PAGING_STATUS_HUGE_PAGE_PRESENT, None, h, w)
        else entry_walk l create va (k - 1) (e AND PAGE_FRAME_MASK) h w
      else (PAGING_STATUS_OK, Some (t, table_index va l), h, w))"
  by (subst entry_walk.simps) (simp add: Let_def)

lemma tab_vpath_down:
  assumes "tab T root (vpath va 4 k) = Some t" and "1 \<le> k" "k \<le> 4"
    and "bit (T t (table_index va k)) 0" "\<not> bit (T t (table_index va k)) 7"
  shows "tab T root (vpath va 4 (k - 1)) = Some (T t (table_index va k) AND PAGE_FRAME_MASK)"
  unfolding vpath_snoc [OF assms(2,3)] using assms(1,4,5) by (simp add: tab_snoc next_table_def)

definition walk_spec where
  "walk_spec l create va h w st slot h' w' \<longleftrightarrow>
     keeps l h w h' w' \<and> pw_invalidated w' = pw_invalidated w
     \<and> (\<not> create \<longrightarrow> h' = h \<and> w' = w)
     \<and> (case st of
          PAGING_STATUS_OK \<Rightarrow> (\<exists>t. slot = Some (t, table_index va l)
             \<and> tab (pw_tables w') (h_root h') (vpath va 4 l) = Some t)
        | PAGING_STATUS_NOT_MAPPED \<Rightarrow> \<not> create \<and> vacant (pw_tables w) (h_root h) va l
        | PAGING_STATUS_HUGE_PAGE_PRESENT \<Rightarrow> \<not> vacant (pw_tables w) (h_root h) va l
        | PAGING_STATUS_OUT_OF_FRAMES \<Rightarrow> create \<and> table_free (h', w') = {}
        | _ \<Rightarrow> False)"

lemma walk_spec_mono:
  assumes "walk_spec l True va h1 w1 st slot h' w'" and "keeps l h w h1 w1"
    and "pw_invalidated w1 = pw_invalidated w"
  shows "walk_spec l True va h w st slot h' w'"
proof -
  have "vacant (pw_tables w) (h_root h) va l \<Longrightarrow> vacant (pw_tables w1) (h_root h1) va l"
    using assms(2) by (simp add: keeps_out_def same_hierarchy_def)
  then show ?thesis
    using assms keeps_trans_0 [OF assms(2)] unfolding walk_spec_def
    by (auto split: paging_status.splits)
qed

lemma entry_walk_spec:
  assumes "1 \<le> l" "l \<le> k" "k \<le> 4" and "hier_inv h w" and "tab (pw_tables w) (h_root h) (vpath va 4 k) = Some t"
    and "entry_walk l create va k t h w = (st, slot, h', w')"
  shows "walk_spec l create va h w st slot h' w'"
  using assms(2-)
proof (induction k arbitrary: t h w rule: dec_induct)
  case base
  then show ?case using keeps_refl by (auto simp: entry_walk_step [of l _ _ l] walk_spec_def)
next
  case (step k)
  have k: "k \<le> 4" "l < Suc k" "1 \<le> Suc k" "2 \<le> Suc k" using step.prems(1) step.hyps assms(1) by auto
  let ?e = "pw_tables w t (table_index va (Suc k))"
  note walk = step.prems(4) [unfolded entry_walk_step [of l _ _ "Suc k"] Let_def]
  consider "\<not> bit ?e 0" "\<not> create" | "\<not> bit ?e 0" "create" | "bit ?e 0" "bit ?e 7" | "bit ?e 0" "\<not> bit ?e 7"
    by blast
  then show ?case
  proof cases
    case 1
    have "vacant (pw_tables w) (h_root h) va l"
      unfolding vacant_def using step.prems(1,3) 1(1) k(2)
      by (intro exI [of _ "Suc k"] exI [of _ t]) auto
    then show ?thesis using walk 1 k(2) keeps_refl [OF step.prems(2)] by (auto simp: walk_spec_def)
  next
    case 3
    then show ?thesis
      using walk k(2) keeps_refl [OF step.prems(2)] vacant_above [OF step.prems(3,1) _ 3, of l]
      by (auto simp: walk_spec_def)
  next
    case 4
    then have "entry_walk l create va k (?e AND PAGE_FRAME_MASK) h w = (st, slot, h', w')"
      using walk k(2) by simp
    moreover have "tab (pw_tables w) (h_root h) (vpath va 4 k) = Some (?e AND PAGE_FRAME_MASK)"
      using tab_vpath_down [OF step.prems(3) k(3) step.prems(1) 4] by simp
    ultimately show ?thesis using step.IH [OF k(1) step.prems(2)] by blast
  next
    case 2
    obtain s a h1 w1 where al: "allocate_table h w = (s, a, h1, w1)" by (cases "allocate_table h w")
    show ?thesis
    proof (cases "s = PAGING_STATUS_OK")
      case False
      note f = allocate_table_fail [OF hier_invD(1) [OF step.prems(2)] al False]
      then show ?thesis
        using walk 2 k(2) al False keeps_refl [OF step.prems(2)] by (auto simp: walk_spec_def)
    next
      case True
      let ?w2 = "set_entry t (table_index va (Suc k)) (the a OR PAGE_PRESENT OR PAGE_WRITABLE) w1"
      note ls = link_step [OF step.prems(2,3) k(4) step.prems(1) 2(1) al [unfolded True] assms(1) k(2)]
      have "hier_inv h1 ?w2" using ls(1) by (simp add: keeps_out_def)
      moreover have "entry_walk l create va k (the a) h1 ?w2 = (st, slot, h', w')"
        using walk 2 k(2) al True by simp
      moreover have "tab (pw_tables ?w2) (h_root h1) (vpath va 4 k) = Some (the a)"
        using ls(2) by simp
      ultimately have "walk_spec l create va h1 ?w2 st slot h' w'" using step.IH [OF k(1)] by blast
      then show ?thesis using walk_spec_mono [OF _ ls(1,3)] 2(2) by simp
    qed
  qed
qed

lemma entry_for_spec:
  assumes "1 \<le> l" "l \<le> 4" and "hier_inv h w" and "entry_for h va l create w = (st, slot, h', w')"
  shows "walk_spec l create va h w st slot h' w'"
  using entry_walk_spec [OF assms(1,2) order_refl assms(3) _ assms(4) [unfolded entry_for_def PAGING_LEVEL_COUNT_def]]
  by simp

subsection \<open>Writing a leaf\<close>

lemma next_table_0 [simp]: "next_table 0 = None"
  by (simp add: next_table_def)

lemma invalidate_tables [simp]:
  "pw_tables (invalidate h va w) = pw_tables w" "pw_frames (invalidate h va w) = pw_frames w"
  by (simp_all add: invalidate_def)

lemma hier_inv_invalidated [simp]: "hier_inv h' (invalidate h va w) = hier_inv h' w"
  unfolding hier_inv_def table_pool_cong [OF invalidate_tables(2)] by simp

lemma keeps_invalidated: "keeps_out l V h w h' (invalidate h'' va w') = keeps_out l V h w h' w'"
  by (simp add: keeps_out_def)

lemma leaf_step:
  assumes inv: "hier_inv h w" and at: "tab (pw_tables w) (h_root h) (vpath va 4 l) = Some t" "1 \<le> l" "l \<le> 4"
    and leaf: "l = 1 \<or> next_table (pw_tables w t (table_index va l)) = None \<and> next_table e = None"
  defines "w' \<equiv> set_entry t (table_index va l) e w"
  shows "keeps_out l {va} h w h w'" and "tab (pw_tables w') (h_root h) (vpath va 4 l) = Some t"
    and "pw_tables w' t (table_index va l) = e"
proof -
  note i = hier_invD [OF inv]
  have len: "length (vpath va 4 l) = 3 \<or> next_table (pw_tables w t (table_index va l)) = None \<and> next_table e = None"
    using leaf by auto
  note s = shape_write_leaf [OF i(2,3) table_path_vpath [OF at(2)] at(1) len]
  have T': "pw_tables w' = table_write (pw_tables w) t (table_index va l) e" by (simp add: w'_def)
  have "hier_inv h w'"
    unfolding hier_inv_def T' s(3) using s(1,2) i table_pool_cong [of w' w h] by (simp add: w'_def)
  moreover have "others h w' = others h w"
    unfolding others_def T' s(3) using table_pool_cong(2) [of w' w h] by (simp add: w'_def)
  ultimately show "keeps_out l {va} h w h w'"
    unfolding keeps_out_def T'
    using trans_write_leaf [OF i(2) at] vacant_write_leaf [OF i(2) at leaf _ _ at(2)]
      leaf_at_write_leaf [OF i(2) at leaf _ _ at(2,3)] by simp
  show "tab (pw_tables w') (h_root h) (vpath va 4 l) = Some t"
    unfolding T' using tab_write_leaf [OF i(2) table_path_vpath [OF at(2)] at(1) len table_path_vpath [OF at(2)]] at(1)
    by simp
  show "pw_tables w' t (table_index va l) = e" by (simp add: T')
qed

subsection \<open>Giving empty tables back\<close>

lemma table_is_empty_iff: "table_is_empty T t \<longleftrightarrow> empty_table T t"
  by (auto simp: table_is_empty_def empty_table_def list_all_iff PAGING_ENTRIES_PER_TABLE_def)

lemma release_table_pool:
  assumes "table_pool_inv (h, w)" and "c \<in> table_taken (h, w)" and "release_table h c w = (h', w')"
  shows "table_pool_inv (h', w')" and "table_taken (h', w') \<supseteq> table_taken (h, w) - {c}"
    and "h_arena_capacity h = 0 \<Longrightarrow> table_taken (h', w') = table_taken (h, w) - {c}"
    and "same_hierarchy h h'" and "h_table_frames h' = h_table_frames h - 1"
    and "pw_tables w' = pw_tables w" and "pw_invalidated w' = pw_invalidated w"
proof -
  have "table_pool_inv (h', w') \<and> table_taken (h, w) - {c} \<subseteq> table_taken (h', w')
     \<and> (h_arena_capacity h = 0 \<longrightarrow> table_taken (h', w') = table_taken (h, w) - {c})"
  proof (cases "h_arena_capacity h = 0")
    case True
    have "frame_pool_inv (pw_frames w)" "c \<in> frame_addresses (single_set (pw_frames w))"
      using assms(1,2) True by (simp_all add: table_pool_defs)
    from frames.give_taken [OF this] obtain s where
      s: "frame_give c (pw_frames w) = Some s" "frame_pool_inv s"
        "frame_addresses (single_set s) = frame_addresses (single_set (pw_frames w)) - {c}" by blast
    have "snd (frame_release c (pw_frames w)) = s"
      using s(1) by (auto simp: frame_give_def split: prod.splits frame_status.splits)
    then have w': "pw_frames w' = s" "h_arena_capacity h' = 0"
      using assms(3) True by (auto simp: release_table_def)
    then show ?thesis unfolding table_pool_defs prod.case w' using True s(2,3) by simp
  next
    case False
    then have "pw_frames w' = pw_frames w" "h_arena_used h' = h_arena_used h"
      "h_arena_capacity h' = h_arena_capacity h" "h_arena_base h' = h_arena_base h"
      using assms(3) by (auto simp: release_table_def)
    then show ?thesis using assms(1) False by (auto simp: table_pool_defs arena_page_def)
  qed
  then show "table_pool_inv (h', w')" "table_taken (h', w') \<supseteq> table_taken (h, w) - {c}"
    "h_arena_capacity h = 0 \<Longrightarrow> table_taken (h', w') = table_taken (h, w) - {c}" by blast+
  show "same_hierarchy h h'" "h_table_frames h' = h_table_frames h - 1"
    "pw_tables w' = pw_tables w" "pw_invalidated w' = pw_invalidated w"
    using assms(3) by (auto simp: release_table_def same_hierarchy_def split: if_split_asm)
qed

lemma unlink_step:
  assumes inv: "hier_inv h w" and at: "tab (pw_tables w) (h_root h) (vpath va 4 k) = Some t" "2 \<le> k" "k \<le> 4"
    and link: "next_table (pw_tables w t (table_index va k)) = Some c" and empty: "empty_table (pw_tables w) c"
    and rel: "release_table h c (set_entry t (table_index va k) 0 w) = (h', w')" and "1 \<le> l" "l \<le> 4"
  shows "keeps l h w h' w'" and "pw_invalidated w' = pw_invalidated w"
    and "pw_tables w' = table_write (pw_tables w) t (table_index va k) 0"
    and "k \<le> j \<Longrightarrow> tab (pw_tables w') (h_root h') (vpath va 4 j) = tab (pw_tables w) (h_root h) (vpath va 4 j)"
proof -
  note i = hier_invD [OF inv]
  let ?w = "set_entry t (table_index va k) 0 w"
  have path: "table_path (vpath va 4 k)" "length (vpath va 4 k) \<le> 2"
    using at(2) table_path_vpath by simp_all
  have down: "vpath va 4 k @ [table_index va k] = vpath va 4 (k - 1)"
    using vpath_snoc [of k 4 va] at(2,3) by simp
  have "tab (pw_tables w) (h_root h) (vpath va 4 (k - 1)) = Some c"
    unfolding down [symmetric] using at(1) link by (simp add: tab_snoc)
  then have c: "c \<in> reach (pw_tables w) (h_root h)"
    using at(2) by (intro reachI [OF table_path_vpath [of "k - 1"]]) simp_all
  have "table_pool_inv (h, ?w)" "c \<in> table_taken (h, ?w)"
    using table_pool_cong [of ?w w h] i(1,4) c by auto
  note r = release_table_pool [OF this rel]
  note s = shape_write_unlink [OF i(2,3) path(1) at(1) path(2) table_index_less link empty]
  have T': "pw_tables w' = table_write (pw_tables w) t (table_index va k) 0" using r(6) by simp
  then show "pw_tables w' = table_write (pw_tables w) t (table_index va k) 0" .
  have root: "h_root h' = h_root h" using r(4) by (simp add: same_hierarchy_def)
  have "card (reach (pw_tables w) (h_root h)) = Suc (card (reach (pw_tables w) (h_root h) - {c}))"
    using card.remove [OF i(6) c] .
  then have "hier_inv h' w'"
    unfolding hier_inv_def T' root s(3)
    using r(1,2,5) s(1,2) i(4,5) table_pool_cong [of ?w w h] by auto
  moreover have "others h' w' = others h w" if "h_arena_capacity h = 0"
    unfolding others_def T' root s(3) r(3) [OF that] using table_pool_cong(2) [of ?w w h] c by auto
  ultimately show "keeps l h w h' w'"
    unfolding keeps_out_def T'
    using trans_write_unlink [OF i(2) at link empty] leaf_at_write_unlink [OF i(2) at link empty _ assms(8,9)]
      r(4) assms(8) by simp
  show "pw_invalidated w' = pw_invalidated w" using r(7) by simp
  show "tab (pw_tables w') (h_root h') (vpath va 4 j) = tab (pw_tables w) (h_root h) (vpath va 4 j)" if "k \<le> j"
  proof -
    have "length (vpath va 4 j) \<noteq> length (vpath va 4 (k - 1))" using that at(2,3) by simp
    then have "vpath va 4 j \<noteq> vpath va 4 k @ [table_index va k]" unfolding down by metis
    then show ?thesis
      unfolding T' root
      using tab_write_unlink [OF i(2) path(1) at(1) path(2) table_index_less link empty table_path_vpath [of j va]]
        that at(2) by simp
  qed
qed

lemma collect_tables_step:
  "collect_tables T va k path =
     (if k > 1 then
        if bit (T (path k) (table_index va k)) 0 \<and> \<not> bit (T (path k) (table_index va k)) 7
        then collect_tables T va (k - 1) (path(k - 1 := T (path k) (table_index va k) AND PAGE_FRAME_MASK))
        else None
      else Some path)"
  by (subst collect_tables.simps) (simp add: Let_def)

lemma collect_tables_Some:
  assumes "1 \<le> k" "k \<le> 4" and "collect_tables T va k path = Some path'"
    and "\<forall>j. k \<le> j \<and> j \<le> 4 \<longrightarrow> tab T root (vpath va 4 j) = Some (path j)"
  shows "\<forall>j. 1 \<le> j \<and> j \<le> 4 \<longrightarrow> tab T root (vpath va 4 j) = Some (path' j)"
  using assms
proof (induction k arbitrary: path rule: nat_induct_at_least)
  case base
  then show ?case by (simp add: collect_tables_step [of _ _ "Suc 0"])
next
  case (Suc k)
  let ?e = "T (path (Suc k)) (table_index va (Suc k))"
  have e: "bit ?e 0" "\<not> bit ?e 7"
    and c: "collect_tables T va k (path(k := ?e AND PAGE_FRAME_MASK)) = Some path'"
    using Suc.prems(2) Suc.hyps by (auto simp: collect_tables_step [of _ _ "Suc k"] split: if_split_asm)
  have "tab T root (vpath va 4 (Suc k)) = Some (path (Suc k))" using Suc.prems(1,3) by simp
  from tab_vpath_down [OF this _ Suc.prems(1) e]
  have "tab T root (vpath va 4 k) = Some (?e AND PAGE_FRAME_MASK)" by simp
  then have t: "\<forall>j. k \<le> j \<and> j \<le> 4 \<longrightarrow> tab T root (vpath va 4 j) = Some ((path(k := ?e AND PAGE_FRAME_MASK)) j)"
    using Suc.prems(3) by (simp add: not_less_eq_eq [symmetric] le_antisym)
  have "k \<le> 4" using Suc.prems(1) by simp
  from Suc.IH [OF this c t] show ?case .
qed

lemma release_empty_step:
  "release_empty va path k h w =
     (if k < 4 \<and> empty_table (pw_tables w) (path k)
      then (case release_table h (path k) (set_entry (path (k + 1)) (table_index va (k + 1)) 0 w) of
              (h', w') \<Rightarrow> release_empty va path (k + 1) h' w')
      else (h, w))"
  by (subst release_empty.simps) (simp add: table_is_empty_iff PAGING_LEVEL_COUNT_def)

lemma release_empty_keeps:
  assumes "1 \<le> k" "k \<le> 4" and "hier_inv h w" and "1 \<le> l" "l \<le> 4"
    and "\<forall>j. k \<le> j \<and> j \<le> 4 \<longrightarrow> tab (pw_tables w) (h_root h) (vpath va 4 j) = Some (path j)"
    and "release_empty va path k h w = (h', w')"
  shows "keeps l h w h' w' \<and> pw_invalidated w' = pw_invalidated w"
  using assms(1-3,6,7)
proof (induction "4 - k" arbitrary: k h w)
  case 0
  then show ?case using keeps_refl by (simp add: release_empty_step [of _ _ 4])
next
  case (Suc n)
  show ?case
  proof (cases "empty_table (pw_tables w) (path k)")
    case False
    then show ?thesis using Suc.prems keeps_refl by (simp add: release_empty_step [of _ _ k])
  next
    case True
    have k: "k < 4" using Suc.hyps(2) by simp
    obtain h1 w1 where r: "release_table h (path k) (set_entry (path (k + 1)) (table_index va (k + 1)) 0 w) = (h1, w1)"
      by fastforce
    have at: "tab (pw_tables w) (h_root h) (vpath va 4 (k + 1)) = Some (path (k + 1))"
      "tab (pw_tables w) (h_root h) (vpath va 4 k) = Some (path k)"
      using Suc.prems(4) k by simp_all
    have link: "next_table (pw_tables w (path (k + 1)) (table_index va (k + 1))) = Some (path k)"
      using at vpath_snoc [of "k + 1" 4 va] k by (simp add: tab_snoc)
    have k2: "2 \<le> k + 1" "k + 1 \<le> 4" using Suc.prems(1) k by simp_all
    note u = unlink_step [OF Suc.prems(3) at(1) k2 link True r assms(4,5)]
    have "hier_inv h1 w1" using u(1) by (simp add: keeps_out_def)
    moreover have "\<forall>j. k + 1 \<le> j \<and> j \<le> 4 \<longrightarrow> tab (pw_tables w1) (h_root h1) (vpath va 4 j) = Some (path j)"
      using u(4) Suc.prems(4) by simp
    moreover have "release_empty va path (k + 1) h1 w1 = (h', w')"
      using Suc.prems(5) True k r by (simp add: release_empty_step [of _ _ k])
    ultimately have "keeps l h1 w1 h' w' \<and> pw_invalidated w' = pw_invalidated w1"
      using Suc.hyps(1) [of "k + 1" h1 w1] Suc.hyps(2) k2 by simp
    then show ?thesis using keeps_trans_0 [OF u(1)] u(2) by simp
  qed
qed

lemma reclaim_keeps:
  assumes "hier_inv h w" and "1 \<le> l" "l \<le> 4" and "reclaim_empty_tables h va w = (h', w')"
  shows "keeps l h w h' w'" and "pw_invalidated w' = pw_invalidated w"
proof -
  have "keeps l h w h' w' \<and> pw_invalidated w' = pw_invalidated w"
  proof (cases "collect_tables (pw_tables w) va 4 ((\<lambda>_. 0)(4 := h_root h))")
    case None
    then show ?thesis using assms keeps_refl by (simp add: reclaim_empty_tables_def PAGING_LEVEL_COUNT_def)
  next
    case (Some path)
    have "\<forall>j. 1 \<le> j \<and> j \<le> 4 \<longrightarrow> tab (pw_tables w) (h_root h) (vpath va 4 j) = Some (path j)"
      by (rule collect_tables_Some [OF _ _ Some]) auto
    from release_empty_keeps [OF _ _ assms(1-3) this] Some assms(4)
    show ?thesis by (simp add: reclaim_empty_tables_def PAGING_LEVEL_COUNT_def)
  qed
  then show "keeps l h w h' w'" "pw_invalidated w' = pw_invalidated w" by blast+
qed

end
