(* ===== verification/Page_Ranges.thy ===== *)
theory Page_Ranges
  imports Page_Walk
begin

text \<open>
  The range operations of \<open>src/kernel/paging.c\<close> on a hierarchy: clearing, mapping with rollback,
  unmapping, changing permissions, and what they do to the translation of every address.
\<close>

subsection \<open>Clearing pages\<close>

lemma entry_walk_found:
  assumes "l \<le> k" and "tab (pw_tables w) t (vpath va k l) = Some t'"
  shows "entry_walk l create va k t h w = (PAGING_STATUS_OK, Some (t', table_index va l), h, w)"
  using assms
proof (induction k arbitrary: t rule: dec_induct)
  case base
  then show ?case by (simp add: entry_walk_step [of l _ _ l])
next
  case (step k)
  have kl: "l < Suc k" using step.hyps(1) by simp
  note s = tab_vpath_step [OF kl step.prems]
  then show ?case using step.IH [of "pw_tables w t (table_index va (Suc k)) AND PAGE_FRAME_MASK"] kl
    by (simp add: entry_walk_step [of l _ _ "Suc k"] Let_def)
qed

lemma entry_for_found:
  assumes "l \<le> 4" and "tab (pw_tables w) (h_root h) (vpath va 4 l) = Some t"
  shows "entry_for h va l create w = (PAGING_STATUS_OK, Some (t, table_index va l), h, w)"
  unfolding entry_for_def PAGING_LEVEL_COUNT_def by (rule entry_walk_found [OF assms])

definition logged :: "page_hierarchy \<Rightarrow> u64 list \<Rightarrow> paging_world \<Rightarrow> paging_world \<Rightarrow> bool" where
  "logged h vas w w' \<longleftrightarrow> pw_invalidated w' = (if h_live h then rev vas @ pw_invalidated w else pw_invalidated w)"

lemma clear_page_spec:
  assumes inv: "hier_inv h w" and l: "1 \<le> l" "l \<le> 4"
    and leaf: "leaf_at (pw_tables w) (h_root h) (va + x) l e"
    and step: "clear_page va l x (h, w) = (h', w')"
  shows "keeps_out l {va + x} h w h' w'" and "vacant (pw_tables w') (h_root h) (va + x) l"
    and "logged h [va + x] w w'"
proof -
  let ?a = "va + x"
  from leaf obtain t where t: "tab (pw_tables w) (h_root h) (vpath ?a 4 l) = Some t"
    "pw_tables w t (table_index ?a l) = e" "bit e 0" "l = 1 \<or> bit e 7" by (auto simp: leaf_at_def)
  let ?w1 = "set_entry t (table_index ?a l) 0 w" and ?w2 = "invalidate h ?a (set_entry t (table_index ?a l) 0 w)"
  have "l = 1 \<or> next_table (pw_tables w t (table_index ?a l)) = None \<and> next_table 0 = None"
    using t(2,4) by (auto simp: next_table_def)
  note ls = leaf_step [OF inv t(1) l this]
  have k: "keeps_out l {?a} h w h ?w2" using ls(1) by (simp add: keeps_invalidated)
  have v: "vacant (pw_tables ?w2) (h_root h) ?a l"
    using vacant_at [OF ls(2) l(2)] ls(3) by simp
  have log: "logged h [?a] w ?w2" by (simp add: logged_def invalidate_def)
  have eq: "(h', w') = (if l = 1 then reclaim_empty_tables h ?a ?w2 else (h, ?w2))"
    using step by (simp add: clear_page_def entry_for_found [OF l(2) t(1)] Let_def split: if_split_asm)
  have "keeps_out l {?a} h w h' w' \<and> vacant (pw_tables w') (h_root h) ?a l \<and> logged h [?a] w w'"
  proof (cases "l = 1")
    case False
    then show ?thesis using k v log eq by simp
  next
    case True
    then have "reclaim_empty_tables h ?a ?w2 = (h', w')" using eq by simp
    note r = reclaim_keeps [OF keeps_outD(1) [OF k] l this]
    have "vacant (pw_tables w') (h_root h) ?a l" using r(1) v by (simp add: keeps_out_def)
    then show ?thesis using keeps_trans_1 [OF k r(1)] log r(2) by (simp add: logged_def)
  qed
  then show "keeps_out l {?a} h w h' w'" "vacant (pw_tables w') (h_root h) ?a l" "logged h [?a] w w'"
    by blast+
qed

text \<open>The pages of a loop use different entries.\<close>

definition apart :: "nat \<Rightarrow> u64 \<Rightarrow> u64 list \<Rightarrow> bool" where
  "apart l va = sorted_wrt (\<lambda>x x'. \<not> same_slot l (va + x) (va + x'))"

lemma same_slot_sym: "same_slot l a b \<longleftrightarrow> same_slot l b a"
  by (auto simp: same_slot_def)

lemma same_slot_trans: "same_slot l a b \<Longrightarrow> same_slot l b c \<Longrightarrow> same_slot l a c"
  by (simp add: same_slot_def)

lemma apart_append:
  "apart l va (xs @ xs') \<longleftrightarrow> apart l va xs \<and> apart l va xs'
     \<and> (\<forall>x \<in> set xs. \<forall>x' \<in> set xs'. \<not> same_slot l (va + x) (va + x'))"
  by (auto simp: apart_def sorted_wrt_append)

lemma apart_Cons:
  "apart l va (x # xs) \<longleftrightarrow> apart l va xs \<and> (\<forall>x' \<in> set xs. \<not> same_slot l (va + x) (va + x'))"
  by (auto simp: apart_def)

lemma logged_append:
  "logged h vas w w1 \<Longrightarrow> logged h vas' w1 w2 \<Longrightarrow> logged h (vas @ vas') w w2"
  by (simp add: logged_def)

lemma keeps_out_leaf:
  "keeps_out l V h w h' w' \<Longrightarrow> (\<forall>v \<in> V. \<not> same_slot l a v) \<Longrightarrow> leaf_at (pw_tables w) (h_root h) a l e
     \<Longrightarrow> leaf_at (pw_tables w') (h_root h) a l e"
  and keeps_out_vacant:
  "keeps_out l V h w h' w' \<Longrightarrow> (\<forall>v \<in> V. \<not> same_slot l a v) \<Longrightarrow> vacant (pw_tables w) (h_root h) a l
     \<Longrightarrow> vacant (pw_tables w') (h_root h) a l"
  and keeps_out_trans:
  "keeps_out l V h w h' w' \<Longrightarrow> (\<forall>v \<in> V. \<not> same_slot l a v)
     \<Longrightarrow> trans (pw_tables w') (h_root h) pat a = trans (pw_tables w) (h_root h) pat a"
  by (simp_all add: keeps_out_def)

lemma clear_pages_spec:
  assumes "1 \<le> l" "l \<le> 4" and "hier_inv h w" and "apart l va xs"
    and "\<forall>x \<in> set xs. \<exists>e. leaf_at (pw_tables w) (h_root h) (va + x) l e"
    and "fold (clear_page va l) xs (h, w) = (h', w')"
  shows "keeps_out l ((+) va ` set xs) h w h' w'
     \<and> (\<forall>x \<in> set xs. vacant (pw_tables w') (h_root h) (va + x) l) \<and> logged h (map ((+) va) xs) w w'"
  using assms(3-)
proof (induction xs arbitrary: h w)
  case Nil
  then show ?case using keeps_refl by (simp add: logged_def)
next
  case (Cons x xs)
  obtain h1 w1 where s: "clear_page va l x (h, w) = (h1, w1)" by fastforce
  obtain e where "leaf_at (pw_tables w) (h_root h) (va + x) l e" using Cons.prems(3) by auto
  note c = clear_page_spec [OF Cons.prems(1) assms(1,2) this s]
  note root = keeps_outD(3) [OF c(1)]
  have a: "apart l va xs" "\<forall>x' \<in> set xs. \<not> same_slot l (va + x) (va + x')"
    using Cons.prems(2) by (simp_all add: apart_Cons)
  have "\<forall>x \<in> set xs. \<exists>e. leaf_at (pw_tables w1) (h_root h1) (va + x) l e"
    using Cons.prems(3) a(2) keeps_out_leaf [OF c(1)] unfolding root by (auto simp: same_slot_sym) metis
  moreover have "fold (clear_page va l) xs (h1, w1) = (h', w')" using Cons.prems(4) s by simp
  ultimately have i: "keeps_out l ((+) va ` set xs) h1 w1 h' w'"
    "\<forall>x \<in> set xs. vacant (pw_tables w') (h_root h) (va + x) l" "logged h1 (map ((+) va) xs) w1 w'"
    using Cons.IH [OF keeps_outD(1) [OF c(1)] a(1)] root by auto
  have "vacant (pw_tables w') (h_root h1) (va + x) l"
    by (rule keeps_out_vacant [OF i(1)]) (use a(2) c(2) root in auto)
  moreover have "logged h (map ((+) va) xs) w1 w'"
    using i(3) keeps_outD(4) [OF c(1)] by (simp add: logged_def)
  ultimately show ?case
    using keeps_trans [OF c(1) i(1)] i(2) root logged_append [OF c(3)] by simp
qed

subsection \<open>The offsets of a range\<close>

lemma ceil_exact: "0 < p \<Longrightarrow> (p * m + (p - 1)) div p = (m :: nat)"
  by (rule div_nat_eqI) simp_all

definition page_count :: "u64 \<Rightarrow> nat \<Rightarrow> nat" where
  "page_count len l = unat len div 2 ^ page_shift l"

text \<open>A range that the checks let through, short enough not to span the canonical hole.\<close>

definition range_ok :: "u64 \<Rightarrow> u64 \<Rightarrow> nat \<Rightarrow> bool" where
  "range_ok va len l \<longleftrightarrow> 1 \<le> l \<and> l \<le> 4 \<and> unat len \<le> 2 ^ 63
     \<and> validate_virtual_range va len (level_page_size l) = PAGING_STATUS_OK"

lemma range_okD:
  assumes "range_ok va len l"
  shows "1 \<le> l" and "l \<le> 4" and "2 ^ page_shift l dvd unat va" and "2 ^ page_shift l dvd unat len"
    and "unat va + unat len < 2 ^ 64" and "0 < unat len"
proof -
  have v: "validate_virtual_range va len (level_page_size l) = PAGING_STATUS_OK"
    using assms unfolding range_ok_def by blast
  show "1 \<le> l" "l \<le> 4" using assms unfolding range_ok_def by blast+
  show "2 ^ page_shift l dvd unat va" "2 ^ page_shift l dvd unat len" "unat va + unat len < 2 ^ 64" "0 < unat len"
    by (rule validate_virtual_range_OK [OF v])+
qed

abbreviation page_offset :: "nat \<Rightarrow> nat \<Rightarrow> u64" where
  "page_offset l k \<equiv> of_nat k * level_page_size l"

lemma range_offsets_pages:
  assumes "1 \<le> l" "l \<le> 4" and "2 ^ page_shift l dvd unat len"
  shows "range_offsets len (level_page_size l) = map (page_offset l) [0..<page_count len l]"
proof -
  have u: "unat (level_page_size l) = 2 ^ page_shift l" using level_page_size_nat assms by simp
  obtain m where m: "unat len = 2 ^ page_shift l * m" using assms(3) by blast
  then have "page_count len l = m" by (simp add: page_count_def)
  then show ?thesis
    unfolding range_offsets_def u m using ceil_exact [of "2 ^ page_shift l" m] by simp
qed

lemma unat_page_offset:
  assumes "1 \<le> l" "l \<le> 4" and "k \<le> page_count len l"
  shows "unat (page_offset l k) = k * 2 ^ page_shift l" and "k * 2 ^ page_shift l \<le> unat len"
proof -
  have "k * 2 ^ page_shift l \<le> page_count len l * 2 ^ page_shift l" using assms(3) by (rule mult_le_mono1)
  also have "\<dots> \<le> unat len" unfolding page_count_def by (rule div_times_less_eq_dividend)
  finally show b: "k * 2 ^ page_shift l \<le> unat len" .
  have "page_offset l k = of_nat (k * 2 ^ page_shift l)"
    unfolding of_nat_mult level_page_size_nat [OF assms(1,2), symmetric] by simp
  then show "unat (page_offset l k) = k * 2 ^ page_shift l"
    using b unat_less_size [of len] by (simp only:) (rule unat_of_nat_small, simp)
qed

lemma range_ok_bounds:
  assumes "range_ok va len l" and "k < page_count len l"
  shows "unat (va + page_offset l k) = unat va + k * 2 ^ page_shift l"
    and "unat va + k * 2 ^ page_shift l + 2 ^ page_shift l \<le> unat va + unat len"
    and "2 ^ page_shift l dvd unat (va + page_offset l k)"
proof -
  note l = range_okD(1,2) [OF assms(1)] and v = range_okD(3,5) [OF assms(1)]
  have "Suc k \<le> page_count len l" using assms(2) by simp
  from unat_page_offset(2) [OF l this]
  show b: "unat va + k * 2 ^ page_shift l + 2 ^ page_shift l \<le> unat va + unat len" by simp
  have "unat (page_offset l k) = k * 2 ^ page_shift l"
    by (rule unat_page_offset(1) [OF l less_imp_le [OF assms(2)]])
  then show u: "unat (va + page_offset l k) = unat va + k * 2 ^ page_shift l"
    using b v(2) by (simp add: unat_word_ariths)
  show "2 ^ page_shift l dvd unat (va + page_offset l k)" unfolding u using v(1) by simp
qed

lemma range_ok_canonical:
  assumes "range_ok va len l" and "unat va \<le> unat a" and "unat a < unat va + unat len"
  shows "address_is_canonical a"
  using canonical_between [OF validate_virtual_range_OK(5,6,1,4) [of va len l] _ assms(2,3)] assms(1)
  by (simp add: range_ok_def)

lemma page_canonical:
  assumes "range_ok va len l" and "k < page_count len l"
  shows "address_is_canonical (va + page_offset l k)"
proof (rule range_ok_canonical [OF assms(1)])
  note b = range_ok_bounds [OF assms]
  have "0 < (2 :: nat) ^ page_shift l" by simp
  then show "unat va \<le> unat (va + page_offset l k)" "unat (va + page_offset l k) < unat va + unat len"
    using b(2) unfolding b(1) by linarith+
qed

text \<open>The address of a page in the range, as the walk sees it and as a number.\<close>

lemma in_page_iff:
  assumes "range_ok va len l" and "k < page_count len l" and "address_is_canonical a"
  shows "same_slot l a (va + page_offset l k) \<longleftrightarrow>
     unat va + k * 2 ^ page_shift l \<le> unat a \<and> unat a < unat va + Suc k * 2 ^ page_shift l"
proof -
  note l = range_okD(1,2) [OF assms(1)]
  note b = range_ok_bounds [OF assms(1,2)]
  note c = page_canonical [OF assms(1,2)]
  let ?p = "2 ^ page_shift l :: nat"
  obtain m where m: "unat va + k * ?p = ?p * m" using b(3) unfolding b(1) by blast
  have "same_slot l a (va + page_offset l k) \<longleftrightarrow> unat a div ?p = m"
    unfolding same_slot_page [OF assms(3) c l] b(1) m by simp
  also have "\<dots> \<longleftrightarrow> ?p * m \<le> unat a \<and> unat a < ?p * m + ?p"
    by (metis (no_types) add.commute dividend_less_times_div div_nat_eqI le_add1 mult_Suc_right
        times_div_less_eq_dividend zero_less_numeral zero_less_power)
  finally show ?thesis unfolding m [symmetric] by (simp add: algebra_simps)
qed

lemma in_range_iff:
  assumes "range_ok va len l" and "address_is_canonical a"
  shows "(\<exists>x \<in> set (range_offsets len (level_page_size l)). same_slot l a (va + x))
     \<longleftrightarrow> unat va \<le> unat a \<and> unat a < unat va + unat len"
proof -
  let ?p = "2 ^ page_shift l :: nat"
  note l = range_okD(1,2) [OF assms(1)] and d = range_okD(4) [OF assms(1)]
  then have n: "unat len = page_count len l * ?p" by (simp add: page_count_def)
  have "(\<exists>x \<in> set (range_offsets len (level_page_size l)). same_slot l a (va + x))
     \<longleftrightarrow> (\<exists>k < page_count len l. unat va + k * ?p \<le> unat a \<and> unat a < unat va + Suc k * ?p)"
    unfolding range_offsets_pages [OF l d] using in_page_iff [OF assms(1) _ assms(2)] by auto
  also have "\<dots> \<longleftrightarrow> unat va \<le> unat a \<and> unat a < unat va + unat len"
  proof (intro iffI; elim exE conjE)
    fix k assume k: "k < page_count len l" "unat va + k * ?p \<le> unat a" "unat a < unat va + Suc k * ?p"
    have "Suc k * ?p \<le> unat len" unfolding n using k(1) by (intro mult_le_mono1) simp
    then show "unat va \<le> unat a \<and> unat a < unat va + unat len" using k(2,3) by linarith
  next
    assume a: "unat va \<le> unat a" "unat a < unat va + unat len"
    let ?k = "(unat a - unat va) div ?p"
    have "?k < page_count len l" using a n by (intro less_mult_imp_div_less) linarith
    moreover have "?k * ?p \<le> unat a - unat va" "unat a - unat va < Suc ?k * ?p"
      using dividend_less_div_times [of ?p "unat a - unat va"] by (simp_all add: div_times_less_eq_dividend)
    then have "unat va + ?k * ?p \<le> unat a" "unat a < unat va + Suc ?k * ?p" using a(1) by linarith+
    ultimately show "\<exists>k < page_count len l. unat va + k * ?p \<le> unat a \<and> unat a < unat va + Suc k * ?p" by blast
  qed
  finally show ?thesis .
qed

lemma range_apart:
  assumes "range_ok va len l"
  shows "apart l va (range_offsets len (level_page_size l))"
proof -
  note l = range_okD(1,2) [OF assms] and d = range_okD(4) [OF assms]
  have "\<not> same_slot l (va + page_offset l i) (va + page_offset l j)"
    if "i < j" "j < page_count len l" for i j
  proof
    have i: "i < page_count len l" using that by simp
    note b = range_ok_bounds [OF assms i]
    note c = page_canonical [OF assms i]
    assume "same_slot l (va + page_offset l i) (va + page_offset l j)"
    then have "unat va + j * 2 ^ page_shift l \<le> unat va + i * 2 ^ page_shift l"
      unfolding in_page_iff [OF assms that(2) c] b(1) by blast
    then show False using that(1) by simp
  qed
  then show ?thesis
    unfolding range_offsets_pages [OF l d] apart_def sorted_wrt_map
    by (auto simp: sorted_wrt_iff_nth_less)
qed

subsection \<open>Mapping\<close>

lemma map_check_step:
  "map_check h va l w (x # xs) =
     (case entry_for h (va + x) l False w of (st, slot, _, _) \<Rightarrow>
        if st = PAGING_STATUS_OK then
          if bit (pw_tables w (fst (the slot)) (snd (the slot))) 0 then PAGING_STATUS_ALREADY_MAPPED
          else map_check h va l w xs
        else if st \<noteq> PAGING_STATUS_NOT_MAPPED then st else map_check h va l w xs)"
  by (simp add: split_beta)

lemma map_check_OK:
  assumes "hier_inv h w" and "1 \<le> l" "l \<le> 4"
  shows "map_check h va l w xs = PAGING_STATUS_OK
     \<longleftrightarrow> (\<forall>x \<in> set xs. vacant (pw_tables w) (h_root h) (va + x) l)"
proof (induction xs)
  case (Cons x xs)
  obtain st slot h' w' where e: "entry_for h (va + x) l False w = (st, slot, h', w')"
    by (cases "entry_for h (va + x) l False w")
  note s = entry_for_spec [OF assms(2,3,1) e, unfolded walk_spec_def]
  have hw: "h' = h" "w' = w" using s by simp_all
  have "map_check h va l w (x # xs) = PAGING_STATUS_OK \<longleftrightarrow>
     vacant (pw_tables w) (h_root h) (va + x) l \<and> map_check h va l w xs = PAGING_STATUS_OK"
  proof (cases "st = PAGING_STATUS_OK")
    case True
    then obtain t where t: "slot = Some (t, table_index (va + x) l)"
      "tab (pw_tables w) (h_root h) (vpath (va + x) 4 l) = Some t" using s hw by auto
    show ?thesis unfolding map_check_step e vacant_at [OF t(2) assms(3)] using True t(1) by simp
  next
    case False
    then show ?thesis unfolding map_check_step e using s hw by (auto split: paging_status.splits)
  qed
  then show ?case using Cons.IH by simp
qed simp

lemma map_check_status:
  assumes "hier_inv h w" and "1 \<le> l" "l \<le> 4"
  shows "map_check h va l w xs
     \<in> {PAGING_STATUS_OK, PAGING_STATUS_ALREADY_MAPPED, PAGING_STATUS_HUGE_PAGE_PRESENT}"
proof (induction xs)
  case (Cons x xs)
  obtain st slot h' w' where e: "entry_for h (va + x) l False w = (st, slot, h', w')"
    by (cases "entry_for h (va + x) l False w")
  note s = entry_for_spec [OF assms(2,3,1) e, unfolded walk_spec_def]
  show ?case unfolding map_check_step e using s Cons.IH by (auto split: paging_status.splits)
qed simp

lemma map_pages_step:
  "map_pages va pa p l h w (x # xs) =
     (case entry_for h (va + x) l True w of (st, slot, h1, w1) \<Rightarrow>
        if st \<noteq> PAGING_STATUS_OK then (case clear_range h1 va x l w1 of (h2, w2) \<Rightarrow> (st, h2, w2))
        else map_pages va pa p l h1
               (invalidate h1 (va + x)
                  (set_entry (fst (the slot)) (snd (the slot)) (leaf_entry (pa + x) p l) w1)) xs)"
  by (simp add: split_beta)

text \<open>One page: the entry is reached, written and logged.\<close>

lemma map_page_spec:
  assumes inv: "hier_inv h w" and l: "1 \<le> l" "l \<le> 4"
    and vac: "vacant (pw_tables w) (h_root h) (va + x) l"
    and leaf: "bit e 0" "l = 1 \<or> bit e 7"
    and entry: "entry_for h (va + x) l True w = (PAGING_STATUS_OK, slot, h1, w1)"
  defines "w2 \<equiv> invalidate h1 (va + x) (set_entry (fst (the slot)) (snd (the slot)) e w1)"
  shows "keeps_out l {va + x} h w h1 w2" and "leaf_at (pw_tables w2) (h_root h) (va + x) l e"
    and "logged h [va + x] w w2"
proof -
  let ?a = "va + x"
  from entry_for_spec [OF l inv entry] obtain t where
    k: "keeps l h w h1 w1" "pw_invalidated w1 = pw_invalidated w" "slot = Some (t, table_index ?a l)"
      "tab (pw_tables w1) (h_root h1) (vpath ?a 4 l) = Some t"
    by (auto simp: walk_spec_def)
  have root: "h_root h1 = h_root h" "h_live h1 = h_live h" using keeps_outD [OF k(1)] by simp_all
  have "vacant (pw_tables w1) (h_root h1) ?a l" using k(1) vac root by (simp add: keeps_out_def)
  then have "\<not> bit (pw_tables w1 t (table_index ?a l)) 0" using vacant_at [OF k(4) l(2)] by simp
  then have none: "l = 1 \<or> next_table (pw_tables w1 t (table_index ?a l)) = None \<and> next_table e = None"
    using leaf by (auto simp: next_table_def)
  note s = leaf_step [OF keeps_outD(1) [OF k(1)] k(4) l none]
  have w2: "w2 = invalidate h1 ?a (set_entry t (table_index ?a l) e w1)" by (simp add: w2_def k(3))
  show "keeps_out l {?a} h w h1 w2"
    using keeps_trans_0 [OF k(1) s(1)] by (simp add: w2 keeps_invalidated)
  show "leaf_at (pw_tables w2) (h_root h) ?a l e"
    using s(2,3) leaf unfolding w2 leaf_at_def root by auto
  show "logged h [?a] w w2" using k(2) root by (simp add: w2 logged_def invalidate_def)
qed

lemma clear_range_offsets:
  assumes "1 \<le> l" "l \<le> 4" and "k < page_count len l"
  shows "range_offsets (page_offset l k) (level_page_size l) = map (page_offset l) [0..<k]"
proof -
  note u = unat_page_offset(1) [OF assms(1,2) less_imp_le [OF assms(3)]]
  then have "page_count (page_offset l k) l = k" by (simp add: page_count_def)
  moreover have "2 ^ page_shift l dvd unat (page_offset l k)" unfolding u by simp
  ultimately show ?thesis using range_offsets_pages [OF assms(1,2)] by simp
qed

text \<open>The loop, from the page of number \<open>k\<close> on: it ends with every page mapped, or with none.\<close>

definition mapped_pages where
  "mapped_pages va pa p l ks h w \<longleftrightarrow>
     (\<forall>k \<in> ks. leaf_at (pw_tables w) (h_root h) (va + page_offset l k) l (leaf_entry (pa + page_offset l k) p l))"

definition vacant_pages where
  "vacant_pages va l ks h w \<longleftrightarrow> (\<forall>k \<in> ks. vacant (pw_tables w) (h_root h) (va + page_offset l k) l)"

lemma pages_apart:
  assumes "range_ok va len l" and "i < page_count len l" "j < page_count len l" and "i \<noteq> j"
  shows "\<not> same_slot l (va + page_offset l i) (va + page_offset l j)"
proof
  note b = range_ok_bounds [OF assms(1,2)]
  assume "same_slot l (va + page_offset l i) (va + page_offset l j)"
  then have "unat va + j * 2 ^ page_shift l \<le> unat va + i * 2 ^ page_shift l
     \<and> unat va + i * 2 ^ page_shift l < unat va + Suc j * 2 ^ page_shift l"
    unfolding in_page_iff [OF assms(1,3) page_canonical [OF assms(1,2)]] b(1) .
  then have "j \<le> i" "i < Suc j" by (simp_all add: mult_less_cancel2 del: mult_Suc)
  then show False using assms(4) by simp
qed

text \<open>A page that is mapped keeps the others as they are.\<close>

lemma mapped_pages_next:
  assumes r: "range_ok va len l" and k: "k < page_count len l"
    and step: "keeps_out l {va + page_offset l k} h w h' w'"
    and here: "leaf_at (pw_tables w') (h_root h) (va + page_offset l k) l (leaf_entry (pa + page_offset l k) p l)"
    and "mapped_pages va pa p l {..<k} h w" and "vacant_pages va l {k..<page_count len l} h w"
  shows "mapped_pages va pa p l {..<Suc k} h' w'" and "vacant_pages va l {Suc k..<page_count len l} h' w'"
proof -
  note root = keeps_outD(3) [OF step]
  have other: "\<forall>v \<in> {va + page_offset l k}. \<not> same_slot l (va + page_offset l j) v"
    if "j < page_count len l" "j \<noteq> k" for j
    using pages_apart [OF r that(1) k that(2)] by simp
  show "mapped_pages va pa p l {..<Suc k} h' w'"
    unfolding mapped_pages_def root
  proof
    fix j assume j: "j \<in> {..<Suc k}"
    show "leaf_at (pw_tables w') (h_root h) (va + page_offset l j) l (leaf_entry (pa + page_offset l j) p l)"
    proof (cases "j = k")
      case False
      then have "leaf_at (pw_tables w) (h_root h) (va + page_offset l j) l (leaf_entry (pa + page_offset l j) p l)"
        using assms(5) j by (simp add: mapped_pages_def)
      then show ?thesis using False j k by (intro keeps_out_leaf [OF step other]) simp_all
    qed (use here in simp)
  qed
  show "vacant_pages va l {Suc k..<page_count len l} h' w'"
    unfolding vacant_pages_def root
  proof
    fix j assume j: "j \<in> {Suc k..<page_count len l}"
    then have "vacant (pw_tables w) (h_root h) (va + page_offset l j) l"
      using assms(6) by (simp add: vacant_pages_def)
    then show "vacant (pw_tables w') (h_root h) (va + page_offset l j) l"
      using j by (intro keeps_out_vacant [OF step other]) simp_all
  qed
qed

text \<open>The rollback clears exactly the pages that were mapped.\<close>

lemma clear_mapped_pages:
  assumes r: "range_ok va len l" and k: "k < page_count len l" and inv: "hier_inv h w"
    and mapped: "mapped_pages va pa p l {..<k} h w" and vac: "vacant_pages va l {k..<page_count len l} h w"
    and clear: "clear_range h va (page_offset l k) l w = (h', w')"
  shows "keeps_out l ((\<lambda>k. va + page_offset l k) ` {..<k}) h w h' w'"
    and "vacant_pages va l {..<page_count len l} h' w'"
proof -
  note l = range_okD(1,2) [OF r]
  let ?xs = "map (page_offset l) [0..<k]" and ?n = "page_count len l"
  have "[0..<?n] = [0..<k] @ [k..<?n]" using upt_add_eq_append [of 0 k "?n - k"] k by simp
  then have "apart l va ?xs"
    using range_apart [OF r] unfolding range_offsets_pages [OF l range_okD(4) [OF r]]
    by (simp only: map_append apart_append)
  moreover have "\<forall>x \<in> set ?xs. \<exists>e. leaf_at (pw_tables w) (h_root h) (va + x) l e"
    using mapped by (auto simp: mapped_pages_def)
  moreover have "fold (clear_page va l) ?xs (h, w) = (h', w')"
    using clear by (simp add: clear_range_def clear_range_offsets [OF l k])
  ultimately have c: "keeps_out l ((+) va ` set ?xs) h w h' w'"
    "\<forall>x \<in> set ?xs. vacant (pw_tables w') (h_root h) (va + x) l"
    using clear_pages_spec [OF l inv] by blast+
  have "(+) va ` set ?xs = (\<lambda>k. va + page_offset l k) ` {..<k}" by auto
  then show ks: "keeps_out l ((\<lambda>k. va + page_offset l k) ` {..<k}) h w h' w'" using c(1) by simp
  have "vacant (pw_tables w') (h_root h) (va + page_offset l j) l" if j: "j < ?n" for j
  proof (cases "j < k")
    case False
    then have "vacant (pw_tables w) (h_root h) (va + page_offset l j) l"
      using vac j by (simp add: vacant_pages_def)
    then show ?thesis
      using pages_apart [OF r j] False k by (intro keeps_out_vacant [OF ks]) auto
  qed (use c(2) in auto)
  then show "vacant_pages va l {..<?n} h' w'"
    by (simp add: vacant_pages_def keeps_outD(3) [OF ks])
qed

lemma keeps_pages:
  "keeps l h w h' w' \<Longrightarrow> mapped_pages va pa p l K h w \<Longrightarrow> mapped_pages va pa p l K h' w'"
  "keeps l h w h' w' \<Longrightarrow> vacant_pages va l K h w \<Longrightarrow> vacant_pages va l K h' w'"
  by (auto simp: keeps_out_def same_hierarchy_def mapped_pages_def vacant_pages_def)

lemma keeps_mono: "keeps_out l V h w h' w' \<Longrightarrow> V \<subseteq> V' \<Longrightarrow> keeps_out l V' h w h' w'"
  unfolding keeps_out_def by blast

lemma map_pages_spec:
  assumes r: "range_ok va len l" and ok: "\<forall>k < page_count len l. leaf_ok (pa + page_offset l k) p l"
    and "k \<le> page_count len l" and "hier_inv h w"
    and "mapped_pages va pa p l {..<k} h w" and "vacant_pages va l {k..<page_count len l} h w"
    and "map_pages va pa p l h w (map (page_offset l) [k..<page_count len l]) = (st, h', w')"
  shows "keeps_out l ((\<lambda>k. va + page_offset l k) ` {..<page_count len l}) h w h' w'
     \<and> (if st = PAGING_STATUS_OK then mapped_pages va pa p l {..<page_count len l} h' w'
        else st = PAGING_STATUS_OUT_OF_FRAMES \<and> vacant_pages va l {..<page_count len l} h' w')"
  using assms(3-)
proof (induction k arbitrary: h w rule: inc_induct)
  case base
  then show ?case using keeps_refl by auto
next
  case (step k)
  note l = range_okD(1,2) [OF r] and k = step.hyps(2)
  let ?n = "page_count len l" and ?x = "page_offset l k" and ?V = "(\<lambda>k. va + page_offset l k) ` {..<page_count len l}"
  have xs: "map (page_offset l) [k..<?n] = ?x # map (page_offset l) [Suc k..<?n]"
    using k by (simp add: upt_conv_Cons del: upt_Suc)
  obtain s slot h1 w1 where e: "entry_for h (va + ?x) l True w = (s, slot, h1, w1)"
    by (cases "entry_for h (va + ?x) l True w")
  note sp = entry_for_spec [OF l step.prems(1) e, unfolded walk_spec_def]
  have vac: "vacant (pw_tables w) (h_root h) (va + ?x) l"
    using step.prems(3) k by (simp add: vacant_pages_def)
  note loop = step.prems(4) [unfolded xs map_pages_step e prod.case]
  show ?case
  proof (cases "s = PAGING_STATUS_OK")
    case True
    let ?w2 = "invalidate h1 (va + ?x) (set_entry (fst (the slot)) (snd (the slot)) (leaf_entry (pa + ?x) p l) w1)"
    have "bit (leaf_entry (pa + ?x) p l) 0" "l = 1 \<or> bit (leaf_entry (pa + ?x) p l) 7"
      using bit_leaf_entry [of "pa + ?x" p l] ok k by auto
    note m = map_page_spec [OF step.prems(1) l vac this e [unfolded True]]
    note n = mapped_pages_next [OF r k m(1,2) step.prems(2,3)]
    have "map_pages va pa p l h1 ?w2 (map (page_offset l) [Suc k..<?n]) = (st, h', w')"
      using loop True by simp
    note i = step.IH [OF keeps_outD(1) [OF m(1)] n this]
    have "{va + ?x} \<union> ?V = ?V" using k by auto
    then show ?thesis using keeps_trans [OF m(1), of ?V h' w'] i by simp
  next
    case False
    have k1: "keeps l h w h1 w1" using sp by blast
    have clear: "clear_range h1 va ?x l w1 = (h', w')" and st: "st = PAGING_STATUS_OUT_OF_FRAMES"
      using loop False sp vac by (auto split: prod.splits paging_status.splits)
    note c = clear_mapped_pages [OF r k keeps_outD(1) [OF k1] keeps_pages(1) [OF k1 step.prems(2)]
        keeps_pages(2) [OF k1 step.prems(3)] clear]
    have "keeps_out l ?V h w h' w'" using k by (intro keeps_mono [OF keeps_trans_0 [OF k1 c(1)]]) auto
    then show ?thesis using st c(2) by simp
  qed
qed

subsection \<open>Reading a leaf back\<close>

definition mapping_type :: "u32 \<Rightarrow> paging_memory_type" where
  "mapping_type p =
     (if bit p 2 then PAGING_MEMORY_UNCACHEABLE
      else if bit p 3 then PAGING_MEMORY_WRITE_COMBINING else PAGING_MEMORY_WRITE_BACK)"

lemma permissions_back:
  assumes "validate_permissions p = PAGING_STATUS_OK" and "wr \<longleftrightarrow> bit p 0" and "ex \<longleftrightarrow> bit p 1"
  shows "memory_type_permissions (mapping_type p)
     (let q = (if wr then PAGING_READ OR PAGING_WRITE else PAGING_READ) in if ex then q OR PAGING_EXECUTE else q) = p"
proof (rule bit_word_eqI)
  fix n assume "n < LENGTH(32)"
  have v: "bit p n \<Longrightarrow> n < 4" "\<not> (bit p 2 \<and> bit p 3)"
    using assms(1) by (auto simp: validate_permissions_OK)
  have "n = 0 \<or> n = 1 \<or> n = 2 \<or> n = 3 \<or> 4 \<le> n" by linarith
  then show "bit (memory_type_permissions (mapping_type p)
     (let q = (if wr then PAGING_READ OR PAGING_WRITE else PAGING_READ) in if ex then q OR PAGING_EXECUTE else q)) n
     \<longleftrightarrow> bit p n"
    using v assms(2,3)
    by (elim disjE) (auto simp: memory_type_permissions_def mapping_type_def bit_or_iff bit_permissions
        PAGING_READ_def split: if_split)
qed

definition mapping :: "u64 \<Rightarrow> u32 \<Rightarrow> nat \<Rightarrow> paging_translation" where
  "mapping pa p l = \<lparr>tr_physical_address = pa, tr_permissions = p, tr_memory_type = mapping_type p,
     tr_level = l, tr_user = False\<rparr>"

lemma leaf_at_same_slot:
  assumes "same_slot l a b" and "l \<le> 4" shows "leaf_at T root a l e = leaf_at T root b l e"
proof -
  have "vpath a 4 l = vpath b 4 l" using vpath_eq_iff [OF assms(2), of a b] same_slot_mono [OF assms(1)] by simp
  moreover have "table_index a l = table_index b l" using assms by (simp add: same_slot_def)
  ultimately show ?thesis by (simp add: leaf_at_def)
qed

lemma vacant_same_slot:
  assumes "same_slot l a b" shows "vacant T root a l = vacant T root b l"
proof -
  have "vpath a 4 j = vpath b 4 j \<and> table_index a j = table_index b j" if "l \<le> j" "j \<le> 4" for j
    using that vpath_eq_iff [of j a b] assms same_slot_mono [OF assms, of "Suc j"]
    by (auto simp: same_slot_def)
  then show ?thesis unfolding vacant_def by (metis (no_types))
qed

lemma leaf_translation:
  assumes "links_open T root" and "leaf_at T root a l e" and "1 \<le> l" "l \<le> 4"
  shows "\<exists>u. trans T root pat a
     = (PAGING_STATUS_OK, fill_translation e a l (bit e 1) (\<not> bit e 63) (u \<and> bit e 2) pat)"
  using assms(2) translate_leaf_root [OF assms(1,3,4) _ refl] by (auto simp: leaf_at_def)

lemma fill_leaf_entry:
  assumes "leaf_ok pa p l" and "pat_ok pat" and "e = leaf_entry pa p l"
  shows "fill_translation e a l (bit e 1) (\<not> bit e 63) (u \<and> bit e 2) pat
     = mapping (pa + (a AND mask (page_shift l))) p l"
proof -
  have ty: "leaf_memory_type e l pat = mapping_type p"
    unfolding assms(3) leaf_memory_type_entry [OF assms(1,2)] mapping_type_def ..
  have "pa AND (a AND mask (page_shift l)) = 0"
    by (rule bit_word_eqI) (use leaf_ok_bits [OF assms(1)] in \<open>fastforce simp: bit_and_iff bit_mask_iff\<close>)
  then have ph: "pa OR (a AND mask (page_shift l)) = pa + (a AND mask (page_shift l))"
    by (simp add: disjunctive_add_eq_or)
  have v: "validate_permissions p = PAGING_STATUS_OK" using assms(1) by (simp add: leaf_ok_def)
  have w: "bit e 1 \<longleftrightarrow> bit p 0" and x: "(\<not> bit e 63) \<longleftrightarrow> bit p 1" and nu: "\<not> bit e 2"
    using bit_leaf_entry [OF assms(1)] by (simp_all add: assms(3))
  show ?thesis
    unfolding fill_translation_def Let_def ty mapping_def permissions_back [OF v w x, unfolded Let_def]
      leaf_physical [OF assms(1), folded assms(3)] unfolding level_page_size_mask ph
    using nu by simp
qed

lemma page_of_range:
  assumes "range_ok va len l" and "k < page_count len l" and "address_is_canonical a"
    and "same_slot l a (va + page_offset l k)"
  shows "pa + page_offset l k + (a AND mask (page_shift l)) = pa + (a - va)"
proof -
  note b = range_ok_bounds [OF assms(1,2)]
  let ?p = "2 ^ page_shift l :: nat"
  have a: "unat (va + page_offset l k) \<le> unat a" "unat a < unat (va + page_offset l k) + ?p"
    using assms(4) unfolding in_page_iff [OF assms(1,2,3)] b(1) by simp_all
  obtain m where m: "unat (va + page_offset l k) = ?p * m" using b(3) by blast
  then have "unat a mod ?p = unat a - unat (va + page_offset l k)"
    using a by (metis add_diff_inverse_nat leD less_diff_conv2 mod_less mod_mult_self2 add.commute)
  moreover have "unat (a AND mask (page_shift l)) = unat a mod ?p"
    unfolding take_bit_eq_mask [symmetric] unsigned_take_bit_eq by (rule take_bit_eq_mod)
  ultimately have "unat (a AND mask (page_shift l)) = unat (a - (va + page_offset l k))"
    using a(1) by (simp add: unat_sub word_le_nat_alt)
  then have "a AND mask (page_shift l) = a - (va + page_offset l k)" by (rule unsigned_word_eqI)
  then show ?thesis by simp
qed

subsection \<open>The range operations\<close>

lemma translate_address_canonical:
  "address_is_canonical a \<Longrightarrow> translate_address h a pat w = trans (pw_tables w) (h_root h) pat a"
  and translate_address_noncanonical:
  "\<not> address_is_canonical a \<Longrightarrow> translate_address h a pat w = (PAGING_STATUS_NONCANONICAL_ADDRESS, no_translation)"
  by (simp_all add: translate_address_def PAGING_LEVEL_COUNT_def)

text \<open>The addresses of a range, and the two ways a range of pages can read.\<close>

definition in_range :: "u64 \<Rightarrow> u64 \<Rightarrow> u64 \<Rightarrow> bool" where
  "in_range va len a \<longleftrightarrow> unat va \<le> unat a \<and> unat a < unat va + unat len"

lemma in_range_page:
  assumes "range_ok va len l" and "address_is_canonical a"
  shows "in_range va len a \<longleftrightarrow> (\<exists>k < page_count len l. same_slot l a (va + page_offset l k))"
  using in_range_iff [OF assms] range_offsets_pages [OF range_okD(1,2,4) [OF assms(1)]]
  by (auto simp: in_range_def)

lemma mapped_pages_translate:
  assumes "range_ok va len l" and "\<forall>k < page_count len l. leaf_ok (pa + page_offset l k) p l" and "hier_inv h w"
    and "mapped_pages va pa p l {..<page_count len l} h w" and "pat_ok pat" and "in_range va len a"
  shows "translate_address h a pat w = (PAGING_STATUS_OK, mapping (pa + (a - va)) p l)"
proof -
  note l = range_okD(1,2) [OF assms(1)]
  have c: "address_is_canonical a"
    using assms(6) range_ok_canonical [OF assms(1)] by (simp add: in_range_def)
  then obtain k where k: "k < page_count len l" "same_slot l a (va + page_offset l k)"
    using assms(6) in_range_page [OF assms(1)] by blast
  let ?e = "leaf_entry (pa + page_offset l k) p l"
  have ok: "leaf_ok (pa + page_offset l k) p l" using assms(2) k(1) by blast
  have "leaf_at (pw_tables w) (h_root h) a l ?e"
    using assms(4) k leaf_at_same_slot [OF k(2) l(2)] by (auto simp: mapped_pages_def)
  from leaf_translation [OF hier_invD(3) [OF assms(3)] this l, of pat] show ?thesis
    unfolding translate_address_canonical [OF c] fill_leaf_entry [OF ok assms(5) refl]
      page_of_range [OF assms(1) k(1) c k(2)] by blast
qed

lemma vacant_pages_translate:
  assumes "range_ok va len l" and "vacant_pages va l {..<page_count len l} h w" and "in_range va len a"
  shows "translate_address h a pat w = (PAGING_STATUS_NOT_MAPPED, no_translation)"
proof -
  have c: "address_is_canonical a"
    using assms(3) range_ok_canonical [OF assms(1)] by (simp add: in_range_def)
  then obtain k where k: "k < page_count len l" "same_slot l a (va + page_offset l k)"
    using assms(3) in_range_page [OF assms(1)] by blast
  then have "vacant (pw_tables w) (h_root h) a l"
    using assms(2) vacant_same_slot [OF k(2)] by (auto simp: vacant_pages_def)
  then show ?thesis
    unfolding translate_address_canonical [OF c] using vacant_translate range_okD(1) [OF assms(1)] by blast
qed

lemma keeps_pages_translate:
  assumes "range_ok va len l" and "\<not> in_range va len a"
    and "keeps_out l ((\<lambda>k. va + page_offset l k) ` {..<page_count len l}) h w h' w'"
  shows "translate_address h' a pat w' = translate_address h a pat w"
proof (cases "address_is_canonical a")
  case True
  then have "\<forall>v \<in> (\<lambda>k. va + page_offset l k) ` {..<page_count len l}. \<not> same_slot l a v"
    using assms(2) in_range_page [OF assms(1)] by auto
  from keeps_out_trans [OF assms(3) this] show ?thesis
    unfolding translate_address_canonical [OF True] keeps_outD(3) [OF assms(3)] .
qed (simp add: translate_address_noncanonical)

lemma physical_pages_ok:
  assumes "range_ok va len l" and "l \<le> 2" and "validate_permissions p = PAGING_STATUS_OK"
    and "validate_physical_range pa len (level_page_size l) = PAGING_STATUS_OK" and "k < page_count len l"
  shows "leaf_ok (pa + page_offset l k) p l"
proof -
  note l = range_okD(1,2) [OF assms(1)] and v = validate_physical_range_OK [OF assms(4)]
  have o: "unat (page_offset l k) = k * 2 ^ page_shift l"
    by (rule unat_page_offset(1) [OF l less_imp_le [OF assms(5)]])
  have "Suc k * 2 ^ page_shift l \<le> unat len" using assms(5) by (intro unat_page_offset(2) [OF l]) simp
  then have b: "k * 2 ^ page_shift l + 2 ^ page_shift l \<le> unat len" by simp
  have "0 < (2 :: nat) ^ page_shift l" by simp
  then have s: "unat pa + k * 2 ^ page_shift l < 2 ^ 52" using b v(2) by linarith
  then have "unat (pa + page_offset l k) = unat pa + k * 2 ^ page_shift l"
    unfolding o [symmetric] by (intro unat_plus_bounded) simp
  then show ?thesis using assms(2,3) l v(1) s by (auto simp: leaf_ok_def)
qed

lemma map_range_cases:
  assumes "hier_inv h w" and l: "1 \<le> l" "l \<le> 2" and "map_range h va pa len p l w = (st, h', w')"
  obtains (refused) "st \<noteq> PAGING_STATUS_OK" "h' = h" "w' = w"
  | (tried) "range_ok va len l" "\<forall>k < page_count len l. leaf_ok (pa + page_offset l k) p l"
      "vacant_pages va l {..<page_count len l} h w"
      "keeps_out l ((\<lambda>k. va + page_offset l k) ` {..<page_count len l}) h w h' w'"
      "if st = PAGING_STATUS_OK then mapped_pages va pa p l {..<page_count len l} h' w'
        else st = PAGING_STATUS_OUT_OF_FRAMES \<and> vacant_pages va l {..<page_count len l} h' w'"
proof (cases "validate_permissions p = PAGING_STATUS_OK
    \<and> validate_virtual_range va len (level_page_size l) = PAGING_STATUS_OK
    \<and> validate_physical_range pa len (level_page_size l) = PAGING_STATUS_OK
    \<and> map_check h va l w (range_offsets len (level_page_size l)) = PAGING_STATUS_OK")
  case False
  then show thesis using assms(4) by (intro refused) (auto simp: map_range_def Let_def split: if_split_asm)
next
  case True
  have l4: "l \<le> 4" using l(2) by simp
  have "unat len \<le> 2 ^ 52" using validate_physical_range_OK(2) [of pa len l] True by linarith
  also have "(2 :: nat) ^ 52 \<le> 2 ^ 63" by simp
  finally have r: "range_ok va len l" unfolding range_ok_def using True l(1) l4 by blast
  note xs = range_offsets_pages [OF l(1) l4 range_okD(4) [OF r]]
  have "map_check h va l w (range_offsets len (level_page_size l)) = PAGING_STATUS_OK" using True by blast
  then have vac: "vacant_pages va l {..<page_count len l} h w"
    unfolding map_check_OK [OF assms(1) l(1) l4] xs vacant_pages_def by auto
  have ok: "\<forall>k < page_count len l. leaf_ok (pa + page_offset l k) p l"
    using physical_pages_ok [OF r l(2)] True by blast
  have "map_pages va pa p l h w (map (page_offset l) [0..<page_count len l]) = (st, h', w')"
    using assms(4) True xs by (simp add: map_range_def)
  moreover have "mapped_pages va pa p l {..<0} h w" by (simp add: mapped_pages_def)
  moreover have "vacant_pages va l {0..<page_count len l} h w" using vac by (simp only: atLeast0LessThan)
  ultimately show thesis using map_pages_spec [OF r ok zero_le assms(1)] tried [OF r ok vac] by blast
qed

lemma map_range_translations:
  assumes "hier_inv h w" and "1 \<le> l" "l \<le> 2" and "pat_ok pat" and "map_range h va pa len p l w = (st, h', w')"
  shows "hier_inv h' w'" and "translate_address h' a pat w' =
     (if st = PAGING_STATUS_OK \<and> in_range va len a then (PAGING_STATUS_OK, mapping (pa + (a - va)) p l)
      else translate_address h a pat w)"
    and "st = PAGING_STATUS_OK \<Longrightarrow> in_range va len a
       \<Longrightarrow> translate_address h a pat w = (PAGING_STATUS_NOT_MAPPED, no_translation)"
proof -
  have "hier_inv h' w' \<and> (\<forall>a. translate_address h' a pat w' =
     (if st = PAGING_STATUS_OK \<and> in_range va len a then (PAGING_STATUS_OK, mapping (pa + (a - va)) p l)
      else translate_address h a pat w))
    \<and> (\<forall>a. st = PAGING_STATUS_OK \<longrightarrow> in_range va len a
       \<longrightarrow> translate_address h a pat w = (PAGING_STATUS_NOT_MAPPED, no_translation))"
    using assms(1-3,5)
  proof (cases rule: map_range_cases)
    case refused
    then show ?thesis using assms(1) by simp
  next
    case tried
    note inv = keeps_outD(1) [OF tried(4)]
    note old = vacant_pages_translate [OF tried(1,3), where pat = pat]
    note out = keeps_pages_translate [OF tried(1) _ tried(4), where pat = pat]
    show ?thesis
    proof (cases "st = PAGING_STATUS_OK")
      case True
      then have "mapped_pages va pa p l {..<page_count len l} h' w'" using tried(5) by simp
      from mapped_pages_translate [OF tried(1,2) inv this assms(4)] show ?thesis using inv old out True by simp
    next
      case False
      then have "vacant_pages va l {..<page_count len l} h' w'" using tried(5) by simp
      from vacant_pages_translate [OF tried(1) this, where pat = pat] have "translate_address h' a pat w' = translate_address h a pat w" for a
        using old [of a] out [of a] by (cases "in_range va len a") simp_all
      then show ?thesis using inv False by simp
    qed
  qed
  then show "hier_inv h' w'" and "translate_address h' a pat w' =
     (if st = PAGING_STATUS_OK \<and> in_range va len a then (PAGING_STATUS_OK, mapping (pa + (a - va)) p l)
      else translate_address h a pat w)"
    and "st = PAGING_STATUS_OK \<Longrightarrow> in_range va len a
       \<Longrightarrow> translate_address h a pat w = (PAGING_STATUS_NOT_MAPPED, no_translation)"
    by blast+
qed

subsection \<open>Unmapping\<close>

lemma require_mapped_step:
  "require_mapped_range h va w (x # xs) =
     (case entry_for h (va + x) 1 False w of (st, slot, _, _) \<Rightarrow>
        if st \<noteq> PAGING_STATUS_OK then st
        else if \<not> bit (pw_tables w (fst (the slot)) (snd (the slot))) 0 then PAGING_STATUS_NOT_MAPPED
        else require_mapped_range h va w xs)"
  by (simp add: split_beta)

lemma require_mapped_OK:
  assumes "hier_inv h w"
  shows "require_mapped_range h va w xs = PAGING_STATUS_OK
     \<longleftrightarrow> (\<forall>x \<in> set xs. \<exists>e. leaf_at (pw_tables w) (h_root h) (va + x) 1 e)"
proof (induction xs)
  case (Cons x xs)
  obtain st slot h' w' where e: "entry_for h (va + x) 1 False w = (st, slot, h', w')"
    by (cases "entry_for h (va + x) 1 False w")
  have l: "(1 :: nat) \<le> 1" "(1 :: nat) \<le> 4" by simp_all
  note s = entry_for_spec [OF l assms e, unfolded walk_spec_def]
  have hw: "h' = h" "w' = w" using s by simp_all
  have "require_mapped_range h va w (x # xs) = PAGING_STATUS_OK \<longleftrightarrow>
     (\<exists>e. leaf_at (pw_tables w) (h_root h) (va + x) 1 e) \<and> require_mapped_range h va w xs = PAGING_STATUS_OK"
  proof (cases "st = PAGING_STATUS_OK")
    case True
    then obtain t where t: "slot = Some (t, table_index (va + x) 1)"
      "tab (pw_tables w) (h_root h) (vpath (va + x) 4 1) = Some t" using s hw by auto
    have "(\<exists>e. leaf_at (pw_tables w) (h_root h) (va + x) 1 e) \<longleftrightarrow> bit (pw_tables w t (table_index (va + x) 1)) 0"
      using t(2) by (auto simp: leaf_at_def)
    then show ?thesis unfolding require_mapped_step e prod.case using True t(1) by simp
  next
    case False
    have "\<not> leaf_at (pw_tables w) (h_root h) (va + x) 1 e" for e
    proof
      assume "leaf_at (pw_tables w) (h_root h) (va + x) 1 e"
      then obtain t where "tab (pw_tables w) (h_root h) (vpath (va + x) 4 1) = Some t" by (auto simp: leaf_at_def)
      from entry_for_found [OF l(2) this] e False show False by simp
    qed
    then show ?thesis unfolding require_mapped_step e prod.case using False by simp
  qed
  then show ?case using Cons.IH by simp
qed simp

text \<open>
  A length that fits the lower half of the address space: without this bound a range may span the
  canonical hole, where two addresses share an entry.
\<close>

lemma page_size_1: "PAGING_PAGE_SIZE = level_page_size 1"
  by (simp add: PAGING_PAGE_SIZE_def page_size_level_1)

lemma range_ok_level_1:
  "range_ok va len 1 \<longleftrightarrow> unat len \<le> 2 ^ 63 \<and> validate_virtual_range va len PAGING_PAGE_SIZE = PAGING_STATUS_OK"
  unfolding range_ok_def page_size_1 by auto

lemma range_offsets_1:
  "range_ok va len 1 \<Longrightarrow> range_offsets len PAGING_PAGE_SIZE = map (page_offset 1) [0..<page_count len 1]"
  unfolding page_size_1 by (rule range_offsets_pages [OF range_okD(1,2,4)])

lemma unmap_range_cases:
  assumes "hier_inv h w" and "unat len \<le> 2 ^ 63" and "unmap_range h va len w = (st, h', w')"
  obtains (refused) "st \<noteq> PAGING_STATUS_OK" "h' = h" "w' = w"
  | (cleared) "st = PAGING_STATUS_OK" "range_ok va len 1"
      "\<forall>k < page_count len 1. \<exists>e. leaf_at (pw_tables w) (h_root h) (va + page_offset 1 k) 1 e"
      "keeps_out 1 ((\<lambda>k. va + page_offset 1 k) ` {..<page_count len 1}) h w h' w'"
      "vacant_pages va 1 {..<page_count len 1} h' w'"
      "logged h (map (\<lambda>k. va + page_offset 1 k) [0..<page_count len 1]) w w'"
proof (cases "validate_virtual_range va len PAGING_PAGE_SIZE = PAGING_STATUS_OK
    \<and> require_mapped_range h va w (range_offsets len PAGING_PAGE_SIZE) = PAGING_STATUS_OK")
  case False
  then show thesis using assms(3) by (intro refused) (auto simp: unmap_range_def Let_def split: if_split_asm)
next
  case True
  then have r: "range_ok va len 1" unfolding range_ok_level_1 using assms(2) by blast
  let ?xs = "map (page_offset 1) [0..<page_count len 1]"
  note xs = range_offsets_1 [OF r]
  have m: "\<forall>x \<in> set ?xs. \<exists>e. leaf_at (pw_tables w) (h_root h) (va + x) 1 e"
    using True unfolding require_mapped_OK [OF assms(1)] xs by blast
  have a: "apart 1 va ?xs" using range_apart [OF r] unfolding page_size_1 [symmetric] xs .
  obtain h1 w1 where c: "fold (clear_page va 1) ?xs (h, w) = (h1, w1)" by fastforce
  then have "clear_range h va len 1 w = (h1, w1)"
    unfolding clear_range_def page_size_1 [symmetric] xs .
  then have eq: "st = PAGING_STATUS_OK" "h1 = h'" "w1 = w'"
    using assms(3) True unfolding unmap_range_def Let_def by simp_all
  have l: "(1 :: nat) \<le> 1" "(1 :: nat) \<le> 4" by simp_all
  note s = clear_pages_spec [OF l assms(1) a m c, unfolded eq]
  have V: "(+) va ` set ?xs = (\<lambda>k. va + page_offset 1 k) ` {..<page_count len 1}" by auto
  have map: "map ((+) va) ?xs = map (\<lambda>k. va + page_offset 1 k) [0..<page_count len 1]" by simp
  show thesis
  proof (rule cleared [OF eq(1) r])
    show "\<forall>k < page_count len 1. \<exists>e. leaf_at (pw_tables w) (h_root h) (va + page_offset 1 k) 1 e"
      using m by auto
    show "keeps_out 1 ((\<lambda>k. va + page_offset 1 k) ` {..<page_count len 1}) h w h' w'"
      using s unfolding V by blast
    then have "h_root h' = h_root h" by (rule keeps_outD)
    then show "vacant_pages va 1 {..<page_count len 1} h' w'"
      using s unfolding vacant_pages_def by auto
    show "logged h (map (\<lambda>k. va + page_offset 1 k) [0..<page_count len 1]) w w'"
      using s unfolding map by blast
  qed
qed

lemma unmap_range_translations:
  assumes "hier_inv h w" and "unat len \<le> 2 ^ 63" and "unmap_range h va len w = (st, h', w')"
  shows "hier_inv h' w'" and "translate_address h' a pat w' =
     (if st = PAGING_STATUS_OK \<and> in_range va len a then (PAGING_STATUS_NOT_MAPPED, no_translation)
      else translate_address h a pat w)"
  using assms
proof (atomize (full), cases rule: unmap_range_cases)
  case refused
  then show "hier_inv h' w' \<and> translate_address h' a pat w' =
     (if st = PAGING_STATUS_OK \<and> in_range va len a then (PAGING_STATUS_NOT_MAPPED, no_translation)
      else translate_address h a pat w)" using assms(1) by simp
next
  case cleared
  then show "hier_inv h' w' \<and> translate_address h' a pat w' =
     (if st = PAGING_STATUS_OK \<and> in_range va len a then (PAGING_STATUS_NOT_MAPPED, no_translation)
      else translate_address h a pat w)"
    using vacant_pages_translate [OF cleared(2,5), of a pat] keeps_pages_translate [OF cleared(2) _ cleared(4), of a pat]
      keeps_outD(1) [OF cleared(4)] by simp
qed

text \<open>When an address translates through a bottom table, and the exact domain of \<open>unmap_range\<close>.\<close>

lemma fill_level [simp]: "tr_level (fill_translation e a l x y z pat) = l"
  by (simp add: fill_translation_def Let_def)

lemma translate_walk_level:
  "translate_walk T pat va l t x y z = (PAGING_STATUS_OK, tr) \<Longrightarrow> tr_level tr = 1 \<Longrightarrow> 1 \<le> l
   \<Longrightarrow> \<exists>u. tab T t (vpath va l 1) = Some u \<and> bit (T u (table_index va 1)) 0"
proof (induction l arbitrary: t x y z)
  case (Suc l)
  let ?e = "T t (table_index va (Suc l))"
  show ?case
  proof (cases "l = 0")
    case True
    then show ?thesis using Suc.prems
      by (auto simp: translate_step [of _ _ _ "Suc 0"] Let_def split: if_split_asm)
  next
    case False
    then have e: "bit ?e 0" "\<not> bit ?e 7" using Suc.prems
      by (auto simp: translate_step [of _ _ _ "Suc l"] Let_def split: if_split_asm)
    then have "translate_walk T pat va l (?e AND PAGE_FRAME_MASK) (x \<and> bit ?e 1) (y \<and> \<not> bit ?e 63) (z \<and> bit ?e 2)
       = (PAGING_STATUS_OK, tr)"
      using Suc.prems(1) False by (simp add: translate_step [of _ _ _ "Suc l"] Let_def)
    from Suc.IH [OF this Suc.prems(2)] False e show ?thesis by (simp add: vpath_Cons next_table_def)
  qed
qed simp

lemma leaf_at_1_iff:
  assumes "hier_inv h w" and "address_is_canonical a"
  shows "(\<exists>e. leaf_at (pw_tables w) (h_root h) a 1 e)
     \<longleftrightarrow> (\<exists>tr. translate_address h a pat w = (PAGING_STATUS_OK, tr) \<and> tr_level tr = 1)"
proof
  assume "\<exists>e. leaf_at (pw_tables w) (h_root h) a 1 e"
  then show "\<exists>tr. translate_address h a pat w = (PAGING_STATUS_OK, tr) \<and> tr_level tr = 1"
    using leaf_translation [OF hier_invD(3) [OF assms(1)], of a 1 _ pat] fill_level
    unfolding translate_address_canonical [OF assms(2)] by fastforce
next
  assume "\<exists>tr. translate_address h a pat w = (PAGING_STATUS_OK, tr) \<and> tr_level tr = 1"
  then show "\<exists>e. leaf_at (pw_tables w) (h_root h) a 1 e"
    using translate_walk_level [of "pw_tables w" pat a 4 "h_root h"]
    by (fastforce simp: translate_address_canonical [OF assms(2)] leaf_at_def)
qed

lemma range_leaves_iff:
  assumes "hier_inv h w" and "range_ok va len 1"
  shows "(\<forall>k < page_count len 1. \<exists>e. leaf_at (pw_tables w) (h_root h) (va + page_offset 1 k) 1 e)
     \<longleftrightarrow> (\<forall>a. in_range va len a \<longrightarrow> (\<exists>tr. translate_address h a pat w = (PAGING_STATUS_OK, tr) \<and> tr_level tr = 1))"
proof (intro iffI allI impI)
  fix a assume *: "\<forall>k < page_count len 1. \<exists>e. leaf_at (pw_tables w) (h_root h) (va + page_offset 1 k) 1 e"
    and a: "in_range va len a"
  then have c: "address_is_canonical a" using range_ok_canonical [OF assms(2)] by (simp add: in_range_def)
  then obtain k where k: "k < page_count len 1" "same_slot 1 a (va + page_offset 1 k)"
    using a in_range_page [OF assms(2)] by blast
  then show "\<exists>tr. translate_address h a pat w = (PAGING_STATUS_OK, tr) \<and> tr_level tr = 1"
    using * leaf_at_same_slot [OF k(2)] unfolding leaf_at_1_iff [OF assms(1) c, symmetric] by fastforce
next
  fix k assume *: "\<forall>a. in_range va len a \<longrightarrow> (\<exists>tr. translate_address h a pat w = (PAGING_STATUS_OK, tr) \<and> tr_level tr = 1)"
    and k: "k < page_count len 1"
  note c = page_canonical [OF assms(2) k]
  have "in_range va len (va + page_offset 1 k)"
    unfolding in_range_page [OF assms(2) c] using k by (intro exI [of _ k]) simp
  then show "\<exists>e. leaf_at (pw_tables w) (h_root h) (va + page_offset 1 k) 1 e"
    using * unfolding leaf_at_1_iff [OF assms(1) c, of pat] by blast
qed

lemma unmap_range_OK_iff:
  assumes "hier_inv h w" and "unat len \<le> 2 ^ 63"
  shows "fst (unmap_range h va len w) = PAGING_STATUS_OK \<longleftrightarrow>
     validate_virtual_range va len PAGING_PAGE_SIZE = PAGING_STATUS_OK
     \<and> (\<forall>a. in_range va len a \<longrightarrow> (\<exists>tr. translate_address h a pat w = (PAGING_STATUS_OK, tr) \<and> tr_level tr = 1))"
proof (cases "range_ok va len 1")
  case True
  have "fst (unmap_range h va len w) = PAGING_STATUS_OK \<longleftrightarrow>
    require_mapped_range h va w (range_offsets len PAGING_PAGE_SIZE) = PAGING_STATUS_OK"
    using True unfolding range_ok_level_1 unmap_range_def Let_def by (simp split: prod.split)
  also have "\<dots> \<longleftrightarrow> (\<forall>k < page_count len 1. \<exists>e. leaf_at (pw_tables w) (h_root h) (va + page_offset 1 k) 1 e)"
    unfolding require_mapped_OK [OF assms(1)] range_offsets_1 [OF True] by auto
  finally show ?thesis using True unfolding range_leaves_iff [OF assms(1) True, of pat] range_ok_level_1 by blast
next
  case False
  then show ?thesis using assms(2) unfolding range_ok_level_1 unmap_range_def Let_def by simp
qed

subsection \<open>Changing permissions\<close>

lemma apply_permission_spec:
  assumes inv: "hier_inv h w" and leaf: "leaf_at (pw_tables w) (h_root h) (va + x) 1 e" and "bit flags 0"
  defines "w' \<equiv> apply_permission h va flags x w"
  shows "keeps_out 1 {va + x} h w h w'" and "logged h [va + x] w w'"
    and "leaf_at (pw_tables w') (h_root h) (va + x) 1 ((e AND PAGE_FRAME_MASK) OR flags)"
proof -
  let ?a = "va + x" and ?e = "(e AND PAGE_FRAME_MASK) OR flags"
  from leaf obtain t where t: "tab (pw_tables w) (h_root h) (vpath ?a 4 1) = Some t"
    "pw_tables w t (table_index ?a 1) = e" by (auto simp: leaf_at_def)
  have l: "(1 :: nat) \<le> 1" "(1 :: nat) \<le> 4" by simp_all
  have w': "w' = invalidate h ?a (set_entry t (table_index ?a 1) ?e w)"
    unfolding w'_def apply_permission_def entry_for_found [OF l(2) t(1)] using t(2) by simp
  note s = leaf_step [OF inv t(1) l, of ?e, simplified]
  show "keeps_out 1 {?a} h w h w'" using s(1) by (simp add: w' keeps_invalidated)
  show "logged h [?a] w w'" by (simp add: w' logged_def invalidate_def)
  show "leaf_at (pw_tables w') (h_root h) ?a 1 ?e"
    using s(2,3) assms(3) by (simp add: w' leaf_at_def bit_or_iff)
qed

lemma apply_pages_spec:
  assumes "bit flags 0" and "hier_inv h w" and "apart 1 va xs"
    and "\<forall>x \<in> set xs. leaf_at (pw_tables w) (h_root h) (va + x) 1 (f x)"
  shows "keeps_out 1 ((+) va ` set xs) h w h (fold (apply_permission h va flags) xs w)
     \<and> (\<forall>x \<in> set xs. leaf_at (pw_tables (fold (apply_permission h va flags) xs w)) (h_root h) (va + x) 1
          ((f x AND PAGE_FRAME_MASK) OR flags))
     \<and> logged h (map ((+) va) xs) w (fold (apply_permission h va flags) xs w)"
  using assms(2-)
proof (induction xs arbitrary: w)
  case Nil
  then show ?case using keeps_refl by (simp add: logged_def)
next
  case (Cons x xs)
  let ?w1 = "apply_permission h va flags x w"
  have "leaf_at (pw_tables w) (h_root h) (va + x) 1 (f x)" using Cons.prems(3) by simp
  note c = apply_permission_spec [OF Cons.prems(1) this assms(1)]
  have a: "apart 1 va xs" "\<forall>x' \<in> set xs. \<not> same_slot 1 (va + x) (va + x')"
    using Cons.prems(2) by (simp_all add: apart_Cons)
  have "\<forall>x \<in> set xs. leaf_at (pw_tables ?w1) (h_root h) (va + x) 1 (f x)"
    using Cons.prems(3) a(2) keeps_out_leaf [OF c(1)] by (auto simp: same_slot_sym)
  note i = Cons.IH [OF keeps_outD(1) [OF c(1)] a(1) this]
  have "\<forall>v \<in> (+) va ` set xs. \<not> same_slot 1 (va + x) v" using a(2) by auto
  then have "leaf_at (pw_tables (fold (apply_permission h va flags) xs ?w1)) (h_root h) (va + x) 1
      ((f x AND PAGE_FRAME_MASK) OR flags)"
    by (rule keeps_out_leaf [OF conjunct1 [OF i] _ c(3)])
  moreover have "keeps_out 1 ({va + x} \<union> (+) va ` set xs) h w h (fold (apply_permission h va flags) xs ?w1)"
    using keeps_trans [OF c(1)] i by blast
  moreover have "logged h ([va + x] @ map ((+) va) xs) w (fold (apply_permission h va flags) xs ?w1)"
    using logged_append [OF c(2)] i by blast
  ultimately show ?case using i by simp
qed

lemma protect_check_OK:
  assumes "\<forall>x \<in> set xs. leaf_at (pw_tables w) (h_root h) (va + x) 1 (f x)"
  shows "protect_check h va ty pat w xs = PAGING_STATUS_OK \<longleftrightarrow> (\<forall>x \<in> set xs. leaf_memory_type (f x) 1 pat = ty)"
  using assms
proof (induction xs)
  case (Cons x xs)
  from Cons.prems obtain t where t: "tab (pw_tables w) (h_root h) (vpath (va + x) 4 1) = Some t"
    "pw_tables w t (table_index (va + x) 1) = f x" by (auto simp: leaf_at_def)
  have "entry_for h (va + x) 1 False w = (PAGING_STATUS_OK, Some (t, table_index (va + x) 1), h, w)"
    by (rule entry_for_found [OF _ t(1)]) simp
  then show ?case using t(2) Cons by simp
qed simp

lemma protect_entry:
  assumes "validate_permissions p = PAGING_STATUS_OK"
  shows "(e AND PAGE_FRAME_MASK) OR permissions_to_flags p = leaf_entry (e AND PAGE_FRAME_MASK) p 1"
    and "leaf_ok (e AND PAGE_FRAME_MASK) p 1"
proof -
  show "(e AND PAGE_FRAME_MASK) OR permissions_to_flags p = leaf_entry (e AND PAGE_FRAME_MASK) p 1"
    by (simp add: leaf_entry_def)
  let ?m = "e AND PAGE_FRAME_MASK"
  have "take_bit 12 ?m = 0" "take_bit 52 ?m = ?m"
    by (rule bit_word_eqI; auto simp: bit_take_bit_iff bit_and_iff bit_frame_mask)+
  then have "unat (take_bit 12 ?m) = 0" "unat (take_bit 52 ?m) = unat ?m" by simp_all
  then have "4096 dvd unat ?m" "unat ?m < 2 ^ 52"
    unfolding unsigned_take_bit_eq using take_bit_nat_less_exp [of 52 "unat ?m"]
    by (simp_all add: take_bit_eq_mod dvd_eq_mod_eq_0)
  then show "leaf_ok ?m p 1" using assms by (simp add: leaf_ok_def)
qed

lemma requested_type:
  assumes "validate_permissions p = PAGING_STATUS_OK" and "pat_ok pat"
  shows "leaf_memory_type (permissions_to_flags p) 1 pat = mapping_type p"
proof -
  have "leaf_ok 0 p 1" "leaf_entry 0 p 1 = permissions_to_flags p"
    using assms(1) by (simp_all add: leaf_ok_def leaf_entry_def)
  then show ?thesis using leaf_memory_type_entry [of 0 p 1 pat] assms(2) by (simp add: mapping_type_def)
qed

lemma protect_translation:
  assumes "validate_permissions p = PAGING_STATUS_OK" and "pat_ok pat" and "leaf_memory_type e 1 pat = mapping_type p"
    and "e' = (e AND PAGE_FRAME_MASK) OR permissions_to_flags p"
  shows "fill_translation e' a 1 (bit e' 1) (\<not> bit e' 63) (u' \<and> bit e' 2) pat
     = (fill_translation e a 1 x y z pat)\<lparr>tr_permissions := p, tr_user := False\<rparr>"
proof -
  note e' = protect_entry [OF assms(1), of e]
  note new = fill_leaf_entry [OF e'(2) assms(2) assms(4) [unfolded e'(1)], of a u']
  have "(e AND PAGE_FRAME_MASK) AND (a AND mask 12) = 0"
    by (rule bit_word_eqI) (auto simp: bit_and_iff bit_frame_mask bit_mask_iff)
  then have ph: "(e AND PAGE_FRAME_MASK) OR (a AND mask 12) = (e AND PAGE_FRAME_MASK) + (a AND mask 12)"
    by (simp add: disjunctive_add_eq_or)
  have "e AND PAGE_FRAME_MASK AND NOT (level_page_size 1 - 1) = e AND PAGE_FRAME_MASK"
    unfolding level_page_size_mask
    by (rule bit_word_eqI) (auto simp: bit_and_iff bit_not_iff bit_frame_mask bit_mask_iff)
  then show ?thesis
    unfolding new mapping_def unfolding fill_translation_def Let_def assms(3) using ph
    by (simp add: level_page_size_mask del: page_size_level_1)
qed

lemma protect_range_cases:
  assumes "hier_inv h w" and "unat len \<le> 2 ^ 63" and "pat_ok pat" and "protect_range h va len p pat w = (st, w')"
  obtains (refused) "st \<noteq> PAGING_STATUS_OK" "w' = w"
  | (changed) f where "st = PAGING_STATUS_OK" "range_ok va len 1" "validate_permissions p = PAGING_STATUS_OK"
      "\<forall>k < page_count len 1. leaf_at (pw_tables w) (h_root h) (va + page_offset 1 k) 1 (f k)
         \<and> leaf_memory_type (f k) 1 pat = mapping_type p
         \<and> leaf_at (pw_tables w') (h_root h) (va + page_offset 1 k) 1 ((f k AND PAGE_FRAME_MASK) OR permissions_to_flags p)"
      "keeps_out 1 ((\<lambda>k. va + page_offset 1 k) ` {..<page_count len 1}) h w h w'"
      "logged h (map (\<lambda>k. va + page_offset 1 k) [0..<page_count len 1]) w w'"
proof (cases "validate_permissions p = PAGING_STATUS_OK \<and> validate_virtual_range va len PAGING_PAGE_SIZE = PAGING_STATUS_OK
    \<and> require_mapped_range h va w (range_offsets len PAGING_PAGE_SIZE) = PAGING_STATUS_OK
    \<and> protect_check h va (leaf_memory_type (permissions_to_flags p) 1 pat) pat w (range_offsets len PAGING_PAGE_SIZE)
        = PAGING_STATUS_OK")
  case False
  then show thesis using assms(4) by (intro refused) (auto simp: protect_range_def Let_def split: if_split_asm)
next
  case True
  then have r: "range_ok va len 1" unfolding range_ok_level_1 using assms(2) by blast
  let ?xs = "map (page_offset 1) [0..<page_count len 1]" and ?fl = "permissions_to_flags p"
  note xs = range_offsets_1 [OF r]
  have "\<forall>x \<in> set ?xs. \<exists>e. leaf_at (pw_tables w) (h_root h) (va + x) 1 e"
    using True unfolding require_mapped_OK [OF assms(1)] xs by blast
  then obtain g where g: "\<forall>x \<in> set ?xs. leaf_at (pw_tables w) (h_root h) (va + x) 1 (g x)" by metis
  have rt: "leaf_memory_type ?fl 1 pat = mapping_type p" using requested_type True assms(3) by blast
  have ty: "\<forall>x \<in> set ?xs. leaf_memory_type (g x) 1 pat = mapping_type p"
    using True unfolding xs rt protect_check_OK [OF g] by blast
  have a: "apart 1 va ?xs" using range_apart [OF r] unfolding page_size_1 [symmetric] xs .
  have w': "st = PAGING_STATUS_OK" "w' = fold (apply_permission h va ?fl) ?xs w"
    using assms(4) True unfolding protect_range_def apply_permissions_def Let_def xs by simp_all
  have "bit ?fl 0" by (simp add: bit_permissions_to_flags)
  note s = apply_pages_spec [OF this assms(1) a g, folded w'(2)]
  have V: "(+) va ` set ?xs = (\<lambda>k. va + page_offset 1 k) ` {..<page_count len 1}" by auto
  have map: "map ((+) va) ?xs = map (\<lambda>k. va + page_offset 1 k) [0..<page_count len 1]" by simp
  show thesis
  proof (rule changed [OF w'(1) r, of "\<lambda>k. g (page_offset 1 k)"])
    show "validate_permissions p = PAGING_STATUS_OK" using True by blast
    show "keeps_out 1 ((\<lambda>k. va + page_offset 1 k) ` {..<page_count len 1}) h w h w'"
      "logged h (map (\<lambda>k. va + page_offset 1 k) [0..<page_count len 1]) w w'"
      using s unfolding V map by blast+
  qed (use s g ty in auto)
qed

lemma protect_range_translations:
  assumes "hier_inv h w" and "unat len \<le> 2 ^ 63" and "pat_ok pat" and "protect_range h va len p pat w = (st, w')"
  shows "hier_inv h w'"
    and "\<not> (st = PAGING_STATUS_OK \<and> in_range va len a) \<Longrightarrow> translate_address h a pat w' = translate_address h a pat w"
    and "st = PAGING_STATUS_OK \<Longrightarrow> in_range va len a \<Longrightarrow>
      \<exists>tr. translate_address h a pat w = (PAGING_STATUS_OK, tr) \<and> tr_level tr = 1 \<and> tr_memory_type tr = mapping_type p
        \<and> translate_address h a pat w' = (PAGING_STATUS_OK, tr\<lparr>tr_permissions := p, tr_user := False\<rparr>)"
proof -
  have "hier_inv h w' \<and> (\<not> (st = PAGING_STATUS_OK \<and> in_range va len a) \<longrightarrow> translate_address h a pat w' = translate_address h a pat w)
    \<and> (st = PAGING_STATUS_OK \<longrightarrow> in_range va len a \<longrightarrow>
      (\<exists>tr. translate_address h a pat w = (PAGING_STATUS_OK, tr) \<and> tr_level tr = 1 \<and> tr_memory_type tr = mapping_type p
        \<and> translate_address h a pat w' = (PAGING_STATUS_OK, tr\<lparr>tr_permissions := p, tr_user := False\<rparr>)))"
    using assms
  proof (cases rule: protect_range_cases)
    case refused
    then show ?thesis using assms(1) by simp
  next
    case (changed f)
    note inv = keeps_outD(1) [OF changed(5)]
    have l: "(1 :: nat) \<le> 1" "(1 :: nat) \<le> 4" by simp_all
    have "\<exists>tr. translate_address h a pat w = (PAGING_STATUS_OK, tr) \<and> tr_level tr = 1 \<and> tr_memory_type tr = mapping_type p
        \<and> translate_address h a pat w' = (PAGING_STATUS_OK, tr\<lparr>tr_permissions := p, tr_user := False\<rparr>)"
      if a: "in_range va len a"
    proof -
      have c: "address_is_canonical a" using a range_ok_canonical [OF changed(2)] by (simp add: in_range_def)
      then obtain k where k: "k < page_count len 1" "same_slot 1 a (va + page_offset 1 k)"
        using a in_range_page [OF changed(2)] by blast
      let ?e = "(f k AND PAGE_FRAME_MASK) OR permissions_to_flags p"
      have "leaf_at (pw_tables w) (h_root h) a 1 (f k)" "leaf_at (pw_tables w') (h_root h) a 1 ?e"
        and ty: "leaf_memory_type (f k) 1 pat = mapping_type p"
        unfolding leaf_at_same_slot [OF k(2) l(2)] using changed(4) k(1) by blast+
      from leaf_translation [OF hier_invD(3) [OF assms(1)] this(1) l, of pat]
        leaf_translation [OF hier_invD(3) [OF inv] this(2) l, of pat]
      obtain u u' where
        t: "trans (pw_tables w) (h_root h) pat a = (PAGING_STATUS_OK,
           fill_translation (f k) a 1 (bit (f k) 1) (\<not> bit (f k) 63) (u \<and> bit (f k) 2) pat)"
        "trans (pw_tables w') (h_root h) pat a = (PAGING_STATUS_OK,
           fill_translation ?e a 1 (bit ?e 1) (\<not> bit ?e 63) (u' \<and> bit ?e 2) pat)" by blast
      have m: "tr_memory_type (fill_translation (f k) a 1 x y z pat) = mapping_type p" for x y z
        unfolding fill_translation_def Let_def ty by simp
      show ?thesis
        unfolding translate_address_canonical [OF c] t
        by (intro exI conjI, rule refl, rule fill_level, rule m,
            subst protect_translation [OF changed(3) assms(3) ty refl], rule refl)
    qed
    then show ?thesis using inv changed(1) keeps_pages_translate [OF changed(2) _ changed(5)] by blast
  qed
  then show "hier_inv h w'"
    and "\<not> (st = PAGING_STATUS_OK \<and> in_range va len a) \<Longrightarrow> translate_address h a pat w' = translate_address h a pat w"
    and "st = PAGING_STATUS_OK \<Longrightarrow> in_range va len a \<Longrightarrow>
      \<exists>tr. translate_address h a pat w = (PAGING_STATUS_OK, tr) \<and> tr_level tr = 1 \<and> tr_memory_type tr = mapping_type p
        \<and> translate_address h a pat w' = (PAGING_STATUS_OK, tr\<lparr>tr_permissions := p, tr_user := False\<rparr>)"
    by blast+
qed

end
