(* ===== verification/Page_Census.thy ===== *)
theory Page_Census
  imports Page_Ranges
begin

text \<open>
  Counting over the whole hierarchy: hierarchies in which no table is empty, which mapping and
  unmapping keep and in which the number of tables follows from the translations; and the audit of
  \<open>src/kernel/paging.c\<close>, whose count of writable and executable leaves is related to translation.
\<close>

subsection \<open>Hierarchies without empty tables\<close>

text \<open>No table but the root, those at the paths \<open>E\<close>, and perhaps the one at \<open>q\<close>, is empty.\<close>

definition packed_but :: "nat list set \<Rightarrow> tables \<Rightarrow> u64 \<Rightarrow> nat list \<Rightarrow> bool" where
  "packed_but E T root q \<longleftrightarrow>
     (\<forall>p t. table_path p \<longrightarrow> p \<noteq> [] \<longrightarrow> p \<notin> E \<longrightarrow> p \<noteq> q \<longrightarrow> tab T root p = Some t \<longrightarrow> \<not> empty_table T t)"

abbreviation packed_over :: "nat list set \<Rightarrow> tables \<Rightarrow> u64 \<Rightarrow> bool" where
  "packed_over E T root \<equiv> packed_but E T root []"

abbreviation packed :: "tables \<Rightarrow> u64 \<Rightarrow> bool" where
  "packed T root \<equiv> packed_over {} T root"

lemma packed_weaken: "packed_over E T root \<Longrightarrow> packed_but E T root q"
  by (simp add: packed_but_def)

lemma packed_strengthen:
  assumes "packed_but E T root q" and "q = [] \<or> (\<forall>t. tab T root q = Some t \<longrightarrow> \<not> empty_table T t)"
  shows "packed_over E T root"
  using assms unfolding packed_but_def by blast

lemma not_empty_at: "bit (T t (table_index va k)) 0 \<Longrightarrow> \<not> empty_table T t"
  unfolding empty_table_def using table_index_less by blast

lemma packed_write_leaf:
  assumes "tree T root" and "tab T root (vpath va 4 k) = Some t" and "1 \<le> k" "k \<le> 4"
    and "k = 1 \<or> next_table (T t (table_index va k)) = None \<and> next_table e = None"
    and "packed_but E T root (vpath va 4 k)"
  shows "packed_but E (table_write T t (table_index va k) e) root (vpath va 4 k)"
  unfolding packed_but_def
proof (intro allI impI)
  fix p u assume p: "table_path p" "p \<noteq> []" "p \<notin> E" "p \<noteq> vpath va 4 k"
    "tab (table_write T t (table_index va k) e) root p = Some u"
  have len: "length (vpath va 4 k) = 3 \<or> next_table (T t (table_index va k)) = None \<and> next_table e = None"
    using assms(5) by auto
  have pu: "tab T root p = Some u"
    using tab_write_leaf [OF assms(1) table_path_vpath [OF assms(3)] assms(2) len p(1)] p(5) by simp
  have "u \<noteq> t" using treeD [OF assms(1) p(1) table_path_vpath [OF assms(3)] pu] assms(2) p(4) by blast
  moreover have "\<not> empty_table T u" using assms(6) p pu by (simp add: packed_but_def)
  ultimately show "\<not> empty_table (table_write T t (table_index va k) e) u"
    by (simp add: empty_table_def table_write_def)
qed

lemma packed_write_link:
  assumes "tree T root" and p0: "tab T root (vpath va 4 k) = Some t" "2 \<le> k" "k \<le> 4"
    and absent: "\<not> bit (T t (table_index va k)) 0"
    and new: "n \<notin> reach T root" "empty_table T' n" "next_table (T' t (table_index va k)) = Some n"
    and other: "\<forall>u i. u \<noteq> n \<longrightarrow> (u, i) \<noteq> (t, table_index va k) \<longrightarrow> T' u i = T u i"
    and "packed_but E T root (vpath va 4 k)"
  shows "packed_but E T' root (vpath va 4 (k - 1))"
  unfolding packed_but_def
proof (intro allI impI)
  fix p u assume p: "table_path p" "p \<noteq> []" "p \<notin> E" "p \<noteq> vpath va 4 (k - 1)" "tab T' root p = Some u"
  have none: "next_table (T t (table_index va k)) = None" using absent by (simp add: next_table_def)
  have path: "table_path (vpath va 4 k)" "length (vpath va 4 k) \<le> 2" using p0(2) table_path_vpath by simp_all
  have pu: "tab T root p = Some u"
    using tab_write_link [OF assms(1) path(1) p0(1) path(2) table_index_less none new other p(1)] p(4,5)
      vpath_snoc [of k 4 va] p0(2,3) by simp
  have link: "bit (T' t (table_index va k)) 0" using new(3) by (auto simp: next_table_def split: if_split_asm)
  show "\<not> empty_table T' u"
  proof (cases "u = t")
    case True
    then show ?thesis using not_empty_at [of T' t va k] link by simp
  next
    case False
    then have "p \<noteq> vpath va 4 k" using pu p0(1) by auto
    then obtain i where i: "i < 512" "bit (T u i) 0"
      using assms(10) p pu unfolding packed_but_def empty_table_def by blast
    have "u \<noteq> n" using new(1) reachI [OF p(1) pu] by auto
    then have "T' u i = T u i" using other False by blast
    then show ?thesis using i by (auto simp: empty_table_def)
  qed
qed

lemma packed_write_unlink:
  assumes "tree T root" and p0: "tab T root (vpath va 4 k) = Some t" "2 \<le> k" "k \<le> 4"
    and link: "next_table (T t (table_index va k)) = Some c" and empty: "empty_table T c"
    and "packed_but E T root (vpath va 4 (k - 1))"
  shows "packed_but E (table_write T t (table_index va k) 0) root (vpath va 4 k)"
  unfolding packed_but_def
proof (intro allI impI)
  let ?T = "table_write T t (table_index va k) 0"
  fix p u assume p: "table_path p" "p \<noteq> []" "p \<notin> E" "p \<noteq> vpath va 4 k" "tab ?T root p = Some u"
  have path: "table_path (vpath va 4 k)" "length (vpath va 4 k) \<le> 2" using p0(2) table_path_vpath by simp_all
  have pu: "tab T root p = Some u" "p \<noteq> vpath va 4 (k - 1)"
    using tab_write_unlink [OF assms(1) path(1) p0(1) path(2) table_index_less link empty p(1)] p(5)
      vpath_snoc [of k 4 va] p0(2,3) by (auto split: if_split_asm)
  have "u \<noteq> t" using treeD [OF assms(1) p(1) path(1) pu(1)] p0(1) p(4) by blast
  moreover have "\<not> empty_table T u" using assms(7) p pu by (simp add: packed_but_def)
  ultimately show "\<not> empty_table ?T u" by (simp add: empty_table_def table_write_def)
qed

text \<open>A walk that succeeds leaves at most the table it ends at empty.\<close>

lemma link_step_packed:
  assumes inv: "hier_inv h w" and at: "tab (pw_tables w) (h_root h) (vpath va 4 k) = Some t" "2 \<le> k" "k \<le> 4"
    and absent: "\<not> bit (pw_tables w t (table_index va k)) 0"
    and alloc: "allocate_table h w = (PAGING_STATUS_OK, a, h1, w1)"
    and packed: "packed_but E (pw_tables w) (h_root h) (vpath va 4 k)"
  shows "packed_but E (pw_tables (set_entry t (table_index va k) (the a OR PAGE_PRESENT OR PAGE_WRITABLE) w1))
     (h_root h1) (vpath va 4 (k - 1))"
proof -
  note i = hier_invD [OF inv]
  from allocate_table_OK [OF i(1) alloc] obtain n where
    n: "a = Some n" "frame_address_ok n" "n \<notin> table_taken (h, w)"
      "pw_tables w1 = zero_table n (pw_tables w)" "same_hierarchy h h1" by blast
  let ?T = "pw_tables w" and ?i = "table_index va k"
  let ?T' = "table_write (zero_table n ?T) t ?i (n OR PAGE_PRESENT OR PAGE_WRITABLE)"
  have fresh: "n \<notin> reach ?T (h_root h)" using n(3) i(4) by blast
  have "1 \<le> k" using at(2) by simp
  from reachI [OF table_path_vpath [OF this] at(1)] have tn: "t \<noteq> n" using fresh by blast
  have other: "\<forall>u j. u \<noteq> n \<longrightarrow> (u, j) \<noteq> (t, ?i) \<longrightarrow> ?T' u j = ?T u j"
    by (auto simp: table_write_def zero_table_other)
  have empty: "empty_table ?T' n" using zero_table_empty [of n ?T] tn by (simp add: empty_table_def table_write_def)
  have "next_table (?T' t ?i) = Some n" using link_entry(1) [OF n(2)] by simp
  from packed_write_link [OF i(2) at absent fresh empty this other packed]
  show ?thesis using n(1,4,5) by (simp add: same_hierarchy_def)
qed

lemma entry_walk_packed:
  assumes "1 \<le> l" "l \<le> k" "k \<le> 4" and "hier_inv h w" and "tab (pw_tables w) (h_root h) (vpath va 4 k) = Some t"
    and "packed_but E (pw_tables w) (h_root h) (vpath va 4 k)"
    and "entry_walk l create va k t h w = (PAGING_STATUS_OK, slot, h', w')"
  shows "packed_but E (pw_tables w') (h_root h') (vpath va 4 l)"
  using assms(2-)
proof (induction k arbitrary: t h w rule: dec_induct)
  case base
  then show ?case by (simp add: entry_walk_step [of l _ _ l])
next
  case (step k)
  have k: "k \<le> 4" "l < Suc k" "1 \<le> Suc k" "2 \<le> Suc k" using step.prems(1) step.hyps assms(1) by auto
  let ?e = "pw_tables w t (table_index va (Suc k))"
  note walk = step.prems(5) [unfolded entry_walk_step [of l _ _ "Suc k"] Let_def]
  show ?case
  proof (cases "bit ?e 0")
    case True
    then have e: "\<not> bit ?e 7" and w: "entry_walk l create va k (?e AND PAGE_FRAME_MASK) h w = (PAGING_STATUS_OK, slot, h', w')"
      using walk k(2) by (auto split: if_split_asm)
    have at: "tab (pw_tables w) (h_root h) (vpath va 4 k) = Some (?e AND PAGE_FRAME_MASK)"
      using tab_vpath_down [OF step.prems(3) k(3) step.prems(1) True e] by simp
    have "packed_over E (pw_tables w) (h_root h)"
      using packed_strengthen [OF step.prems(4)] not_empty_at [of "pw_tables w" t va "Suc k"] True step.prems(3) by simp
    then show ?thesis using step.IH [OF k(1) step.prems(2) at _ w] packed_weaken by blast
  next
    case False
    obtain s a h1 w1 where al: "allocate_table h w = (s, a, h1, w1)" by (cases "allocate_table h w")
    have s: "create" "s = PAGING_STATUS_OK" using walk False k(2) al by (auto split: if_split_asm)
    let ?w2 = "set_entry t (table_index va (Suc k)) (the a OR PAGE_PRESENT OR PAGE_WRITABLE) w1"
    note ls = link_step [OF step.prems(2,3) k(4) step.prems(1) False al [unfolded s(2)] assms(1) k(2)]
    have at: "tab (pw_tables ?w2) (h_root h1) (vpath va 4 k) = Some (the a)" using ls(2) by simp
    have pk: "packed_but E (pw_tables ?w2) (h_root h1) (vpath va 4 k)"
      using link_step_packed [OF step.prems(2,3) k(4) step.prems(1) False al [unfolded s(2)] step.prems(4)] by simp
    have "entry_walk l create va k (the a) h1 ?w2 = (PAGING_STATUS_OK, slot, h', w')"
      using walk False k(2) al s by simp
    then show ?thesis using step.IH [OF k(1) keeps_outD(1) [OF ls(1)] at pk] by blast
  qed
qed

lemma release_empty_packed:
  assumes "1 \<le> k" "k \<le> 4" and "hier_inv h w"
    and "\<forall>j. k \<le> j \<and> j \<le> 4 \<longrightarrow> tab (pw_tables w) (h_root h) (vpath va 4 j) = Some (path j)"
    and "packed_but E (pw_tables w) (h_root h) (vpath va 4 k)" and "release_empty va path k h w = (h', w')"
  shows "packed_over E (pw_tables w') (h_root h')"
  using assms
proof (induction "4 - k" arbitrary: k h w)
  case 0
  then show ?case by (simp add: release_empty_step [of _ _ 4])
next
  case (Suc n)
  have k: "k < 4" using Suc.hyps(2) by simp
  have at: "tab (pw_tables w) (h_root h) (vpath va 4 (k + 1)) = Some (path (k + 1))"
    "tab (pw_tables w) (h_root h) (vpath va 4 k) = Some (path k)"
    using Suc.prems(4) k by simp_all
  show ?case
  proof (cases "empty_table (pw_tables w) (path k)")
    case False
    then show ?thesis
      using Suc.prems(6) packed_strengthen [OF Suc.prems(5)] at(2) by (simp add: release_empty_step [of _ _ k])
  next
    case True
    obtain h1 w1 where r: "release_table h (path k) (set_entry (path (k + 1)) (table_index va (k + 1)) 0 w) = (h1, w1)"
      by fastforce
    have link: "next_table (pw_tables w (path (k + 1)) (table_index va (k + 1))) = Some (path k)"
      using at vpath_snoc [of "k + 1" 4 va] k by (simp add: tab_snoc)
    have k2: "2 \<le> k + 1" "k + 1 \<le> 4" using Suc.prems(1) k by simp_all
    note u = unlink_step [OF Suc.prems(3) at(1) k2 link True r, of 1]
    have u1: "keeps 1 h w h1 w1" using u(1) by simp
    have "packed_but E (pw_tables w1) (h_root h1) (vpath va 4 (k + 1))"
      using packed_write_unlink [OF hier_invD(2) [OF Suc.prems(3)] at(1) k2 link True] Suc.prems(5)
        u(3) keeps_outD(3) [OF u1] by simp
    moreover have "\<forall>j. k + 1 \<le> j \<and> j \<le> 4 \<longrightarrow> tab (pw_tables w1) (h_root h1) (vpath va 4 j) = Some (path j)"
      using u(4) Suc.prems(4) by simp
    moreover have "release_empty va path (k + 1) h1 w1 = (h', w')"
      using Suc.prems(6) True k r by (simp add: release_empty_step [of _ _ k])
    ultimately show ?thesis
      using Suc.hyps(1) [of "k + 1" h1 w1] Suc.hyps(2) k2 keeps_outD(1) [OF u1] by simp
  qed
qed

lemma collect_tables_found:
  assumes "1 \<le> k" and "tab T (path k) (vpath va k 1) \<noteq> None"
  shows "collect_tables T va k path \<noteq> None"
  using assms
proof (induction k arbitrary: path rule: nat_induct_at_least)
  case base
  then show ?case by (simp add: collect_tables_step [of _ _ "Suc 0"])
next
  case (Suc k)
  then obtain u where "tab T (path (Suc k)) (vpath va (Suc k) 1) = Some u" by blast
  note s = tab_vpath_step [OF _ this]
  have k1: "1 < Suc k" using Suc.hyps by simp
  have "collect_tables T va k (path(k := T (path (Suc k)) (table_index va (Suc k)) AND PAGE_FRAME_MASK)) \<noteq> None"
    by (rule Suc.IH) (use s(3) [OF k1] in simp)
  then show ?case unfolding collect_tables_step [of _ _ "Suc k"] using s(1,2) [OF k1] k1 by simp
qed

lemma reclaim_packed:
  assumes "hier_inv h w" and "tab (pw_tables w) (h_root h) (vpath va 4 1) \<noteq> None"
    and "packed_but E (pw_tables w) (h_root h) (vpath va 4 1)" and "reclaim_empty_tables h va w = (h', w')"
  shows "packed_over E (pw_tables w') (h_root h')"
proof -
  let ?path = "(\<lambda>_. 0)(4 := h_root h)"
  obtain path where p: "collect_tables (pw_tables w) va 4 ?path = Some path"
    using collect_tables_found [of 4 "pw_tables w" ?path va] assms(2) by auto
  have "\<forall>j. 1 \<le> j \<and> j \<le> 4 \<longrightarrow> tab (pw_tables w) (h_root h) (vpath va 4 j) = Some (path j)"
    by (rule collect_tables_Some [OF _ _ p]) auto
  from release_empty_packed [OF _ _ assms(1) this assms(3)] assms(4) p
  show ?thesis by (simp add: reclaim_empty_tables_def PAGING_LEVEL_COUNT_def)
qed

lemma entry_for_packed:
  assumes "1 \<le> l" "l \<le> 4" and "hier_inv h w" and "packed_over E (pw_tables w) (h_root h)"
    and "entry_for h va l create w = (PAGING_STATUS_OK, slot, h', w')"
  shows "packed_but E (pw_tables w') (h_root h') (vpath va 4 l)"
  using entry_walk_packed [OF assms(1,2) order_refl assms(3) _ _
      assms(5) [unfolded entry_for_def PAGING_LEVEL_COUNT_def]] assms(4) by simp

lemma map_page_packed:
  assumes inv: "hier_inv h w" and l: "1 \<le> l" "l \<le> 4"
    and vac: "vacant (pw_tables w) (h_root h) (va + x) l" and leaf: "bit e 0" "l = 1 \<or> bit e 7"
    and entry: "entry_for h (va + x) l True w = (PAGING_STATUS_OK, slot, h1, w1)"
    and packed: "packed_over E (pw_tables w) (h_root h)"
  shows "packed_over E (pw_tables (invalidate h1 (va + x) (set_entry (fst (the slot)) (snd (the slot)) e w1))) (h_root h1)"
proof -
  let ?a = "va + x"
  from entry_for_spec [OF l inv entry] obtain t where
    k: "keeps l h w h1 w1" "slot = Some (t, table_index ?a l)"
      "tab (pw_tables w1) (h_root h1) (vpath ?a 4 l) = Some t"
    by (auto simp: walk_spec_def)
  have "vacant (pw_tables w1) (h_root h1) ?a l"
    using keeps_out_vacant [OF k(1) _ vac] keeps_outD(3) [OF k(1)] by simp
  then have "\<not> bit (pw_tables w1 t (table_index ?a l)) 0" using vacant_at [OF k(3) l(2)] by simp
  then have none: "l = 1 \<or> next_table (pw_tables w1 t (table_index ?a l)) = None \<and> next_table e = None"
    using leaf by (auto simp: next_table_def)
  let ?T = "table_write (pw_tables w1) t (table_index ?a l) e"
  have "packed_but E ?T (h_root h1) (vpath ?a 4 l)"
    by (rule packed_write_leaf [OF hier_invD(2) [OF keeps_outD(1) [OF k(1)]] k(3) l none
          entry_for_packed [OF l inv packed entry]])
  moreover have "tab ?T (h_root h1) (vpath ?a 4 l) = Some t"
    using leaf_step(2) [OF keeps_outD(1) [OF k(1)] k(3) l none] by simp
  moreover have "\<not> empty_table ?T t" using not_empty_at [of ?T t ?a l] leaf(1) by simp
  ultimately have "packed_over E ?T (h_root h1)" using packed_strengthen by auto
  then show ?thesis by (simp add: k(2))
qed

lemma clear_page_packed:
  assumes inv: "hier_inv h w" and leaf: "leaf_at (pw_tables w) (h_root h) (va + x) 1 e"
    and step: "clear_page va 1 x (h, w) = (h', w')" and packed: "packed_over E (pw_tables w) (h_root h)"
  shows "packed_over E (pw_tables w') (h_root h')"
proof -
  let ?a = "va + x"
  from leaf obtain t where t: "tab (pw_tables w) (h_root h) (vpath ?a 4 1) = Some t" by (auto simp: leaf_at_def)
  have l: "(1 :: nat) \<le> 1" "(1 :: nat) \<le> 4" by simp_all
  let ?w2 = "invalidate h ?a (set_entry t (table_index ?a 1) 0 w)"
  note ls = leaf_step [OF inv t l, of 0, simplified]
  have inv2: "hier_inv h ?w2" using keeps_outD(1) [OF ls(1)] by simp
  have pk: "packed_but E (pw_tables ?w2) (h_root h) (vpath ?a 4 1)"
    using packed_write_leaf [OF hier_invD(2) [OF inv] t l _ packed_weaken [OF packed], of 0] by simp
  have at: "tab (pw_tables ?w2) (h_root h) (vpath ?a 4 1) \<noteq> None" using ls(2) by simp
  have "reclaim_empty_tables h ?a ?w2 = (h', w')"
    using step by (simp add: clear_page_def entry_for_found [OF l(2) t, simplified] Let_def)
  from reclaim_packed [OF inv2 at pk this] show ?thesis .
qed

lemma clear_pages_packed:
  assumes "hier_inv h w" and "apart 1 va xs" and "\<forall>x \<in> set xs. \<exists>e. leaf_at (pw_tables w) (h_root h) (va + x) 1 e"
    and "packed_over E (pw_tables w) (h_root h)" and "fold (clear_page va 1) xs (h, w) = (h', w')"
  shows "packed_over E (pw_tables w') (h_root h')"
  using assms
proof (induction xs arbitrary: h w)
  case (Cons x xs)
  obtain h1 w1 where s: "clear_page va 1 x (h, w) = (h1, w1)" by fastforce
  obtain e where e: "leaf_at (pw_tables w) (h_root h) (va + x) 1 e" using Cons.prems(3) by auto
  have l: "(1 :: nat) \<le> 1" "(1 :: nat) \<le> 4" by simp_all
  note c = clear_page_spec [OF Cons.prems(1) l e s]
  note root = keeps_outD(3) [OF c(1)]
  have a: "apart 1 va xs" "\<forall>x' \<in> set xs. \<not> same_slot 1 (va + x) (va + x')"
    using Cons.prems(2) by (simp_all add: apart_Cons)
  have "\<forall>x \<in> set xs. \<exists>e. leaf_at (pw_tables w1) (h_root h1) (va + x) 1 e"
    using Cons.prems(3) a(2) keeps_out_leaf [OF c(1)] unfolding root by (auto simp: same_slot_sym) metis
  moreover have "fold (clear_page va 1) xs (h1, w1) = (h', w')" using Cons.prems(5) s by simp
  ultimately show ?case
    using Cons.IH [OF keeps_outD(1) [OF c(1)] a(1) _ clear_page_packed [OF Cons.prems(1) e s Cons.prems(4)]] by blast
qed simp

lemma unmap_range_packed:
  assumes "hier_inv h w" and "unat len \<le> 2 ^ 63" and "unmap_range h va len w = (st, h', w')"
    and "packed_over E (pw_tables w) (h_root h)"
  shows "packed_over E (pw_tables w') (h_root h')"
  using assms(1-3)
proof (cases rule: unmap_range_cases)
  case cleared
  let ?xs = "map (page_offset 1) [0..<page_count len 1]"
  note xs = range_offsets_1 [OF cleared(2)]
  have "\<forall>x \<in> set ?xs. \<exists>e. leaf_at (pw_tables w) (h_root h) (va + x) 1 e" using cleared(3) by auto
  moreover have "apart 1 va ?xs" using range_apart [OF cleared(2)] unfolding page_size_1 [symmetric] xs .
  moreover have "fold (clear_page va 1) ?xs (h, w) = (h', w')"
    using assms(3) cleared(1) unfolding unmap_range_def clear_range_def page_size_1 [symmetric] xs Let_def
    by (auto split: if_split_asm prod.splits)
  ultimately show ?thesis using clear_pages_packed [OF assms(1) _ _ assms(4)] by blast
qed (use assms(4) in simp)

lemma map_pages_packed:
  assumes r: "range_ok va len l" and ok: "\<forall>k < page_count len l. leaf_ok (pa + page_offset l k) p l"
    and "k \<le> page_count len l" and "hier_inv h w" and "packed_over E (pw_tables w) (h_root h)"
    and "mapped_pages va pa p l {..<k} h w" and "vacant_pages va l {k..<page_count len l} h w"
    and "map_pages va pa p l h w (map (page_offset l) [k..<page_count len l]) = (PAGING_STATUS_OK, h', w')"
  shows "packed_over E (pw_tables w') (h_root h')"
  using assms(3-)
proof (induction k arbitrary: h w rule: inc_induct)
  case (step k)
  note l = range_okD(1,2) [OF r] and k = step.hyps(2)
  let ?n = "page_count len l" and ?x = "page_offset l k"
  have xs: "map (page_offset l) [k..<?n] = ?x # map (page_offset l) [Suc k..<?n]"
    using k by (simp add: upt_conv_Cons del: upt_Suc)
  obtain s slot h1 w1 where e: "entry_for h (va + ?x) l True w = (s, slot, h1, w1)"
    by (cases "entry_for h (va + ?x) l True w")
  have vac: "vacant (pw_tables w) (h_root h) (va + ?x) l"
    using step.prems(4) k by (simp add: vacant_pages_def)
  have leaf: "bit (leaf_entry (pa + ?x) p l) 0" "l = 1 \<or> bit (leaf_entry (pa + ?x) p l) 7"
    using bit_leaf_entry [of "pa + ?x" p l] ok k by auto
  have s: "s = PAGING_STATUS_OK"
    and loop: "map_pages va pa p l h1 (invalidate h1 (va + ?x) (set_entry (fst (the slot)) (snd (the slot))
        (leaf_entry (pa + ?x) p l) w1)) (map (page_offset l) [Suc k..<?n]) = (PAGING_STATUS_OK, h', w')"
    using step.prems(5) unfolding xs map_pages_step e by (auto split: if_split_asm prod.splits)
  note e = e [unfolded s]
  note m = map_page_spec [OF step.prems(1) l vac leaf e]
  note n = mapped_pages_next [OF r k m(1,2) step.prems(3,4)]
  show ?case
    by (rule step.IH [OF keeps_outD(1) [OF m(1)] map_page_packed [OF step.prems(1) l vac leaf e step.prems(2)] n loop])
qed simp

lemma map_range_packed:
  assumes "hier_inv h w" and l: "1 \<le> l" "l \<le> 2" and "packed_over E (pw_tables w) (h_root h)"
    and "map_range h va pa len p l w = (PAGING_STATUS_OK, h', w')"
  shows "packed_over E (pw_tables w') (h_root h')"
  using assms(1-3,5)
proof (cases rule: map_range_cases)
  case tried
  note l = range_okD(1,2) [OF tried(1)] and xs = range_offsets_pages [OF range_okD(1,2,4) [OF tried(1)]]
  have "map_pages va pa p l h w (map (page_offset l) [0..<page_count len l]) = (PAGING_STATUS_OK, h', w')"
    using assms(5) xs unfolding map_range_def Let_def by (auto split: if_split_asm)
  moreover have "mapped_pages va pa p l {..<0} h w" by (simp add: mapped_pages_def)
  moreover have "vacant_pages va l {0..<page_count len l} h w" using tried(3) by (simp only: atLeast0LessThan)
  ultimately show ?thesis using map_pages_packed [OF tried(1,2) zero_le assms(1,4)] by blast
qed simp

text \<open>Every choice of indices belongs to a canonical address.\<close>

lemma address_of_indices:
  assumes "\<forall>k. f k < 512"
  shows "\<exists>a. address_is_canonical a \<and> (\<forall>k. 1 \<le> k \<and> k \<le> 4 \<longrightarrow> table_index a k = f k)"
proof -
  define c where "c = (if f 4 < 256 then 0 else 65535 :: nat)"
  define A4 where "A4 = c * 512 + f 4"
  define A3 where "A3 = A4 * 512 + f 3"
  define A2 where "A2 = A3 * 512 + f 2"
  define A1 where "A1 = A2 * 512 + f 1"
  have f: "f 1 < 512" "f 2 < 512" "f 3 < 512" "f 4 < 512" using assms by simp_all
  have b: "A1 * 4096 < 2 ^ 64" using f by (simp add: A1_def A2_def A3_def A4_def c_def split: if_split)
  then have u: "unat (of_nat (A1 * 4096) :: u64) = A1 * 4096" by (intro unat_of_nat_small) simp
  have "address_is_canonical (of_nat (A1 * 4096))"
    unfolding canonical_iff u using f by (auto simp: A1_def A2_def A3_def A4_def c_def split: if_split)
  moreover have "table_index (of_nat (A1 * 4096)) k = f k" if "1 \<le> k" "k \<le> 4" for k
  proof -
    have d1: "A1 * 4096 div 2 ^ 12 = A1" by simp
    have d2: "A1 * 4096 div 2 ^ 21 = A2"
      using f(1) div_mult2_eq [of "A1 * 4096" "2 ^ 12" 512] d1 by (simp add: A1_def)
    have d3: "A1 * 4096 div 2 ^ 30 = A3"
      using f(2) div_mult2_eq [of "A1 * 4096" "2 ^ 21" 512] d2 by (simp add: A2_def)
    have d4: "A1 * 4096 div 2 ^ 39 = A4"
      using f(3) div_mult2_eq [of "A1 * 4096" "2 ^ 30" 512] d3 by (simp add: A3_def)
    have "k = 1 \<or> k = 2 \<or> k = 3 \<or> k = 4" using that by linarith
    then show ?thesis
      unfolding table_index_eq u
    proof (elim disjE)
      assume "k = 1"
      then show "A1 * 4096 div 2 ^ page_shift k mod 512 = f k" using d1 f(1) by (simp add: A1_def)
    next
      assume "k = 2"
      then show "A1 * 4096 div 2 ^ page_shift k mod 512 = f k" using d2 f(2) by (simp add: A2_def)
    next
      assume "k = 3"
      then show "A1 * 4096 div 2 ^ page_shift k mod 512 = f k" using d3 f(3) by (simp add: A3_def)
    next
      assume "k = 4"
      then show "A1 * 4096 div 2 ^ page_shift k mod 512 = f k" using d4 f(4) by (simp add: A4_def)
    qed
  qed
  ultimately show ?thesis by blast
qed

lemma address_of_path:
  assumes "table_path p" and "i < 512"
  shows "\<exists>a. address_is_canonical a \<and> vpath a 4 (4 - length p) = p \<and> table_index a (4 - length p) = i"
proof -
  let ?f = "\<lambda>k. if 4 - k < length p then p ! (4 - k) else if k = 4 - length p then i else 0"
  have "\<forall>k. ?f k < 512" using assms by (auto simp: table_path_def)
  from address_of_indices [OF this] obtain a where
    a: "address_is_canonical a" "\<forall>k. 1 \<le> k \<and> k \<le> 4 \<longrightarrow> table_index a k = ?f k" by blast
  have len: "length p \<le> 3" using assms(1) by (simp add: table_path_def)
  have "vpath a 4 (4 - length p) = p"
  proof (rule nth_equalityI)
    show "length (vpath a 4 (4 - length p)) = length p" using len by simp
  next
    fix j assume "j < length (vpath a 4 (4 - length p))"
    then have j: "j < length p" using len by simp
    then have "vpath a 4 (4 - length p) ! j = table_index a (Suc (3 - j))"
      using len by (simp add: vpath_def rev_nth del: upt_Suc)
    also have "Suc (3 - j) = 4 - j" using j len by simp
    also have "table_index a (4 - j) = p ! j" using a(2) j len by simp
    finally show "vpath a 4 (4 - length p) ! j = p ! j" .
  qed
  moreover have "table_index a (4 - length p) = i" using a(2) len by simp
  ultimately show ?thesis using a(1) by blast
qed

text \<open>Below every table lies one of the excepted tables or a leaf.\<close>

definition leaf_below :: "tables \<Rightarrow> u64 \<Rightarrow> nat list \<Rightarrow> bool" where
  "leaf_below T root p \<longleftrightarrow> (\<exists>q i u. prefix p q \<and> table_path q \<and> tab T root q = Some u \<and> i < 512 \<and> bit (T u i) 0
     \<and> (length q = 3 \<or> bit (T u i) 7))"

lemma leaf_below_mono: "leaf_below T root (p @ q) \<Longrightarrow> leaf_below T root p"
  unfolding leaf_below_def using append_prefixD by blast

lemma leaf_belowI:
  "table_path p \<Longrightarrow> tab T root p = Some u \<Longrightarrow> i < 512 \<Longrightarrow> bit (T u i) 0 \<Longrightarrow> length p = 3 \<or> bit (T u i) 7 \<Longrightarrow> leaf_below T root p"
  unfolding leaf_below_def by blast

lemma packed_below:
  assumes "packed_over E T root" and "table_path p" and "p \<noteq> []" and "tab T root p = Some t"
  shows "(\<exists>q \<in> E. prefix p q) \<or> leaf_below T root p"
  using assms(2-)
proof (induction "3 - length p" arbitrary: p t)
  case 0
  show ?case
  proof (cases "p \<in> E")
    case False
    then have "\<not> empty_table T t" using assms(1) 0 by (simp add: packed_but_def)
    then obtain i where "i < 512" "bit (T t i) 0" by (auto simp: empty_table_def)
    moreover have "length p = 3" using 0 by (simp add: table_path_def)
    ultimately show ?thesis using 0 leaf_belowI by blast
  qed auto
next
  case (Suc n)
  show ?case
  proof (cases "p \<in> E")
    case False
    then have "\<not> empty_table T t" using assms(1) Suc.prems by (simp add: packed_but_def)
    then obtain i where i: "i < 512" "bit (T t i) 0" by (auto simp: empty_table_def)
    show ?thesis
    proof (cases "bit (T t i) 7")
      case True
      then show ?thesis using Suc.prems i leaf_belowI by blast
    next
      case False
      have path: "table_path (p @ [i])" using Suc.prems(1) Suc.hyps(2) i(1) by (simp add: table_path_snoc)
      have "tab T root (p @ [i]) = Some (T t i AND PAGE_FRAME_MASK)"
        using Suc.prems(3) i(2) False by (simp add: tab_snoc next_table_def)
      moreover have "n = 3 - length (p @ [i])" using Suc.hyps(2) by simp
      ultimately have "(\<exists>q \<in> E. prefix (p @ [i]) q) \<or> leaf_below T root (p @ [i])"
        using Suc.hyps(1) [of "p @ [i]"] path by simp
      then show ?thesis using leaf_below_mono append_prefixD by blast
    qed
  qed auto
qed

lemma translate_walk_leaf:
  "translate_walk T pat va l t x y z = (PAGING_STATUS_OK, tr) \<Longrightarrow> 1 \<le> l
   \<Longrightarrow> 1 \<le> tr_level tr \<and> tr_level tr \<le> l
     \<and> (\<exists>u. tab T t (vpath va l (tr_level tr)) = Some u \<and> bit (T u (table_index va (tr_level tr))) 0
          \<and> (tr_level tr = 1 \<or> bit (T u (table_index va (tr_level tr))) 7))"
proof (induction l arbitrary: t x y z)
  case (Suc l)
  let ?e = "T t (table_index va (Suc l))"
  show ?case
  proof (cases "l \<noteq> 0 \<and> \<not> bit ?e 7")
    case False
    then show ?thesis using Suc.prems
      by (auto simp: translate_step [of _ _ _ "Suc l"] Let_def split: if_split_asm)
  next
    case True
    then have "bit ?e 0" and
      "translate_walk T pat va l (?e AND PAGE_FRAME_MASK) (x \<and> bit ?e 1) (y \<and> \<not> bit ?e 63) (z \<and> bit ?e 2)
       = (PAGING_STATUS_OK, tr)"
      using Suc.prems(1) by (auto simp: translate_step [of _ _ _ "Suc l"] Let_def split: if_split_asm)
    moreover from Suc.IH [OF this(2)] True have i: "1 \<le> tr_level tr" "tr_level tr \<le> l"
      "\<exists>u. tab T (?e AND PAGE_FRAME_MASK) (vpath va l (tr_level tr)) = Some u \<and> bit (T u (table_index va (tr_level tr))) 0
          \<and> (tr_level tr = 1 \<or> bit (T u (table_index va (tr_level tr))) 7)" by simp_all
    moreover from i(2) have "vpath va (Suc l) (tr_level tr) = table_index va (Suc l) # vpath va l (tr_level tr)"
      by (simp add: vpath_Cons)
    ultimately show ?thesis using True by (simp add: next_table_def)
  qed
qed simp

definition paths :: "tables \<Rightarrow> u64 \<Rightarrow> nat list set" where
  "paths T root = {p. table_path p \<and> tab T root p \<noteq> None}"

lemma card_reach: "tree T root \<Longrightarrow> card (reach T root) = card (paths T root)"
proof -
  assume t: "tree T root"
  have "reach T root = (\<lambda>p. the (tab T root p)) ` paths T root"
    by (force simp: reach_def paths_def)
  moreover have "inj_on (\<lambda>p. the (tab T root p)) (paths T root)"
    using treeD [OF t] by (auto simp: inj_on_def paths_def)
  ultimately show ?thesis by (simp add: card_image)
qed

lemma leaf_below_path:
  assumes "links_open T root" and "leaf_below T root p"
    and same: "\<forall>a. address_is_canonical a \<longrightarrow> trans T' root pat a = trans T root pat a"
  shows "tab T' root p \<noteq> None"
proof -
  obtain q i u where
    q: "prefix p q" "table_path q" "tab T root q = Some u" "i < 512" "bit (T u i) 0"
      "length q = 3 \<or> bit (T u i) 7" using assms(2) unfolding leaf_below_def by blast
  let ?j = "4 - length q"
  have len: "length q \<le> 3" using q(2) by (simp add: table_path_def)
  from address_of_path [OF q(2,4)] obtain a where
    a: "address_is_canonical a" "vpath a 4 ?j = q" "table_index a ?j = i" by blast
  have "leaf_at T root a ?j (T u i)" using q a len by (auto simp: leaf_at_def)
  moreover have "1 \<le> ?j" "?j \<le> 4" using len by linarith+
  ultimately obtain tr where "trans T root pat a = (PAGING_STATUS_OK, tr)" "tr_level tr = ?j"
    using leaf_translation [OF assms(1), of a ?j "T u i" pat] fill_level by metis
  then have "trans T' root pat a = (PAGING_STATUS_OK, tr)" "tr_level tr = ?j" using same a(1) by simp_all
  from translate_walk_leaf [OF this(1)] this(2) a(2) have "tab T' root q \<noteq> None" by auto
  then show ?thesis using q(1) tab_blocked by (fastforce simp: prefix_def)
qed

lemma paths_mono:
  assumes "links_open T root" and "packed_over E T root" and "\<forall>q \<in> E. tab T' root q \<noteq> None"
    and "\<forall>a. address_is_canonical a \<longrightarrow> trans T' root pat a = trans T root pat a"
  shows "paths T root \<subseteq> paths T' root"
proof
  fix p assume p: "p \<in> paths T root"
  then obtain t where t: "table_path p" "tab T root p = Some t" by (auto simp: paths_def)
  have "tab T' root p \<noteq> None"
  proof (cases "p = []")
    case False
    from packed_below [OF assms(2) t(1) False t(2)] show ?thesis
    proof
      assume "\<exists>q \<in> E. prefix p q"
      then show ?thesis using assms(3) tab_blocked by (fastforce simp: prefix_def)
    qed (rule leaf_below_path [OF assms(1) _ assms(4)])
  qed simp
  then show "p \<in> paths T' root" using t(1) by (simp add: paths_def)
qed

lemma finite_paths: "finite (paths T root)"
  by (rule finite_subset [OF _ finite_lists_length_le [of "{..<512 :: nat}" 3]]) (auto simp: paths_def table_path_def)

text \<open>A table is a frame below 4 GiB, so the count of the tables does not wrap.\<close>

lemma card_tables:
  assumes "hier_inv h w"
  shows "unat (h_table_frames h) = card (paths (pw_tables w) (h_root h))"
proof -
  note i = hier_invD [OF assms]
  have "unat ` reach (pw_tables w) (h_root h) \<subseteq> {..<2 ^ 32}" using table_taken_ok(2) [OF i(1)] i(4) by blast
  from card_mono [OF _ this] have "card (unat ` reach (pw_tables w) (h_root h)) \<le> 2 ^ 32" by simp
  moreover have "inj_on unat (reach (pw_tables w) (h_root h))" by (simp add: inj_on_def word_unat_eq_iff)
  ultimately have "card (reach (pw_tables w) (h_root h)) \<le> 2 ^ 32" using card_image by metis
  then show ?thesis using i(5) card_reach [OF i(2)] by (simp add: unat_of_nat_small)
qed

text \<open>
  Two hierarchies that translate alike: one without empty tables, but for those that the other has as
  well, has at most as many tables.
\<close>

lemma tables_count_le:
  assumes "hier_inv h w" and "hier_inv h' w'" and "h_root h' = h_root h"
    and "packed_over E (pw_tables w') (h_root h')" and "\<forall>q \<in> E. tab (pw_tables w) (h_root h) q \<noteq> None"
    and "\<forall>a. translate_address h' a pat w' = translate_address h a pat w"
  shows "h_table_frames h' \<le> h_table_frames h"
proof -
  have same: "\<forall>a. address_is_canonical a \<longrightarrow>
      trans (pw_tables w) (h_root h) pat a = trans (pw_tables w') (h_root h) pat a"
    using assms(6) translate_address_canonical [of _ h pat w] translate_address_canonical [of _ h' pat w'] assms(3)
    by metis
  have "paths (pw_tables w') (h_root h') \<subseteq> paths (pw_tables w) (h_root h)"
    using paths_mono [OF hier_invD(3) [OF assms(2)] assms(4)] same assms(3,5) by simp
  from card_mono [OF finite_paths this] show ?thesis
    unfolding word_le_nat_alt card_tables [OF assms(1)] card_tables [OF assms(2)] .
qed

lemma packed_count:
  assumes "hier_inv h w" "packed (pw_tables w) (h_root h)" and "hier_inv h' w'" "packed (pw_tables w') (h_root h')"
    and "h_root h' = h_root h" and "\<forall>a. translate_address h' a pat w' = translate_address h a pat w"
  shows "h_table_frames h' = h_table_frames h"
  using tables_count_le [OF assms(1,3,5,4), of pat] tables_count_le [OF assms(3,1) _ assms(2), of pat] assms(5,6) by simp

text \<open>The empty tables of a hierarchy, for which the notion is trivial.\<close>

definition empty_paths :: "tables \<Rightarrow> u64 \<Rightarrow> nat list set" where
  "empty_paths T root = {p. \<exists>t. tab T root p = Some t \<and> empty_table T t}"

lemma packed_over_empty: "packed_over (empty_paths T root) T root"
  by (auto simp: packed_but_def empty_paths_def)

subsection \<open>The audit\<close>

text \<open>The rights of the leaf that a choice of indices leads to: writable, executable, user.\<close>

primrec leaf_rights ::
  "tables \<Rightarrow> (nat \<Rightarrow> nat) \<Rightarrow> nat \<Rightarrow> u64 \<Rightarrow> bool \<Rightarrow> bool \<Rightarrow> bool \<Rightarrow> (bool \<times> bool \<times> bool) option" where
  "leaf_rights T f 0 t wr ex u = None"
| "leaf_rights T f (Suc l) t wr ex u =
     (let e = T t (f (Suc l)) in
      if \<not> bit e 0 then None
      else if l \<noteq> 0 \<and> \<not> bit e 7
      then leaf_rights T f l (e AND PAGE_FRAME_MASK) (wr \<and> bit e 1) (ex \<and> \<not> bit e 63) (u \<and> bit e 2)
      else Some (wr \<and> bit e 1, ex \<and> \<not> bit e 63, u \<and> bit e 2))"

lemma leaf_rights_cong: "\<forall>k. 1 \<le> k \<and> k \<le> l \<longrightarrow> f k = g k \<Longrightarrow> leaf_rights T f l t wr ex u = leaf_rights T g l t wr ex u"
  by (induction l arbitrary: t wr ex u) (simp_all add: Let_def)

lemma fill_rights:
  "bit (tr_permissions (fill_translation e a l wr ex u pat)) 0 \<longleftrightarrow> wr"
  "bit (tr_permissions (fill_translation e a l wr ex u pat)) (Suc 0) \<longleftrightarrow> ex"
  by (auto simp: fill_translation_def Let_def memory_type_permissions_def bit_or_iff bit_permissions)

lemma fill_user: "tr_user (fill_translation e a l wr ex u pat) = u"
  by (simp add: fill_translation_def Let_def)

definition translation_rights :: "paging_translation \<Rightarrow> bool \<times> bool \<times> bool" where
  "translation_rights tr = (bit (tr_permissions tr) 0, bit (tr_permissions tr) 1, tr_user tr)"

lemma translate_leaf_rights:
  "1 \<le> l \<Longrightarrow> (case translate_walk T pat va l t wr ex u of (st, tr) \<Rightarrow>
     if st = PAGING_STATUS_OK then Some (translation_rights tr) else None)
   = leaf_rights T (table_index va) l t wr ex u"
proof (induction l arbitrary: t wr ex u)
  case (Suc l)
  let ?e = "T t (table_index va (Suc l))"
  show ?case
  proof (cases "l \<noteq> 0 \<and> bit ?e 0 \<and> \<not> bit ?e 7")
    case True
    then show ?thesis
      using Suc.IH [of "?e AND PAGE_FRAME_MASK" "wr \<and> bit ?e 1" "ex \<and> \<not> bit ?e 63" "u \<and> bit ?e 2"]
      by (simp add: translate_step [of _ _ _ "Suc l"] Let_def)
  next
    case False
    then show ?thesis
      by (auto simp: translate_step [of _ _ _ "Suc l"] Let_def fill_rights fill_user translation_rights_def)
  qed
qed simp

text \<open>How many leaves of a table have rights \<open>Q\<close>.\<close>

primrec leaf_total ::
  "(bool \<times> bool \<times> bool \<Rightarrow> bool) \<Rightarrow> nat \<Rightarrow> tables \<Rightarrow> u64 \<Rightarrow> bool \<Rightarrow> bool \<Rightarrow> bool \<Rightarrow> nat" where
  "leaf_total Q 0 T t wr ex u = 0"
| "leaf_total Q (Suc l) T t wr ex u =
     (\<Sum>i\<leftarrow>[0..<512]. let e = T t i in
        if \<not> bit e 0 then 0
        else if l \<noteq> 0 \<and> \<not> bit e 7
        then leaf_total Q l T (e AND PAGE_FRAME_MASK) (wr \<and> bit e 1) (ex \<and> \<not> bit e 63) (u \<and> bit e 2)
        else if Q (wr \<and> bit e 1, ex \<and> \<not> bit e 63, u \<and> bit e 2) then 1 else 0)"

lemma fold_counter:
  assumes "\<And>x A. x \<in> set xs \<Longrightarrow> c (f x A) = c A + (g x :: nat)"
  shows "c (fold f xs A) = c A + sum_list (map g xs)"
  using assms by (induction xs arbitrary: A) simp_all

lemma audit_table_total:
  "write_execute_leaves (audit_table l T t wr ex u A)
     = write_execute_leaves A + leaf_total (\<lambda>(wr, ex, u). wr \<and> ex) l T t wr ex u" (is ?wx)
  "user_leaves (audit_table l T t wr ex u A) = user_leaves A + leaf_total (\<lambda>(wr, ex, u). u) l T t wr ex u" (is ?us)
proof -
  show ?wx
  proof (induction l arbitrary: t wr ex u A)
    case (Suc l)
    show ?case
      unfolding audit_table.simps leaf_total.simps PAGING_ENTRIES_PER_TABLE_def
      by (rule fold_counter) (simp add: Let_def Suc.IH audit_leaf_def)
  qed simp
  show ?us
  proof (induction l arbitrary: t wr ex u A)
    case (Suc l)
    show ?case
      unfolding audit_table.simps leaf_total.simps PAGING_ENTRIES_PER_TABLE_def
      by (rule fold_counter) (simp add: Let_def Suc.IH audit_leaf_def)
  qed simp
qed

definition some_leaf :: "(bool \<times> bool \<times> bool \<Rightarrow> bool) \<Rightarrow> tables \<Rightarrow> nat \<Rightarrow> u64 \<Rightarrow> bool \<Rightarrow> bool \<Rightarrow> bool \<Rightarrow> bool" where
  "some_leaf Q T l t wr ex u \<longleftrightarrow> (\<exists>f r. (\<forall>k. f k < 512) \<and> leaf_rights T f l t wr ex u = Some r \<and> Q r)"

lemma some_leafI: "leaf_rights T f l t wr ex u = Some r \<Longrightarrow> \<forall>k. f k < 512 \<Longrightarrow> Q r \<Longrightarrow> some_leaf Q T l t wr ex u"
  unfolding some_leaf_def by blast

lemma some_leaf_Suc:
  "some_leaf Q T (Suc l) t wr ex u \<longleftrightarrow> (\<exists>i < 512. bit (T t i) 0 \<and>
      (if l \<noteq> 0 \<and> \<not> bit (T t i) 7
       then some_leaf Q T l (T t i AND PAGE_FRAME_MASK) (wr \<and> bit (T t i) 1) (ex \<and> \<not> bit (T t i) 63) (u \<and> bit (T t i) 2)
       else Q (wr \<and> bit (T t i) 1, ex \<and> \<not> bit (T t i) 63, u \<and> bit (T t i) 2)))" (is "_ \<longleftrightarrow> (\<exists>i < 512. ?at i)")
proof
  assume "some_leaf Q T (Suc l) t wr ex u"
  then obtain f r where f: "\<forall>k. f k < 512" "leaf_rights T f (Suc l) t wr ex u = Some r" "Q r"
    unfolding some_leaf_def by blast
  then show "\<exists>i < 512. ?at i"
    by (intro exI [of _ "f (Suc l)"]) (auto simp: Let_def split: if_split_asm intro: some_leafI)
next
  assume "\<exists>i < 512. ?at i"
  then obtain i where i: "i < 512" "?at i" by blast
  show "some_leaf Q T (Suc l) t wr ex u"
  proof (cases "l \<noteq> 0 \<and> \<not> bit (T t i) 7")
    case True
    let ?sub = "\<lambda>f. leaf_rights T f l (T t i AND PAGE_FRAME_MASK) (wr \<and> bit (T t i) 1) (ex \<and> \<not> bit (T t i) 63) (u \<and> bit (T t i) 2)"
    from True i(2) obtain f r where f: "\<forall>k. f k < 512" "?sub f = Some r" "Q r"
      unfolding some_leaf_def by auto
    have "?sub (f(Suc l := i)) = Some r" using f(2) leaf_rights_cong [of l f "f(Suc l := i)" T] by simp
    then show ?thesis
      unfolding some_leaf_def using f(1,3) i True by (intro exI [of _ "f(Suc l := i)"] exI [of _ r]) simp
  next
    case False
    then have "leaf_rights T (\<lambda>_. i) (Suc l) t wr ex u = Some (wr \<and> bit (T t i) 1, ex \<and> \<not> bit (T t i) 63, u \<and> bit (T t i) 2)"
      using i(2) by (auto simp: Let_def)
    then show ?thesis by (rule some_leafI) (use i False in auto)
  qed
qed

lemma leaf_total_0_iff: "leaf_total Q l T t wr ex u = 0 \<longleftrightarrow> \<not> some_leaf Q T l t wr ex u"
proof (induction l arbitrary: t wr ex u)
  case 0
  then show ?case by (simp add: some_leaf_def)
next
  case (Suc l)
  have ih: "leaf_total Q l T t wr ex u \<noteq> 0 \<longleftrightarrow> some_leaf Q T l t wr ex u" for t wr ex u unfolding Suc.IH by blast
  have some: "sum_list (map g [0..<512]) \<noteq> 0 \<longleftrightarrow> (\<exists>i < 512. g i \<noteq> (0 :: nat))" for g
    unfolding sum_list_eq_0_iff by auto
  have "leaf_total Q (Suc l) T t wr ex u \<noteq> 0 \<longleftrightarrow> some_leaf Q T (Suc l) t wr ex u"
    unfolding leaf_total.simps some some_leaf_Suc Let_def ih [symmetric] by (intro ex_cong1 conj_cong refl) simp
  then show ?case by blast
qed

lemma translate_OK_canonical: "translate_address h a pat w = (PAGING_STATUS_OK, tr) \<Longrightarrow> address_is_canonical a"
  by (simp add: translate_address_def split: if_split_asm)

lemma leaf_total_translate:
  "leaf_total Q 4 (pw_tables w) (h_root h) True True True = 0 \<longleftrightarrow>
     (\<forall>a tr. translate_address h a pat w = (PAGING_STATUS_OK, tr) \<longrightarrow> \<not> Q (translation_rights tr))"
proof -
  let ?T = "pw_tables w" and ?r = "h_root h"
  have walk: "leaf_rights ?T (table_index a) 4 ?r True True True
     = (case trans ?T ?r pat a of (st, tr) \<Rightarrow> if st = PAGING_STATUS_OK then Some (translation_rights tr) else None)" for a
    using translate_leaf_rights [of 4 ?T pat a ?r True True True] by simp
  have at: "leaf_rights ?T (table_index a) 4 ?r True True True = Some r
     \<longleftrightarrow> (\<exists>tr. translate_address h a pat w = (PAGING_STATUS_OK, tr) \<and> r = translation_rights tr)"
    if "address_is_canonical a" for a r
    unfolding walk translate_address_canonical [OF that] by (auto split: prod.split)
  have "some_leaf Q ?T 4 ?r True True True
     \<longleftrightarrow> (\<exists>a r. address_is_canonical a \<and> leaf_rights ?T (table_index a) 4 ?r True True True = Some r \<and> Q r)"
    unfolding some_leaf_def using address_of_indices leaf_rights_cong [of 4 _ _ ?T] table_index_less by metis
  also have "\<dots> \<longleftrightarrow> (\<exists>a tr. translate_address h a pat w = (PAGING_STATUS_OK, tr) \<and> Q (translation_rights tr))"
    using at translate_OK_canonical by metis
  finally show ?thesis unfolding leaf_total_0_iff by blast
qed

lemma audit_wx_iff:
  "write_execute_leaves (audit_hierarchy h w) = 0 \<longleftrightarrow>
     (\<forall>a tr. translate_address h a pat w = (PAGING_STATUS_OK, tr) \<longrightarrow> \<not> (bit (tr_permissions tr) 0 \<and> bit (tr_permissions tr) 1))"
  using leaf_total_translate [of "\<lambda>(wr, ex, u). wr \<and> ex" w h pat]
  by (simp add: audit_hierarchy_def audit_table_total PAGING_LEVEL_COUNT_def zero_audit_def translation_rights_def)

lemma audit_user_iff:
  "user_leaves (audit_hierarchy h w) = 0 \<longleftrightarrow>
     (\<forall>a tr. translate_address h a pat w = (PAGING_STATUS_OK, tr) \<longrightarrow> \<not> tr_user tr)"
  using leaf_total_translate [of "\<lambda>(wr, ex, u). u" w h pat]
  by (simp add: audit_hierarchy_def audit_table_total PAGING_LEVEL_COUNT_def zero_audit_def translation_rights_def)

end
