(* ===== verification/Page_Spaces.thy ===== *)
theory Page_Spaces
  imports Page_Census
begin

text \<open>
  The hierarchy as an address space: the contract its clients rely on, its interpretation on the
  range operations, runs of those operations, and the properties of \<open>src/kernel/paging.c\<close> that rest on
  them. The samples use the arena size and the PAT value of the self-test.
\<close>

subsection \<open>Address spaces\<close>

text \<open>
  The contract of an address space: reading it at an address, mapping a range and taking it out
  again. Its clients see neither tables nor frames.
\<close>

locale address_space =
  fixes sp_inv :: "'s \<Rightarrow> bool"
    and sp_read :: "'s \<Rightarrow> u64 \<Rightarrow> 'r"
    and sp_absent :: 'r
    and sp_page :: "u64 \<Rightarrow> u32 \<Rightarrow> 'r"
    and sp_map :: "u64 \<Rightarrow> u64 \<Rightarrow> u64 \<Rightarrow> u32 \<Rightarrow> 's \<Rightarrow> 's option"
    and sp_unmap :: "u64 \<Rightarrow> u64 \<Rightarrow> 's \<Rightarrow> 's option"
  assumes page_present: "sp_page pa p \<noteq> sp_absent"
    and map_inv: "sp_inv s \<Longrightarrow> sp_map va pa len p s = Some s' \<Longrightarrow> sp_inv s'"
    and map_read: "sp_inv s \<Longrightarrow> sp_map va pa len p s = Some s'
        \<Longrightarrow> sp_read s' a = (if in_range va len a then sp_page (pa + (a - va)) p else sp_read s a)"
    and map_absent: "sp_inv s \<Longrightarrow> sp_map va pa len p s = Some s' \<Longrightarrow> in_range va len a \<Longrightarrow> sp_read s a = sp_absent"
    and map_bound: "sp_inv s \<Longrightarrow> sp_map va pa len p s = Some s' \<Longrightarrow> unat len \<le> 2 ^ 63"
    and map_defined: "sp_inv s \<Longrightarrow> sp_map va pa len p s = Some s' \<Longrightarrow> sp_inv t \<Longrightarrow>
        (\<forall>a. in_range va len a \<longrightarrow> (\<exists>pa p. sp_read t a = sp_page pa p)) \<Longrightarrow> sp_unmap va len t \<noteq> None"
    and unmap_inv: "sp_inv s \<Longrightarrow> unat len \<le> 2 ^ 63 \<Longrightarrow> sp_unmap va len s = Some s' \<Longrightarrow> sp_inv s'"
    and unmap_read: "sp_inv s \<Longrightarrow> unat len \<le> 2 ^ 63 \<Longrightarrow> sp_unmap va len s = Some s'
        \<Longrightarrow> sp_read s' a = (if in_range va len a then sp_absent else sp_read s a)"
begin

text \<open>Two ranges mapped one after the other do not meet, and the first still reads as before.\<close>

lemma map_map_disjoint:
  assumes "sp_inv s" and "sp_map va pa len p s = Some s1" and "sp_map va' pa' len' p' s1 = Some s2"
    and "in_range va len a"
  shows "\<not> in_range va' len' a" and "sp_read s2 a = sp_page (pa + (a - va)) p"
proof -
  note i = map_inv [OF assms(1,2)]
  have r: "sp_read s1 a = sp_page (pa + (a - va)) p" using map_read [OF assms(1,2)] assms(4) by simp
  then show "\<not> in_range va' len' a" using map_absent [OF i assms(3)] page_present by metis
  then show "sp_read s2 a = sp_page (pa + (a - va)) p" using map_read [OF i assms(3)] r by simp
qed

text \<open>A mapped range can be unmapped, and that restores what was read before.\<close>

lemma map_unmap:
  assumes "sp_inv s" and "sp_map va pa len p s = Some s1"
  shows "\<exists>s2. sp_unmap va len s1 = Some s2 \<and> sp_inv s2 \<and> (\<forall>a. sp_read s2 a = sp_read s a)"
proof -
  note i = map_inv [OF assms]
  have "\<forall>a. in_range va len a \<longrightarrow> (\<exists>pa p. sp_read s1 a = sp_page pa p)"
    using map_read [OF assms] by auto
  from map_defined [OF assms i this] obtain s2 where s2: "sp_unmap va len s1 = Some s2" by blast
  have "sp_read s2 a = sp_read s a" for a
    using unmap_read [OF i map_bound [OF assms] s2] map_read [OF assms] map_absent [OF assms] by simp
  then show ?thesis using s2 unmap_inv [OF i map_bound [OF assms] s2] by blast
qed

end

type_synonym space = "u64 \<times> page_hierarchy \<times> paging_world"

definition space_inv :: "space \<Rightarrow> bool" where
  "space_inv s = (case s of (pat, h, w) \<Rightarrow> pat_ok pat \<and> hier_inv h w)"

definition space_read :: "space \<Rightarrow> u64 \<Rightarrow> paging_status \<times> paging_translation" where
  "space_read s a = (case s of (pat, h, w) \<Rightarrow> translate_address h a pat w)"

definition space_map :: "u64 \<Rightarrow> u64 \<Rightarrow> u64 \<Rightarrow> u32 \<Rightarrow> space \<Rightarrow> space option" where
  "space_map va pa len p s = (case s of (pat, h, w) \<Rightarrow>
     (case map_range h va pa len p 1 w of (st, h', w') \<Rightarrow> if st = PAGING_STATUS_OK then Some (pat, h', w') else None))"

definition space_unmap :: "u64 \<Rightarrow> u64 \<Rightarrow> space \<Rightarrow> space option" where
  "space_unmap va len s = (case s of (pat, h, w) \<Rightarrow>
     (case unmap_range h va len w of (st, h', w') \<Rightarrow> if st = PAGING_STATUS_OK then Some (pat, h', w') else None))"

lemma space_map_Some:
  "space_map va pa len p (pat, h, w) = Some s' \<longleftrightarrow>
     (\<exists>h' w'. map_range h va pa len p 1 w = (PAGING_STATUS_OK, h', w') \<and> s' = (pat, h', w'))"
  by (auto simp: space_map_def split: prod.splits if_split_asm)

lemma space_unmap_Some:
  "space_unmap va len (pat, h, w) = Some s' \<longleftrightarrow>
     (\<exists>h' w'. unmap_range h va len w = (PAGING_STATUS_OK, h', w') \<and> s' = (pat, h', w'))"
  by (auto simp: space_unmap_def split: prod.splits if_split_asm)

lemma map_range_OK_range:
  assumes "hier_inv h w" and "1 \<le> l" "l \<le> 2" and "map_range h va pa len p l w = (PAGING_STATUS_OK, h', w')"
  shows "range_ok va len l"
  using assms by (cases rule: map_range_cases) simp_all

lemma space_map_facts:
  assumes "space_inv (pat, h, w)" and "space_map va pa len p (pat, h, w) = Some s'"
  shows "space_inv s'" and "unat len \<le> 2 ^ 63" and "validate_virtual_range va len PAGING_PAGE_SIZE = PAGING_STATUS_OK"
    and "space_read s' a = (if in_range va len a then (PAGING_STATUS_OK, mapping (pa + (a - va)) p 1) else space_read (pat, h, w) a)"
    and "in_range va len a \<Longrightarrow> space_read (pat, h, w) a = (PAGING_STATUS_NOT_MAPPED, no_translation)"
proof -
  from assms(2) obtain h' w' where m: "map_range h va pa len p 1 w = (PAGING_STATUS_OK, h', w')" "s' = (pat, h', w')"
    unfolding space_map_Some by blast
  have i: "pat_ok pat" "hier_inv h w" using assms(1) by (simp_all add: space_inv_def)
  have l: "(1 :: nat) \<le> 1" "(1 :: nat) \<le> 2" by simp_all
  note t = map_range_translations [OF i(2) l i(1) m(1)]
  show "space_inv s'" using t(1) i(1) by (simp add: m(2) space_inv_def)
  show "unat len \<le> 2 ^ 63" "validate_virtual_range va len PAGING_PAGE_SIZE = PAGING_STATUS_OK"
    using map_range_OK_range [OF i(2) l m(1)] unfolding range_ok_level_1 by blast+
  show "space_read s' a = (if in_range va len a then (PAGING_STATUS_OK, mapping (pa + (a - va)) p 1) else space_read (pat, h, w) a)"
    using t(2) [of a] by (simp add: m(2) space_read_def)
  show "in_range va len a \<Longrightarrow> space_read (pat, h, w) a = (PAGING_STATUS_NOT_MAPPED, no_translation)"
    using t(3) by (simp add: space_read_def)
qed

interpretation spaces: address_space space_inv space_read "(PAGING_STATUS_NOT_MAPPED, no_translation)"
  "\<lambda>pa p. (PAGING_STATUS_OK, mapping pa p 1)" space_map space_unmap
proof
  show "(PAGING_STATUS_OK, mapping pa p 1) \<noteq> (PAGING_STATUS_NOT_MAPPED, no_translation)" for pa p by simp
next
  fix s s' va pa len p a
  assume inv: "space_inv s" and m: "space_map va pa len p s = Some s'"
  obtain pat h w where s: "s = (pat, h, w)" by (cases s)
  note f = space_map_facts [OF inv [unfolded s] m [unfolded s], folded s]
  show "space_inv s'" "unat len \<le> 2 ^ 63" by (rule f)+
  show "space_read s' a = (if in_range va len a then (PAGING_STATUS_OK, mapping (pa + (a - va)) p 1) else space_read s a)"
    by (rule f)
  show "space_read s a = (PAGING_STATUS_NOT_MAPPED, no_translation)" if "in_range va len a" by (rule f(5) [OF that])
  show "space_unmap va len t \<noteq> None" if t: "space_inv t"
    "\<forall>a. in_range va len a \<longrightarrow> (\<exists>pa p. space_read t a = (PAGING_STATUS_OK, mapping pa p 1))" for t
  proof -
    obtain pat' h' w' where t': "t = (pat', h', w')" by (cases t)
    have "fst (unmap_range h' va len w') = PAGING_STATUS_OK"
      using unmap_range_OK_iff [of h' w' len va pat'] f(2,3) t
      by (fastforce simp: t' space_inv_def space_read_def mapping_def)
    then show ?thesis by (cases "unmap_range h' va len w'") (simp add: t' space_unmap_def)
  qed
next
  fix s s' va len a
  assume inv: "space_inv s" and len: "unat len \<le> 2 ^ 63" and m: "space_unmap va len s = Some s'"
  obtain pat h w where s: "s = (pat, h, w)" by (cases s)
  from m obtain h' w' where u: "unmap_range h va len w = (PAGING_STATUS_OK, h', w')" "s' = (pat, h', w')"
    unfolding s space_unmap_Some by blast
  have "hier_inv h w" using inv by (simp add: s space_inv_def)
  note t = unmap_range_translations [OF this len u(1)]
  show "space_inv s'" using inv t(1) by (simp add: s u(2) space_inv_def)
  show "space_read s' a = (if in_range va len a then (PAGING_STATUS_NOT_MAPPED, no_translation) else space_read s a)"
    using t(2) [of a pat] by (simp add: s u(2) space_read_def)
qed

subsection \<open>Runs\<close>

text \<open>Any sequence of the range operations on a hierarchy, whatever they return.\<close>

inductive hierarchy_step :: "u64 \<Rightarrow> page_hierarchy \<times> paging_world \<Rightarrow> page_hierarchy \<times> paging_world \<Rightarrow> bool"
  for pat where
  step_map: "1 \<le> l \<Longrightarrow> l \<le> 2 \<Longrightarrow> map_range h va pa len p l w = (st, h', w') \<Longrightarrow> hierarchy_step pat (h, w) (h', w')"
| step_unmap: "unat len \<le> 2 ^ 63 \<Longrightarrow> unmap_range h va len w = (st, h', w') \<Longrightarrow> hierarchy_step pat (h, w) (h', w')"
| step_protect: "unat len \<le> 2 ^ 63 \<Longrightarrow> protect_range h va len p pat w = (st, w') \<Longrightarrow> hierarchy_step pat (h, w) (h, w')"

definition wx_free :: "u64 \<Rightarrow> page_hierarchy \<Rightarrow> paging_world \<Rightarrow> bool" where
  "wx_free pat h w \<longleftrightarrow> (\<forall>a tr. translate_address h a pat w = (PAGING_STATUS_OK, tr)
     \<longrightarrow> \<not> (bit (tr_permissions tr) 0 \<and> bit (tr_permissions tr) 1))"

lemma map_range_OK_permissions:
  "map_range h va pa len p l w = (PAGING_STATUS_OK, h', w') \<Longrightarrow> validate_permissions p = PAGING_STATUS_OK"
  "protect_range h va len p pat w = (PAGING_STATUS_OK, w') \<Longrightarrow> validate_permissions p = PAGING_STATUS_OK"
  by (auto simp: map_range_def protect_range_def Let_def split: if_split_asm)

lemma hierarchy_step_safe:
  assumes "hierarchy_step pat (h, w) (h', w')" and "pat_ok pat" and "hier_inv h w" and "wx_free pat h w"
  shows "hier_inv h' w' \<and> wx_free pat h' w'"
  using assms(1)
proof cases
  case (step_map l va pa len p st)
  note t = map_range_translations [OF assms(3) step_map(1,2) assms(2) step_map(3)]
  have "st = PAGING_STATUS_OK \<longrightarrow> \<not> (bit p 0 \<and> bit p 1)"
    using map_range_OK_permissions(1) [of h va pa len p l w h' w'] step_map(3) by (auto simp: validate_permissions_OK)
  then show ?thesis using t(1) assms(4) unfolding wx_free_def t(2) by (auto simp: mapping_def split: if_split_asm)
next
  case (step_unmap len va st)
  note t = unmap_range_translations [OF assms(3) step_unmap]
  show ?thesis using t(1) assms(4) unfolding wx_free_def t(2) by (auto split: if_split_asm)
next
  case (step_protect len va p st)
  note t = protect_range_translations [OF assms(3) step_protect(2) assms(2) step_protect(3)]
  have p: "st = PAGING_STATUS_OK \<longrightarrow> \<not> (bit p 0 \<and> bit p 1)"
    using map_range_OK_permissions(2) [of h va len p pat w w'] step_protect(3) by (auto simp: validate_permissions_OK)
  have "\<not> (bit (tr_permissions tr) 0 \<and> bit (tr_permissions tr) 1)"
    if tr: "translate_address h a pat w' = (PAGING_STATUS_OK, tr)" for a tr
  proof (cases "st = PAGING_STATUS_OK \<and> in_range va len a")
    case True
    then show ?thesis using t(3) [of a] tr p by auto
  next
    case False
    then show ?thesis using t(2) [OF False] tr assms(4) by (simp add: wx_free_def)
  qed
  then show ?thesis using t(1) step_protect(1) by (simp add: wx_free_def)
qed

lemma hierarchy_run_safe:
  assumes "(hierarchy_step pat)\<^sup>*\<^sup>* s s'" and "pat_ok pat" and "hier_inv (fst s) (snd s)" and "wx_free pat (fst s) (snd s)"
  shows "hier_inv (fst s') (snd s') \<and> wx_free pat (fst s') (snd s')"
  using assms(1)
proof (induction rule: rtranclp_induct)
  case (step s1 s2)
  then show ?case using hierarchy_step_safe [of pat "fst s1" "snd s1" "fst s2" "snd s2"] assms(2) by simp
qed (use assms in simp)

subsection \<open>A hierarchy to run\<close>

text \<open>A hierarchy whose only table is an empty root satisfies the invariant.\<close>

lemma empty_root:
  assumes "empty_table T root" shows "reach T root = {root}" and "tree T root" and "links_open T root" and "packed T root"
proof -
  have only: "p = []" if p: "table_path p" "tab T root p = Some t" for p t
  proof (cases p)
    case (Cons i q)
    then have "i < 512" using p(1) by (simp add: table_path_def)
    then show ?thesis using p(2) Cons empty_next [OF assms] by simp
  qed
  show "reach T root = {root}" unfolding reach_def using only by (auto intro: exI [of _ "[]"]) (metis option.inject tab.simps(1))
  show "tree T root" unfolding tree_def using only by metis
  show "packed T root" unfolding packed_but_def using only by metis
  show "links_open T root"
    unfolding links_open_def
  proof (intro allI impI)
    fix p t i assume "table_path (p @ [i])" "tab T root p = Some t" "next_table (T t i) \<noteq> None"
    then show "bit (T t i) 1 \<and> \<not> bit (T t i) 63"
      using only [of "p @ [i]"] by (auto simp: tab_snoc)
  qed
qed

lemma fresh_hierarchy:
  assumes "table_pool_inv (h, w)" and "empty_table (pw_tables w) (h_root h)" and "h_root h \<in> table_taken (h, w)"
    and "h_table_frames h = 1"
  shows "hier_inv h w" and "packed (pw_tables w) (h_root h)"
  using assms empty_root [OF assms(2)] by (simp_all add: hier_inv_def)

lemma empty_translate:
  assumes "empty_table (pw_tables w) (h_root h)" and "address_is_canonical a"
  shows "translate_address h a pat w = (PAGING_STATUS_NOT_MAPPED, no_translation)"
  using assms(1) table_index_less [of a 4]
  by (simp add: translate_address_canonical [OF assms(2)] translate_step [of _ _ _ 4] empty_table_def)

text \<open>
  A sample hierarchy on an arena of \<open>capacity\<close> zeroed pages at 1 MiB, with the first page taken as its root
  and nothing mapped. It is marked live, so that invalidations are recorded. The capacity and the PAT value
  are those of the self-test in \<open>src/kernel/paging.c\<close>.
\<close>

definition PAGING_TEST_PAT :: u64 where "PAGING_TEST_PAT = 0x0007040600070106"

definition PAGING_TEST_ARENA_PAGES :: nat where "PAGING_TEST_ARENA_PAGES = 6"

definition sample_hierarchy :: "nat \<Rightarrow> page_hierarchy" where
  "sample_hierarchy capacity = \<lparr>h_root = 0x100000, h_arena_base = 0x100000, h_arena_capacity = capacity, h_arena_used = 1,
     h_table_frames = 1, h_live = True\<rparr>"

definition sample_world :: paging_world where
  "sample_world = \<lparr>pw_tables = (\<lambda>_ _. 0), pw_frames = blank_frames, pw_invalidated = []\<rparr>"

abbreviation sample_arena :: page_hierarchy where
  "sample_arena \<equiv> sample_hierarchy PAGING_TEST_ARENA_PAGES"

lemma test_pat: "pat_ok PAGING_TEST_PAT"
  by (simp add: pat_ok_def PAGING_TEST_PAT_def) code_simp

lemma test_inv:
  "hier_inv sample_arena sample_world" "packed (pw_tables sample_world) (h_root sample_arena)"
  by (rule fresh_hierarchy;
      simp add: sample_hierarchy_def sample_world_def PAGING_TEST_ARENA_PAGES_def table_pool_defs empty_table_def
        arena_page_def)+

lemma test_wx_free: "wx_free pat sample_arena sample_world"
  unfolding wx_free_def
proof (intro allI impI)
  fix a tr assume t: "translate_address sample_arena a pat sample_world = (PAGING_STATUS_OK, tr)"
  have "empty_table (pw_tables sample_world) (h_root sample_arena)" by (simp add: sample_world_def empty_table_def)
  from empty_translate [OF this translate_OK_canonical [OF t], of pat] t
  show "\<not> (bit (tr_permissions tr) 0 \<and> bit (tr_permissions tr) 1)" by simp
qed

definition test_mapped :: "page_hierarchy \<times> paging_world" where
  "test_mapped = snd (map_range sample_arena 0x40200000 0x123000 0x1000 PAGING_WRITE 1 sample_world)"

lemma test_map:
  "map_range sample_arena 0x40200000 0x123000 0x1000 PAGING_WRITE 1 sample_world
     = (PAGING_STATUS_OK, fst test_mapped, snd test_mapped)"
proof -
  have "fst (map_range sample_arena 0x40200000 0x123000 0x1000 PAGING_WRITE 1 sample_world) = PAGING_STATUS_OK"
    by code_simp
  then show ?thesis unfolding test_mapped_def by (simp only: prod_eq_iff fst_conv snd_conv simp_thms)
qed

lemma test_level: "(1 :: nat) \<le> 1" "(1 :: nat) \<le> 2"
  by simp_all

lemma test_mapped_inv: "hier_inv (fst test_mapped) (snd test_mapped)"
  by (rule map_range_translations(1) [OF test_inv(1) test_level test_pat test_map])

lemma test_unmap:
  "\<exists>h' w'. unmap_range (fst test_mapped) 0x40200000 0x1000 (snd test_mapped) = (PAGING_STATUS_OK, h', w')"
proof -
  have i: "space_inv (PAGING_TEST_PAT, sample_arena, sample_world)" using test_pat test_inv(1) by (simp add: space_inv_def)
  have m: "space_map 0x40200000 0x123000 0x1000 PAGING_WRITE (PAGING_TEST_PAT, sample_arena, sample_world)
      = Some (PAGING_TEST_PAT, fst test_mapped, snd test_mapped)"
    unfolding space_map_Some using test_map by blast
  from spaces.map_unmap [OF i m] show ?thesis unfolding space_unmap_Some by blast
qed

subsection \<open>Running out of tables\<close>

lemma link_step_tables:
  assumes inv: "hier_inv h w" and at: "tab (pw_tables w) (h_root h) (vpath va 4 k) = Some t" "2 \<le> k" "k \<le> 4"
    and absent: "\<not> bit (pw_tables w t (table_index va k)) 0"
    and alloc: "allocate_table h w = (PAGING_STATUS_OK, a, h1, w1)"
  defines "w2 \<equiv> set_entry t (table_index va k) (the a OR PAGE_PRESENT OR PAGE_WRITABLE) w1"
  shows "the a \<in> table_free (h, w)" and "table_free (h1, w2) = table_free (h, w) - {the a}"
    and "reach (pw_tables w2) (h_root h1) = insert (the a) (reach (pw_tables w) (h_root h))"
    and "empty_table (pw_tables w2) (the a)"
proof -
  note i = hier_invD [OF inv]
  from allocate_table_OK [OF i(1) alloc] obtain n where
    n: "a = Some n" "n \<in> table_free (h, w)" "table_free (h1, w1) = table_free (h, w) - {n}" "frame_address_ok n"
      "n \<notin> table_taken (h, w)" "pw_tables w1 = zero_table n (pw_tables w)" "same_hierarchy h h1" by blast
  let ?T = "pw_tables w" and ?i = "table_index va k"
  let ?T' = "table_write (zero_table n ?T) t ?i (n OR PAGE_PRESENT OR PAGE_WRITABLE)"
  have T': "pw_tables w2 = ?T'" "h_root h1 = h_root h" using n by (simp_all add: w2_def same_hierarchy_def)
  have path: "table_path (vpath va 4 k)" "length (vpath va 4 k) \<le> 2" using at(2) table_path_vpath by simp_all
  have fresh: "n \<notin> reach ?T (h_root h)" using n(5) i(4) by blast
  then have tn: "t \<noteq> n" using reachI [OF path(1) at(1)] by blast
  have other: "\<forall>u j. u \<noteq> n \<longrightarrow> (u, j) \<noteq> (t, ?i) \<longrightarrow> ?T' u j = ?T u j"
    by (auto simp: table_write_def zero_table_other)
  have empty: "empty_table ?T' n" using zero_table_empty [of n ?T] tn by (simp add: empty_table_def table_write_def)
  have link: "next_table (?T' t ?i) = Some n" "bit (?T' t ?i) 1" "\<not> bit (?T' t ?i) 63"
    using link_entry [OF n(4)] by simp_all
  have none: "next_table (?T t ?i) = None" using absent by (simp add: next_table_def)
  show "reach (pw_tables w2) (h_root h1) = insert (the a) (reach ?T (h_root h))"
    unfolding T' n(1) option.sel
    by (rule shape_write_link(3) [OF i(2,3) path(1) at(1) path(2) table_index_less none fresh empty link other])
  show "empty_table (pw_tables w2) (the a)" unfolding T' n(1) option.sel by (rule empty)
  show "the a \<in> table_free (h, w)" "table_free (h1, w2) = table_free (h, w) - {the a}"
    using n(1-3) table_pool_cong(3) [of w2 w1 h1] by (simp_all add: w2_def)
qed

text \<open>A walk that runs out of tables has linked every table that was free, and the last one is empty.\<close>

lemma entry_walk_exhausted:
  assumes "1 \<le> l" "l \<le> k" "k \<le> 4" and "hier_inv h w" and "tab (pw_tables w) (h_root h) (vpath va 4 k) = Some t"
    and "entry_walk l True va k t h w = (PAGING_STATUS_OUT_OF_FRAMES, slot, h', w')"
  shows "reach (pw_tables w') (h_root h') = reach (pw_tables w) (h_root h) \<union> table_free (h, w)
     \<and> (if table_free (h, w) = {} then h' = h \<and> w' = w else \<exists>n \<in> table_free (h, w). empty_table (pw_tables w') n)"
  using assms(2-)
proof (induction k arbitrary: t h w rule: dec_induct)
  case base
  then show ?case by (simp add: entry_walk_step [of l _ _ l])
next
  case (step k)
  have k: "k \<le> 4" "l < Suc k" "1 \<le> Suc k" "2 \<le> Suc k" using step.prems(1) step.hyps assms(1) by auto
  let ?e = "pw_tables w t (table_index va (Suc k))"
  note walk = step.prems(4) [unfolded entry_walk_step [of l _ _ "Suc k"] Let_def]
  show ?case
  proof (cases "bit ?e 0")
    case True
    then have e: "\<not> bit ?e 7"
      and w: "entry_walk l True va k (?e AND PAGE_FRAME_MASK) h w = (PAGING_STATUS_OUT_OF_FRAMES, slot, h', w')"
      using walk k(2) by (auto split: if_split_asm)
    have "tab (pw_tables w) (h_root h) (vpath va 4 k) = Some (?e AND PAGE_FRAME_MASK)"
      using tab_vpath_down [OF step.prems(3) k(3) step.prems(1) True e] by simp
    from step.IH [OF k(1) step.prems(2) this w] show ?thesis .
  next
    case False
    obtain s a h1 w1 where al: "allocate_table h w = (s, a, h1, w1)" by (cases "allocate_table h w")
    show ?thesis
    proof (cases "s = PAGING_STATUS_OK")
      case s: False
      then have "h' = h" "w' = w" "table_free (h, w) = {}"
        using walk False k(2) al allocate_table_fail [OF hier_invD(1) [OF step.prems(2)] al s] by auto
      then show ?thesis by simp
    next
      case s: True
      let ?w2 = "set_entry t (table_index va (Suc k)) (the a OR PAGE_PRESENT OR PAGE_WRITABLE) w1"
      note al = al [unfolded s]
      note ls = link_step [OF step.prems(2,3) k(4) step.prems(1) False al assms(1) k(2)]
      note lt = link_step_tables [OF step.prems(2,3) k(4) step.prems(1) False al]
      have at: "tab (pw_tables ?w2) (h_root h1) (vpath va 4 k) = Some (the a)" using ls(2) by simp
      have "entry_walk l True va k (the a) h1 ?w2 = (PAGING_STATUS_OUT_OF_FRAMES, slot, h', w')"
        using walk False k(2) al by simp
      note ih = step.IH [OF k(1) keeps_outD(1) [OF ls(1)] at this, unfolded lt(2,3)]
      have "\<exists>n \<in> table_free (h, w). empty_table (pw_tables w') n"
      proof (cases "table_free (h, w) - {the a} = {}")
        case True
        then have "w' = ?w2" using ih by simp
        then show ?thesis using lt(1,4) by blast
      qed (use ih in auto)
      then show ?thesis using ih lt(1) by auto
    qed
  qed
qed

lemma range_offsets_page: "range_offsets PAGING_PAGE_SIZE (level_page_size 1) = [0]"
  by (simp add: range_offsets_def level_page_size_def PAGING_PAGE_SIZE_def)

lemma range_offsets_0: "range_offsets 0 s = []"
  by (cases "unat s") (simp_all add: range_offsets_def)

lemma map_page_exhausted:
  assumes inv: "hier_inv h w" and call: "map_range h va pa PAGING_PAGE_SIZE p 1 w = (PAGING_STATUS_OUT_OF_FRAMES, h', w')"
  shows "\<exists>slot. entry_for h va 1 True w = (PAGING_STATUS_OUT_OF_FRAMES, slot, h', w')"
proof -
  obtain s0 slot0 h0 w0 where e0: "entry_for h va 1 False w = (s0, slot0, h0, w0)" by (cases "entry_for h va 1 False w")
  have "s0 \<noteq> PAGING_STATUS_OUT_OF_FRAMES"
    using entry_for_spec [OF _ _ inv e0] by (auto simp: walk_spec_def)
  then have c: "map_check h va 1 w [0] \<noteq> PAGING_STATUS_OUT_OF_FRAMES" using e0 by simp
  have v: "validate_permissions p \<noteq> PAGING_STATUS_OUT_OF_FRAMES"
    "validate_virtual_range va PAGING_PAGE_SIZE (level_page_size 1) \<noteq> PAGING_STATUS_OUT_OF_FRAMES"
    "validate_physical_range pa PAGING_PAGE_SIZE (level_page_size 1) \<noteq> PAGING_STATUS_OUT_OF_FRAMES"
    by (simp_all add: validate_permissions_def validate_virtual_range_def validate_physical_range_def Let_def)
  have m: "map_pages va pa p 1 h w [0] = (PAGING_STATUS_OUT_OF_FRAMES, h', w')"
    using call c v unfolding map_range_def range_offsets_page Let_def by (auto split: if_split_asm)
  obtain s slot h1 w1 where e: "entry_for h va 1 True w = (s, slot, h1, w1)" by (cases "entry_for h va 1 True w")
  show ?thesis using m e by (auto simp: clear_range_def range_offsets_0 split: if_split_asm)
qed

subsection \<open>Properties\<close>

text \<open> C1. \<open>map_range\<close> refines the update of an address space: when it returns OK the addresses of the
  range, and no others, change, from not mapped to the requested frame, permissions, memory type and
  level; when it returns anything else, also after running out of tables halfway, every address
  translates as before. The hierarchy invariant is kept in both cases.\<close>

theorem map_range_refines:
  assumes "hier_inv h w" and "1 \<le> l" "l \<le> 2" and "pat_ok pat"
    and "map_range h va pa len p l w = (st, h', w')"
  shows "hier_inv h' w'
     \<and> (\<forall>a. translate_address h' a pat w' =
          (if st = PAGING_STATUS_OK \<and> in_range va len a
           then (PAGING_STATUS_OK,
                 \<lparr>tr_physical_address = pa + (a - va), tr_permissions = p,
                  tr_memory_type = mapping_type p, tr_level = l, tr_user = False\<rparr>)
           else translate_address h a pat w))
     \<and> (\<forall>a. st = PAGING_STATUS_OK \<longrightarrow> in_range va len a
          \<longrightarrow> translate_address h a pat w = (PAGING_STATUS_NOT_MAPPED, no_translation))"
  using map_range_translations [OF assms] unfolding mapping_def by blast

theorem map_range_refines_witness:
  "hier_inv sample_arena sample_world
   \<and> map_range sample_arena 0x40200000 0x123000 0x1000 PAGING_WRITE 1 sample_world
       = (PAGING_STATUS_OK, fst test_mapped, snd test_mapped)
   \<and> translate_address (fst test_mapped) 0x40200040 PAGING_TEST_PAT (snd test_mapped) =
       (PAGING_STATUS_OK, \<lparr>tr_physical_address = 0x123040, tr_permissions = PAGING_WRITE,
          tr_memory_type = PAGING_MEMORY_WRITE_BACK, tr_level = 1, tr_user = False\<rparr>)"
  using map_range_refines [OF test_inv(1) test_level test_pat test_map] test_inv(1) test_map
  by (simp add: in_range_def mapping_type_def bit_permissions)

text \<open> C8. \<open>unmap_range\<close> succeeds exactly when the range passes the checks and every address of it is
  mapped by a 4 KiB page; then exactly the range becomes unmapped, and a refusal changes nothing.\<close>

theorem unmap_range_refines:
  assumes "hier_inv h w" and "unat len \<le> 2 ^ 63" and "unmap_range h va len w = (st, h', w')"
  shows "hier_inv h' w'
     \<and> (\<forall>a pat. translate_address h' a pat w' =
          (if st = PAGING_STATUS_OK \<and> in_range va len a then (PAGING_STATUS_NOT_MAPPED, no_translation)
           else translate_address h a pat w))
     \<and> (st = PAGING_STATUS_OK \<longleftrightarrow> validate_virtual_range va len PAGING_PAGE_SIZE = PAGING_STATUS_OK
          \<and> (\<forall>a. in_range va len a \<longrightarrow>
               (\<exists>tr. translate_address h a pat w = (PAGING_STATUS_OK, tr) \<and> tr_level tr = 1)))"
  using unmap_range_translations [OF assms] unmap_range_OK_iff [OF assms(1,2), of va pat] assms(3) by simp

theorem unmap_range_refines_witness:
  "\<exists>h' w'. unmap_range (fst test_mapped) 0x40200000 0x1000 (snd test_mapped) = (PAGING_STATUS_OK, h', w')
     \<and> hier_inv h' w'
     \<and> translate_address h' 0x40200040 PAGING_TEST_PAT w' = (PAGING_STATUS_NOT_MAPPED, no_translation)"
proof -
  obtain h' w' where u: "unmap_range (fst test_mapped) 0x40200000 0x1000 (snd test_mapped) = (PAGING_STATUS_OK, h', w')"
    using test_unmap by blast
  have "unat (0x1000 :: u64) \<le> 2 ^ 63" by simp
  from unmap_range_refines [OF test_mapped_inv this u] u show ?thesis by (simp add: in_range_def)
qed

text \<open>A root taken from the frame allocator, as \<open>paging_initialize\<close> does.\<close>

lemma allocated_root:
  assumes "table_pool_inv (h, w)" and "h_table_frames h = 0" and "allocate_table h w = (PAGING_STATUS_OK, a, h1, w1)"
  shows "hier_inv (h1\<lparr>h_root := the a\<rparr>) w1" and "packed (pw_tables w1) (the a)" and "same_hierarchy h h1"
    and "empty_table (pw_tables w1) (the a)" and "table_taken (h1\<lparr>h_root := the a\<rparr>, w1) = insert (the a) (table_taken (h, w))"
    and "the a \<notin> table_taken (h, w)"
proof -
  from allocate_table_OK [OF assms(1,3)] obtain n where n: "a = Some n" "table_pool_inv (h1, w1)"
    "table_taken (h1, w1) = insert n (table_taken (h, w))" "pw_tables w1 = zero_table n (pw_tables w)"
    "h_table_frames h1 = h_table_frames h + 1" "same_hierarchy h h1" "n \<notin> table_taken (h, w)" by blast
  let ?h = "h1\<lparr>h_root := n\<rparr>"
  have arena: "arena_page ?h = arena_page h1" by (simp add: arena_page_def fun_eq_iff)
  have pool: "table_pool_inv (?h, w1) = table_pool_inv (h1, w1)" "table_taken (?h, w1) = table_taken (h1, w1)"
    unfolding table_pool_defs prod.case arena by simp_all
  have "empty_table (pw_tables w1) (h_root ?h)" using zero_table_empty by (simp add: n(4))
  moreover have "table_pool_inv (?h, w1)" "h_root ?h \<in> table_taken (?h, w1)" "h_table_frames ?h = 1"
    unfolding pool using n(2,3,5) assms(2) by simp_all
  ultimately show "hier_inv (h1\<lparr>h_root := the a\<rparr>) w1" "packed (pw_tables w1) (the a)"
    "empty_table (pw_tables w1) (the a)"
    using fresh_hierarchy [of ?h w1] n(1) by simp_all
  show "same_hierarchy h h1" "the a \<notin> table_taken (h, w)" using n by simp_all
  show "table_taken (h1\<lparr>h_root := the a\<rparr>, w1) = insert (the a) (table_taken (h, w))"
    using pool(2) n(1,3) by simp
qed

definition bare_hierarchy :: page_hierarchy where
  "bare_hierarchy = \<lparr>h_root = 0, h_arena_base = 0, h_arena_capacity = 0, h_arena_used = 0, h_table_frames = 0, h_live = True\<rparr>"

definition framed_world :: paging_world where
  "framed_world = sample_world\<lparr>pw_frames := sample_frames\<rparr>"

lemma framed_pool: "table_pool_inv (bare_hierarchy, framed_world)"
  using sample_frames_facts(4,6) by (simp add: table_pool_inv_def bare_hierarchy_def framed_world_def frame_pool_inv_def)

lemma framed_root:
  obtains h w where "hier_inv h w" and "h_arena_capacity h = 0" and "empty_table (pw_tables w) (h_root h)"
proof -
  have "frame_pool_inv (pw_frames framed_world)" "free_set (pw_frames framed_world) \<noteq> {}"
    using sample_frames_facts(3,4,6) by (simp_all add: framed_world_def frame_pool_inv_def)
  moreover have "h_arena_capacity bare_hierarchy = 0" by (simp add: bare_hierarchy_def)
  ultimately obtain n h1 w1 where a: "allocate_table bare_hierarchy framed_world = (PAGING_STATUS_OK, Some n, h1, w1)"
    using allocate_table_frames [of bare_hierarchy framed_world] by blast
  have "h_table_frames bare_hierarchy = 0" by (simp add: bare_hierarchy_def)
  note r = allocated_root [OF framed_pool this a]
  show thesis
    by (rule that [OF r(1)]) (use r(3,4) in \<open>simp_all add: same_hierarchy_def bare_hierarchy_def\<close>)
qed

lemma fill_memory_type: "tr_memory_type (fill_translation e a l x y z pat) = leaf_memory_type e l pat"
  by (simp add: fill_translation_def Let_def)

lemma protect_range_OK_iff:
  assumes "hier_inv h w" and "unat len \<le> 2 ^ 63" and "pat_ok pat"
  shows "fst (protect_range h va len p pat w) = PAGING_STATUS_OK \<longleftrightarrow>
     validate_permissions p = PAGING_STATUS_OK
     \<and> validate_virtual_range va len PAGING_PAGE_SIZE = PAGING_STATUS_OK
     \<and> (\<forall>a. in_range va len a \<longrightarrow> (\<exists>tr. translate_address h a pat w = (PAGING_STATUS_OK, tr) \<and> tr_level tr = 1
          \<and> tr_memory_type tr = mapping_type p))" (is "?ok \<longleftrightarrow> ?p \<and> ?r \<and> ?all")
proof
  assume ?ok
  then obtain w' where c: "protect_range h va len p pat w = (PAGING_STATUS_OK, w')" by (metis fst_conv surj_pair)
  have ?p using map_range_OK_permissions(2) [OF c] .
  moreover have ?r using assms c by (cases rule: protect_range_cases) (simp_all add: range_ok_level_1 [simplified])
  moreover have ?all using protect_range_translations(3) [OF assms c] by blast
  ultimately show "?p \<and> ?r \<and> ?all" by blast
next
  assume *: "?p \<and> ?r \<and> ?all"
  then have r: "range_ok va len 1" unfolding range_ok_level_1 using assms(2) by blast
  let ?xs = "map (page_offset 1) [0..<page_count len 1]"
  note xs = range_offsets_1 [OF r]
  have "\<exists>e. leaf_at (pw_tables w) (h_root h) (va + x) 1 e \<and> leaf_memory_type e 1 pat = mapping_type p"
    if x: "x \<in> set ?xs" for x
  proof -
    from x obtain k where k: "k < page_count len 1" "x = page_offset 1 k" by auto
    note c = page_canonical [OF r k(1)]
    have "in_range va len (va + x)" unfolding k(2) in_range_page [OF r c] using k(1) by (intro exI [of _ k]) simp
    then obtain tr where tr: "translate_address h (va + x) pat w = (PAGING_STATUS_OK, tr)" "tr_level tr = 1"
      "tr_memory_type tr = mapping_type p" using * by blast
    then obtain e where e: "leaf_at (pw_tables w) (h_root h) (va + x) 1 e"
      using leaf_at_1_iff [OF assms(1) c, of pat] unfolding k(2) by blast
    from leaf_translation [OF hier_invD(3) [OF assms(1)] e, of pat] tr(1,3) fill_memory_type [of e "va + x" 1]
    have "leaf_memory_type e 1 pat = mapping_type p"
      unfolding k(2) translate_address_canonical [OF c] by fastforce
    then show ?thesis using e by blast
  qed
  then obtain g where g: "\<forall>x \<in> set ?xs. leaf_at (pw_tables w) (h_root h) (va + x) 1 (g x)"
    "\<forall>x \<in> set ?xs. leaf_memory_type (g x) 1 pat = mapping_type p" by metis
  have "require_mapped_range h va w ?xs = PAGING_STATUS_OK"
    unfolding require_mapped_OK [OF assms(1)] using g(1) by blast
  moreover have "protect_check h va (leaf_memory_type (permissions_to_flags p) 1 pat) pat w ?xs = PAGING_STATUS_OK"
    unfolding protect_check_OK [OF g(1)] using g(2) requested_type assms(3) * by auto
  ultimately show ?ok using * unfolding protect_range_def Let_def xs by simp
qed

text \<open> C9. \<open>protect_range\<close> changes the permissions of exactly the range, and only where the memory type
  stays the same: frame, level and memory type of every address of the range survive, the page is
  supervisor-only afterwards, and every other address translates as before. It succeeds exactly when
  permissions and range are valid and every address is mapped by a 4 KiB page of that type.\<close>

theorem protect_range_refines:
  assumes "hier_inv h w" and "unat len \<le> 2 ^ 63" and "pat_ok pat" and "protect_range h va len p pat w = (st, w')"
  shows "hier_inv h w'
     \<and> (\<forall>a. if st = PAGING_STATUS_OK \<and> in_range va len a
            then \<exists>tr. translate_address h a pat w = (PAGING_STATUS_OK, tr) \<and> tr_level tr = 1
                   \<and> tr_memory_type tr = mapping_type p
                   \<and> translate_address h a pat w' = (PAGING_STATUS_OK, tr\<lparr>tr_permissions := p, tr_user := False\<rparr>)
            else translate_address h a pat w' = translate_address h a pat w)
     \<and> (st = PAGING_STATUS_OK \<longleftrightarrow> validate_permissions p = PAGING_STATUS_OK
          \<and> validate_virtual_range va len PAGING_PAGE_SIZE = PAGING_STATUS_OK
          \<and> (\<forall>a. in_range va len a \<longrightarrow> (\<exists>tr. translate_address h a pat w = (PAGING_STATUS_OK, tr)
               \<and> tr_level tr = 1 \<and> tr_memory_type tr = mapping_type p)))"
  using protect_range_translations [OF assms] protect_range_OK_iff [OF assms(1-3), of va p] assms(4) by auto

theorem protect_range_refines_witness:
  "\<exists>w'. protect_range (fst test_mapped) 0x40200000 0x1000 PAGING_EXECUTE PAGING_TEST_PAT (snd test_mapped)
       = (PAGING_STATUS_OK, w')
     \<and> translate_address (fst test_mapped) 0x40200040 PAGING_TEST_PAT w' =
       (PAGING_STATUS_OK, \<lparr>tr_physical_address = 0x123040, tr_permissions = PAGING_EXECUTE,
          tr_memory_type = PAGING_MEMORY_WRITE_BACK, tr_level = 1, tr_user = False\<rparr>)"
proof -
  let ?call = "protect_range (fst test_mapped) 0x40200000 0x1000 PAGING_EXECUTE PAGING_TEST_PAT (snd test_mapped)"
  have len: "unat (0x1000 :: u64) \<le> 2 ^ 63" by simp
  note t = map_range_translations(2) [OF test_inv(1) test_level test_pat test_map]
  have v: "validate_permissions PAGING_EXECUTE = PAGING_STATUS_OK"
    "validate_virtual_range 0x40200000 0x1000 PAGING_PAGE_SIZE = PAGING_STATUS_OK" by code_simp+
  obtain st w' where c: "?call = (st, w')" by fastforce
  note p = protect_range_refines [OF test_mapped_inv len test_pat c]
  have "st = PAGING_STATUS_OK" using p v t by (auto simp: mapping_def mapping_type_def bit_permissions)
  moreover have "in_range 0x40200000 0x1000 0x40200040" by (simp add: in_range_def)
  ultimately show ?thesis
    using p t [of "0x40200040"] c
    by (auto simp: mapping_def mapping_type_def bit_permissions dest!: spec [of _ "0x40200040"])
qed

text \<open> C7. Mapping a range and unmapping it again restores every translation and keeps no table: there are at
  most as many tables as before the mapping. The unmapping also gives back tables on its way that were empty before;
  when there were none the count is exactly what it was, and again no table is empty.\<close>

theorem map_unmap_restores:
  assumes "hier_inv h w" and "pat_ok pat" and "map_range h va pa len p 1 w = (PAGING_STATUS_OK, h1, w1)"
  shows "\<exists>h2 w2. unmap_range h1 va len w1 = (PAGING_STATUS_OK, h2, w2) \<and> hier_inv h2 w2
     \<and> (\<forall>a. translate_address h2 a pat w2 = translate_address h a pat w)
     \<and> h_table_frames h2 \<le> h_table_frames h
     \<and> (packed (pw_tables w) (h_root h) \<longrightarrow> h_table_frames h2 = h_table_frames h \<and> packed (pw_tables w2) (h_root h2))"
proof -
  have i: "space_inv (pat, h, w)" using assms(1,2) by (simp add: space_inv_def)
  have m: "space_map va pa len p (pat, h, w) = Some (pat, h1, w1)"
    unfolding space_map_Some using assms(3) by blast
  from spaces.map_unmap [OF i m] obtain h2 w2 where
    u: "unmap_range h1 va len w1 = (PAGING_STATUS_OK, h2, w2)" "hier_inv h2 w2"
      "\<forall>a. translate_address h2 a pat w2 = translate_address h a pat w"
    unfolding space_unmap_Some by (auto simp: space_inv_def space_read_def)
  have l: "(1 :: nat) \<le> 1" "(1 :: nat) \<le> 2" by simp_all
  have len: "unat len \<le> 2 ^ 63" using space_map_facts(2) [OF i m] .
  note inv1 = map_range_translations(1) [OF assms(1) l assms(2,3)]
  have pk: "packed_over E (pw_tables w2) (h_root h2)" if "packed_over E (pw_tables w) (h_root h)" for E
    by (rule unmap_range_packed [OF inv1 len u(1) map_range_packed [OF assms(1) l that assms(3)]])
  have "h_root h1 = h_root h" using assms(1) l assms(3) by (cases rule: map_range_cases) (simp_all add: keeps_outD(3))
  moreover have "h_root h2 = h_root h1" using inv1 len u(1) by (cases rule: unmap_range_cases) (simp_all add: keeps_outD(3))
  ultimately have r: "h_root h2 = h_root h" by simp
  have "h_table_frames h2 \<le> h_table_frames h"
    by (rule tables_count_le [OF assms(1) u(2) r pk [OF packed_over_empty] _ u(3)]) (auto simp: empty_paths_def)
  moreover have "h_table_frames h2 = h_table_frames h" if "packed (pw_tables w) (h_root h)"
    by (rule packed_count [OF assms(1) that u(2) pk [OF that] r u(3)])
  ultimately show ?thesis using u pk by blast
qed

theorem map_unmap_restores_witness:
  "\<exists>h2 w2. unmap_range (fst test_mapped) 0x40200000 0x1000 (snd test_mapped) = (PAGING_STATUS_OK, h2, w2)
     \<and> h_table_frames h2 = 1 \<and> h_table_frames (fst test_mapped) = 4"
proof -
  have "h_table_frames (fst test_mapped) = 4" unfolding test_mapped_def by code_simp
  moreover have "h_table_frames sample_arena = 1" by (simp add: sample_hierarchy_def)
  ultimately show ?thesis using map_unmap_restores [OF test_inv(1) test_pat test_map] test_inv(2) by auto
qed

text \<open> C2. No sequence of map, unmap and protect calls, whatever they return, can produce a page that is
  both writable and executable: the audit of \<open>paging_verify\<close> keeps counting none.\<close>

theorem hierarchy_never_write_execute:
  assumes "hier_inv h w" and "pat_ok pat" and "write_execute_leaves (audit_hierarchy h w) = 0"
    and "(hierarchy_step pat)\<^sup>*\<^sup>* (h, w) (h', w')"
  shows "hier_inv h' w' \<and> write_execute_leaves (audit_hierarchy h' w') = 0"
proof -
  have "wx_free pat h w" unfolding wx_free_def using assms(3) unfolding audit_wx_iff [of h w pat] .
  then have "hier_inv h' w'" "wx_free pat h' w'" using hierarchy_run_safe [OF assms(4,2)] assms(1) by simp_all
  then show ?thesis unfolding audit_wx_iff [of h' w' pat] wx_free_def by blast
qed

lemma test_audit: "write_execute_leaves (audit_hierarchy sample_arena sample_world) = 0"
  unfolding audit_wx_iff [of _ _ PAGING_TEST_PAT] using test_wx_free [of PAGING_TEST_PAT] unfolding wx_free_def .

theorem hierarchy_never_write_execute_witness:
  "(hierarchy_step PAGING_TEST_PAT)\<^sup>*\<^sup>* (sample_arena, sample_world) test_mapped
   \<and> write_execute_leaves (audit_hierarchy (fst test_mapped) (snd test_mapped)) = 0"
proof -
  have "hierarchy_step PAGING_TEST_PAT (sample_arena, sample_world) (fst test_mapped, snd test_mapped)"
    by (rule step_map [OF test_level test_map])
  then have r: "(hierarchy_step PAGING_TEST_PAT)\<^sup>*\<^sup>* (sample_arena, sample_world) (fst test_mapped, snd test_mapped)" by blast
  from hierarchy_never_write_execute [OF test_inv(1) test_pat test_audit this] r show ?thesis by simp
qed

text \<open> C10. The audit is exact: it counts no writable and executable leaf exactly when no address at all
  translates to a page with both rights.\<close>

theorem audit_hierarchy_exact:
  "write_execute_leaves (audit_hierarchy h w) = 0 \<longleftrightarrow>
     (\<forall>a tr. translate_address h a pat w = (PAGING_STATUS_OK, tr)
        \<longrightarrow> tr_permissions tr AND PAGING_WRITE = 0 \<or> tr_permissions tr AND PAGING_EXECUTE = 0)"
  unfolding audit_wx_iff [of h w pat] by simp

theorem audit_hierarchy_exact_witness:
  "write_execute_leaves (audit_hierarchy sample_arena sample_world) = 0
   \<and> translate_address sample_arena 0x40200000 PAGING_TEST_PAT sample_world = (PAGING_STATUS_NOT_MAPPED, no_translation)"
proof -
  have "write_execute_leaves (audit_hierarchy sample_arena sample_world) = 0"
    unfolding audit_hierarchy_exact [of _ _ PAGING_TEST_PAT]
    using test_wx_free [of PAGING_TEST_PAT] unfolding wx_free_def by simp
  moreover have "translate_address sample_arena 0x40200000 PAGING_TEST_PAT sample_world = (PAGING_STATUS_NOT_MAPPED, no_translation)"
    by (rule empty_translate) (simp_all add: sample_world_def empty_table_def canonical_iff)
  ultimately show ?thesis by blast
qed

lemma logged_pages:
  assumes "range_ok va len 1" and "h_live h" and "logged h (map (\<lambda>k. va + page_offset 1 k) [0..<page_count len 1]) w w'"
  shows "\<exists>vs. pw_invalidated w' = vs @ pw_invalidated w
     \<and> (\<forall>a. in_range va len a \<longrightarrow> (\<exists>v \<in> set vs. unat v div 4096 = unat a div 4096))"
proof -
  let ?vs = "rev (map (\<lambda>k. va + page_offset 1 k) [0..<page_count len 1])"
  have "\<exists>v \<in> set ?vs. unat v div 4096 = unat a div 4096" if a: "in_range va len a" for a
  proof -
    have c: "address_is_canonical a" using a range_ok_canonical [OF assms(1)] by (simp add: in_range_def)
    then obtain k where k: "k < page_count len 1" "same_slot 1 a (va + page_offset 1 k)"
      using a in_range_page [OF assms(1)] by blast
    then have "unat a div 4096 = unat (va + page_offset 1 k) div 4096"
      using same_slot_page [OF c page_canonical [OF assms(1) k(1)], of 1] by simp
    moreover have "va + page_offset 1 k \<in> set ?vs" using k(1) by auto
    ultimately show ?thesis by metis
  qed
  moreover have "pw_invalidated w' = ?vs @ pw_invalidated w" using assms(2,3) unfolding logged_def by simp
  ultimately show ?thesis by blast
qed

text \<open> C11. On the live hierarchy no stale translation survives a change: every address whose translation
  an unmap or a protect changed lies in a page that was invalidated with \<open>INVLPG\<close> by that call.\<close>

theorem changed_pages_invalidated:
  assumes "hier_inv h w" and "h_live h" and "unat len \<le> 2 ^ 63" and "pat_ok pat"
    and "unmap_range h va len w = (st, h', w') \<or> h' = h \<and> protect_range h va len p pat w = (st, w')"
  shows "\<exists>vs. pw_invalidated w' = vs @ pw_invalidated w
     \<and> (\<forall>a. translate_address h' a pat w' \<noteq> translate_address h a pat w
          \<longrightarrow> (\<exists>v \<in> set vs. unat v div 4096 = unat a div 4096))"
  using assms(5)
proof
  assume u: "unmap_range h va len w = (st, h', w')"
  note t = unmap_range_translations(2) [OF assms(1,3) u, where pat = pat]
  from assms(1,3) u show ?thesis
  proof (cases rule: unmap_range_cases)
    case cleared
    from logged_pages [OF cleared(2) assms(2) cleared(6)] obtain vs where
      vs: "pw_invalidated w' = vs @ pw_invalidated w"
        "\<forall>a. in_range va len a \<longrightarrow> (\<exists>v \<in> set vs. unat v div 4096 = unat a div 4096)" by blast
    have "in_range va len a" if "translate_address h' a pat w' \<noteq> translate_address h a pat w" for a
      using that unfolding t by (auto split: if_split_asm)
    then show ?thesis using vs by blast
  qed simp
next
  assume "h' = h \<and> protect_range h va len p pat w = (st, w')"
  then have h: "h' = h" and u: "protect_range h va len p pat w = (st, w')" by simp_all
  note t = protect_range_translations(2) [OF assms(1,3,4) u]
  from assms(1,3,4) u show ?thesis
  proof (cases rule: protect_range_cases)
    case (changed f)
    from logged_pages [OF changed(2) assms(2) changed(6)] obtain vs where
      vs: "pw_invalidated w' = vs @ pw_invalidated w"
        "\<forall>a. in_range va len a \<longrightarrow> (\<exists>v \<in> set vs. unat v div 4096 = unat a div 4096)" by blast
    then show ?thesis using t unfolding h by blast
  qed (simp add: h)
qed

theorem changed_pages_invalidated_witness:
  "\<exists>h' w' v. unmap_range (fst test_mapped) 0x40200000 0x1000 (snd test_mapped) = (PAGING_STATUS_OK, h', w')
     \<and> v \<in> set (pw_invalidated w') \<and> unat v div 4096 = 0x40200"
proof -
  obtain h' w' where u: "unmap_range (fst test_mapped) 0x40200000 0x1000 (snd test_mapped) = (PAGING_STATUS_OK, h', w')"
    using test_unmap by blast
  have len: "unat (0x1000 :: u64) \<le> 2 ^ 63" by simp
  have live: "h_live (fst test_mapped)"
    using test_inv(1) test_level test_map
    by (cases rule: map_range_cases) (simp_all add: keeps_outD(4) sample_hierarchy_def)
  note t = unmap_range_translations(2) [OF test_mapped_inv len u, of "0x40200000" PAGING_TEST_PAT]
    map_range_translations(2) [OF test_inv(1) test_level test_pat test_map, of "0x40200000"]
  have "translate_address h' 0x40200000 PAGING_TEST_PAT w' \<noteq> translate_address (fst test_mapped) 0x40200000 PAGING_TEST_PAT (snd test_mapped)"
    unfolding t by (simp add: in_range_def)
  moreover obtain vs where vs: "pw_invalidated w' = vs @ pw_invalidated (snd test_mapped)"
    "\<forall>a. translate_address h' a PAGING_TEST_PAT w' \<noteq> translate_address (fst test_mapped) a PAGING_TEST_PAT (snd test_mapped)
       \<longrightarrow> (\<exists>v \<in> set vs. unat v div 4096 = unat a div 4096)"
    using changed_pages_invalidated [OF test_mapped_inv live len test_pat disjI1 [OF u]] by blast
  ultimately obtain v where "v \<in> set vs" "unat v div 4096 = unat (0x40200000 :: u64) div 4096" by blast
  then show ?thesis using u vs(1) by (intro exI [of _ h'] exI [of _ w'] exI [of _ v]) simp
qed

lemma hierarchy_step_keeps:
  assumes "hierarchy_step pat (h, w) (h', w')" and "pat_ok pat" and "hier_inv h w" and "h_arena_capacity h = 0"
  shows "hier_inv h' w' \<and> h_arena_capacity h' = 0 \<and> others h' w' = others h w"
  using assms(1)
proof cases
  case (step_map l va pa len p st)
  from assms(3) step_map show ?thesis
    by (cases rule: map_range_cases) (use assms(3,4) in \<open>auto simp: keeps_out_def same_hierarchy_def\<close>)
next
  case (step_unmap len va st)
  from assms(3) step_unmap show ?thesis
    by (cases rule: unmap_range_cases) (use assms(3,4) in \<open>auto simp: keeps_out_def same_hierarchy_def\<close>)
next
  case (step_protect len va p st)
  from assms(3) step_protect(2) assms(2) step_protect(3) show ?thesis
    by (cases rule: protect_range_cases)
      (use assms(3,4) step_protect(1) in \<open>auto simp: keeps_out_def same_hierarchy_def\<close>)
qed

text \<open> C12. The hierarchy owns its tables and nothing else: over any sequence of calls the frames that
  other components took from the allocator stay allocated to them, every table is a frame taken from
  the allocator and reached by one path only, and \<open>table_frames\<close> counts the tables.\<close>

theorem hierarchy_frames_owned:
  assumes "hier_inv h w" and "h_arena_capacity h = 0" and "pat_ok pat"
    and "(hierarchy_step pat)\<^sup>*\<^sup>* (h, w) (h', w')"
  shows "frame_addresses (single_set (pw_frames w')) - reach (pw_tables w') (h_root h')
       = frame_addresses (single_set (pw_frames w)) - reach (pw_tables w) (h_root h)
     \<and> reach (pw_tables w') (h_root h') \<subseteq> frame_addresses (single_set (pw_frames w'))
     \<and> tree (pw_tables w') (h_root h')
     \<and> h_table_frames h' = of_nat (card (reach (pw_tables w') (h_root h')))"
proof -
  have "hier_inv (fst s) (snd s) \<and> h_arena_capacity (fst s) = 0 \<and> others (fst s) (snd s) = others h w"
    if "(hierarchy_step pat)\<^sup>*\<^sup>* (h, w) s" for s
    using that
  proof (induction rule: rtranclp_induct)
    case (step s1 s2)
    then show ?case using hierarchy_step_keeps [of pat "fst s1" "snd s1" "fst s2" "snd s2"] assms(3) by simp
  qed (use assms in simp)
  from this [OF assms(4)] have k: "hier_inv h' w'" "h_arena_capacity h' = 0" "others h' w' = others h w" by simp_all
  then show ?thesis
    using hier_invD [OF k(1)] assms(2) unfolding others_def table_taken_def by simp
qed

theorem hierarchy_frames_owned_witness:
  "\<exists>h w h' w' st. hier_inv h w \<and> h_arena_capacity h = 0
     \<and> map_range h 0x40200000 0x123000 0x1000 PAGING_WRITE 1 w = (st, h', w')
     \<and> frame_addresses (single_set (pw_frames w')) - reach (pw_tables w') (h_root h')
       = frame_addresses (single_set (pw_frames w)) - reach (pw_tables w) (h_root h)"
proof -
  obtain h w where f: "hier_inv h w" "h_arena_capacity h = 0" by (rule framed_root)
  obtain st h' w' where m: "map_range h 0x40200000 0x123000 0x1000 PAGING_WRITE 1 w = (st, h', w')"
    by (cases "map_range h 0x40200000 0x123000 0x1000 PAGING_WRITE 1 w")
  have "hierarchy_step PAGING_TEST_PAT (h, w) (h', w')" by (rule step_map [OF test_level m])
  then have "(hierarchy_step PAGING_TEST_PAT)\<^sup>*\<^sup>* (h, w) (h', w')" by blast
  from hierarchy_frames_owned [OF f test_pat this] f m show ?thesis by blast
qed

text \<open> C35. Whenever the mapping of a single page is refused for lack of tables, the hierarchy keeps every table
  that was still free: all of them are linked into it, the last of them empty, \<open>table_frames\<close> counts them, and no
  table is left for anyone.\<close>

theorem map_range_leaves_tables:
  assumes "hier_inv h w" and "map_range h va pa PAGING_PAGE_SIZE p 1 w = (PAGING_STATUS_OUT_OF_FRAMES, h', w')"
  shows "table_free (h', w') = {} \<and> reach (pw_tables w') (h_root h') = reach (pw_tables w) (h_root h) \<union> table_free (h, w)
     \<and> h_table_frames h' = h_table_frames h + of_nat (card (table_free (h, w)))
     \<and> (table_free (h, w) \<noteq> {} \<longrightarrow> (\<exists>n \<in> table_free (h, w). empty_table (pw_tables w') n))"
proof -
  obtain slot where e: "entry_for h va 1 True w = (PAGING_STATUS_OUT_OF_FRAMES, slot, h', w')"
    using map_page_exhausted [OF assms] by blast
  have l: "(1 :: nat) \<le> 1" "(1 :: nat) \<le> 4" by simp_all
  from entry_for_spec [OF l assms(1) e] have s: "table_free (h', w') = {}" "hier_inv h' w'"
    by (auto simp: walk_spec_def keeps_out_def)
  note r = entry_walk_exhausted [OF l order_refl assms(1) _ e [unfolded entry_for_def PAGING_LEVEL_COUNT_def], simplified]
  note i = hier_invD [OF assms(1)]
  have d: "reach (pw_tables w) (h_root h) \<inter> table_free (h, w) = {}" using tables.disjoint [OF i(1)] i(4) by blast
  have f: "finite (table_free (h, w))"
    using r hier_invD(6) [OF s(2)] by (metis finite_Un)
  have "h_table_frames h' = h_table_frames h + of_nat (card (table_free (h, w)))"
    using hier_invD(5) [OF s(2)] i(5) r card_Un_disjoint [OF i(6) f d] by simp
  then show ?thesis using s(1) r by (auto split: if_split_asm)
qed

theorem map_range_leaves_tables_witness:
  "\<exists>h' w'. map_range (sample_hierarchy 2) 0x200000 0 PAGING_PAGE_SIZE PAGING_WRITE 1 sample_world = (PAGING_STATUS_OUT_OF_FRAMES, h', w')
     \<and> h_table_frames (sample_hierarchy 2) = 1 \<and> h_table_frames h' = 2
     \<and> 0x101000 \<in> reach (pw_tables w') (h_root h') \<and> empty_table (pw_tables w') 0x101000"
proof -
  let ?m = "map_range (sample_hierarchy 2) 0x200000 0 PAGING_PAGE_SIZE PAGING_WRITE 1 sample_world"
  have st: "fst ?m = PAGING_STATUS_OUT_OF_FRAMES" by code_simp
  obtain h' w' where m: "?m = (PAGING_STATUS_OUT_OF_FRAMES, h', w')" using st by (cases ?m) simp
  have inv: "hier_inv (sample_hierarchy 2) sample_world"
    by (rule fresh_hierarchy(1);
        simp add: sample_hierarchy_def sample_world_def table_pool_defs empty_table_def arena_page_def)
  have free: "table_free (sample_hierarchy 2, sample_world) = {0x101000}"
    by (simp add: table_free_def sample_hierarchy_def arena_page_def PAGING_PAGE_SIZE_def numeral_2_eq_2)
  have one: "h_table_frames (sample_hierarchy 2) = 1" by (simp add: sample_hierarchy_def)
  show ?thesis using map_range_leaves_tables [OF inv m] m unfolding free one by auto
qed

text \<open> C36. \<open>validate_virtual_range\<close> looks at the first and the last byte of a range only. The ranges it accepts that
  contain an address that is not canonical are exactly those longer than half the address space, which span the
  whole hole; every shorter one that it accepts is canonical throughout.\<close>

theorem virtual_range_spans_hole:
  assumes "validate_virtual_range va len page_size = PAGING_STATUS_OK"
  shows "(\<exists>a. in_range va len a \<and> \<not> address_is_canonical a) \<longleftrightarrow> 2 ^ 63 < unat len"
proof -
  have "len \<noteq> 0" "\<not> len > 0xFFFFFFFFFFFFFFFF - va" and c: "address_is_canonical va" "address_is_canonical (va + len - 1)"
    using assms by (auto simp: validate_virtual_range_def split: if_split_asm)
  moreover have "unat (0xFFFFFFFFFFFFFFFF - va) = 2 ^ 64 - 1 - unat va"
    using unat_less_size [of va] by (subst unat_sub) (simp_all add: word_le_nat_alt)
  ultimately have v: "0 < unat len" "unat va + unat len < 2 ^ 64"
    using unat_less_size [of va] by (simp_all add: word_less_nat_alt unat_gt_0)
  have e: "unat (va + len - 1) = unat va + unat len - 1"
  proof -
    have "unat (va + len) = unat va + unat len" using v(2) by (intro unat_plus_bounded) simp
    then show ?thesis using v(1) by (subst unat_sub) (simp_all add: word_le_nat_alt)
  qed
  note c = c [unfolded canonical_iff e]
  show ?thesis
  proof
    assume "\<exists>a. in_range va len a \<and> \<not> address_is_canonical a"
    then obtain a :: u64 where "unat va \<le> unat a" "unat a < unat va + unat len" "2 ^ 47 \<le> unat a" "unat a < 2 ^ 64 - 2 ^ 47"
      unfolding in_range_def canonical_iff by (auto simp: not_less not_le)
    then show "2 ^ 63 < unat len" using c by auto
  next
    assume "2 ^ 63 < unat len"
    then have "unat va < 2 ^ 47" "2 ^ 47 < unat va + unat len" using c v(2) by simp_all
    then have "in_range va len 0x800000000000" "\<not> address_is_canonical 0x800000000000"
      by (simp_all add: in_range_def canonical_iff)
    then show "\<exists>a. in_range va len a \<and> \<not> address_is_canonical a" by blast
  qed
qed

theorem virtual_range_spans_hole_witness:
  "validate_virtual_range 0 0xFFFFFFFFFFFFF000 PAGING_PAGE_SIZE = PAGING_STATUS_OK
   \<and> (\<exists>a. in_range 0 0xFFFFFFFFFFFFF000 a \<and> \<not> address_is_canonical a)"
proof -
  have v: "validate_virtual_range 0 0xFFFFFFFFFFFFF000 PAGING_PAGE_SIZE = PAGING_STATUS_OK" by code_simp
  show ?thesis using virtual_range_spans_hole [OF v] v by simp
qed

end
