(* ===== verification/Page_Supply.thy ===== *)
theory Page_Supply
  imports Page_Spaces
begin

text \<open>
  How many table frames the hierarchy needs: which paths of tables exist, which of them a walk adds,
  and that a mapping runs out of tables only when the frames are used up while a table it needs is
  still missing. With these a bound on the paths of a whole build bounds the frames it takes.
\<close>

abbreviation unmapped :: "paging_status \<times> paging_translation" where
  "unmapped \<equiv> (PAGING_STATUS_NOT_MAPPED, no_translation)"

definition table_supply :: "page_hierarchy \<Rightarrow> paging_world \<Rightarrow> u64 set" where
  "table_supply h w = table_taken (h, w) \<union> table_free (h, w)"

definition present :: "page_hierarchy \<Rightarrow> paging_world \<Rightarrow> nat list set" where
  "present h w = {p. table_path p \<and> tab (pw_tables w) (h_root h) p \<noteq> None}"

definition walk_paths :: "u64 \<Rightarrow> nat \<Rightarrow> nat list set" where
  "walk_paths va l = vpath va 4 ` {l..4}"

text \<open>
  A step that takes tables only for the paths \<open>P\<close>, from a fixed supply, and gives up only when the
  supply is used up and one of the paths still lacks its table.
\<close>

definition draws :: "nat list set \<Rightarrow> paging_status \<Rightarrow> page_hierarchy \<Rightarrow> paging_world \<Rightarrow> page_hierarchy \<Rightarrow> paging_world \<Rightarrow> bool" where
  "draws P st h w h' w' \<longleftrightarrow> table_supply h' w' = table_supply h w \<and> present h' w' \<subseteq> present h w \<union> P
     \<and> (st = PAGING_STATUS_OUT_OF_FRAMES \<longrightarrow> table_free (h', w') = {} \<and> \<not> P \<subseteq> present h' w')"

lemma supply_cong: "pw_frames w' = pw_frames w \<Longrightarrow> table_supply h w' = table_supply h w"
  unfolding table_supply_def using table_pool_cong by metis

lemma tab_link_step:
  assumes inv: "hier_inv h w" and at: "tab (pw_tables w) (h_root h) (vpath va 4 k) = Some t" "2 \<le> k" "k \<le> 4"
    and absent: "\<not> bit (pw_tables w t (table_index va k)) 0"
    and alloc: "allocate_table h w = (PAGING_STATUS_OK, a, h1, w1)"
  defines "w2 \<equiv> set_entry t (table_index va k) (the a OR PAGE_PRESENT OR PAGE_WRITABLE) w1"
  shows "present h1 w2 = insert (vpath va 4 (k - 1)) (present h w)" and "table_supply h1 w2 = table_supply h w"
proof -
  note i = hier_invD [OF inv]
  from allocate_table_OK [OF i(1) alloc] obtain n where
    n: "a = Some n" "n \<in> table_free (h, w)" "table_taken (h1, w1) = insert n (table_taken (h, w))"
      "table_free (h1, w1) = table_free (h, w) - {n}" "frame_address_ok n" "n \<notin> table_taken (h, w)"
      "pw_tables w1 = zero_table n (pw_tables w)" "same_hierarchy h h1" by blast
  let ?T = "pw_tables w" and ?T' = "pw_tables w2" and ?root = "h_root h" and ?i = "table_index va k"
  have root: "h_root h1 = ?root" using n(8) by (simp add: same_hierarchy_def)
  have path: "table_path (vpath va 4 k)" "length (vpath va 4 k) \<le> 2"
    using at(2) table_path_vpath by simp_all
  have fresh: "n \<notin> reach ?T ?root" using n(6) i(4) by blast
  have "t \<in> reach ?T ?root" by (rule reachI [OF path(1) at(1)])
  then have tn: "t \<noteq> n" using fresh by blast
  have T': "?T' = table_write (zero_table n ?T) t ?i (n OR PAGE_PRESENT OR PAGE_WRITABLE)"
    by (simp add: w2_def n(1,7))
  have other: "\<forall>u j. u \<noteq> n \<longrightarrow> (u, j) \<noteq> (t, ?i) \<longrightarrow> ?T' u j = ?T u j"
    unfolding T' by (auto simp: table_write_def zero_table_other)
  have empty: "empty_table ?T' n" using zero_table_empty [of n ?T] tn by (simp add: T' empty_table_def table_write_def)
  have link: "next_table (?T' t ?i) = Some n" unfolding T' using link_entry [OF n(5)] by simp
  have none: "next_table (?T t ?i) = None" using absent by (simp add: next_table_def)
  have down: "vpath va 4 (k - 1) = vpath va 4 k @ [?i]" "table_path (vpath va 4 (k - 1))"
    using vpath_snoc [of k 4 va] at(2,3) table_path_vpath [of "k - 1" va] by simp_all
  have "tab ?T' ?root p = (if p = vpath va 4 (k - 1) then Some n else tab ?T ?root p)" if "table_path p" for p
    unfolding down(1) by (rule tab_write_link [OF i(2) path(1) at(1) path(2) table_index_less none fresh empty link other that])
  then show "present h1 w2 = insert (vpath va 4 (k - 1)) (present h w)"
    unfolding present_def root using down(2) by auto
  have "table_supply h1 w2 = table_supply h1 w1" by (rule supply_cong) (simp add: w2_def)
  also have "\<dots> = table_supply h w" unfolding table_supply_def n(3,4) using n(2) by auto
  finally show "table_supply h1 w2 = table_supply h w" .
qed

lemma draws_refl: "st \<noteq> PAGING_STATUS_OUT_OF_FRAMES \<Longrightarrow> draws P st h w h w"
  by (simp add: draws_def)

lemma draws_mono: "draws P st h1 w1 h' w' \<Longrightarrow> P \<subseteq> Q \<Longrightarrow> present h1 w1 \<subseteq> present h w \<union> Q \<Longrightarrow> table_supply h1 w1 = table_supply h w
    \<Longrightarrow> draws Q st h w h' w'"
  unfolding draws_def by blast

lemma entry_walk_draws:
  assumes "1 \<le> l" "l \<le> k" "k \<le> 4" and "hier_inv h w" and "tab (pw_tables w) (h_root h) (vpath va 4 k) = Some t"
    and "entry_walk l create va k t h w = (st, slot, h', w')"
  shows "draws (walk_paths va l) st h w h' w'"
  using assms(2-)
proof (induction k arbitrary: t h w rule: dec_induct)
  case base
  then show ?case by (auto simp: entry_walk_step [of l _ _ l] draws_def)
next
  case (step k)
  have k: "k \<le> 4" "l < Suc k" "1 \<le> Suc k" "2 \<le> Suc k" using step.prems(1) step.hyps assms(1) by auto
  let ?e = "pw_tables w t (table_index va (Suc k))"
  note walk = step.prems(4) [unfolded entry_walk_step [of l _ _ "Suc k"] Let_def]
  have down: "vpath va 4 k \<in> walk_paths va l" using k step.hyps by (simp add: walk_paths_def)
  consider "\<not> bit ?e 0" "\<not> create" | "\<not> bit ?e 0" "create" | "bit ?e 0" "bit ?e 7" | "bit ?e 0" "\<not> bit ?e 7"
    by blast
  then show ?case
  proof cases
    case 1
    then show ?thesis using walk k(2) by (auto simp: draws_def)
  next
    case 3
    then show ?thesis using walk k(2) by (auto simp: draws_def)
  next
    case 4
    then have "entry_walk l create va k (?e AND PAGE_FRAME_MASK) h w = (st, slot, h', w')"
      using walk k(2) by simp
    moreover have "tab (pw_tables w) (h_root h) (vpath va 4 k) = Some (?e AND PAGE_FRAME_MASK)"
      using tab_vpath_down [OF step.prems(3) k(3) step.prems(1) 4] by simp
    ultimately show ?thesis using step.IH [OF k(1) step.prems(2)] by blast
  next
    case 2
    obtain s a h1 w1 where al: "allocate_table h w = (s, a, h1, w1)" by (cases "allocate_table h w")
    show ?thesis
    proof (cases "s = PAGING_STATUS_OK")
      case False
      note f = allocate_table_fail [OF hier_invD(1) [OF step.prems(2)] al False]
      have "tab (pw_tables w) (h_root h) (vpath va 4 k) = None"
        using vpath_snoc [of "Suc k" 4 va] step.prems(1,3) 2(1) by (simp add: tab_snoc next_table_def)
      then have "vpath va 4 k \<notin> present h w" by (simp add: present_def)
      then show ?thesis using walk 2 k(2) al False f down by (auto simp: draws_def)
    next
      case True
      let ?w2 = "set_entry t (table_index va (Suc k)) (the a OR PAGE_PRESENT OR PAGE_WRITABLE) w1"
      note ls = link_step [OF step.prems(2,3) k(4) step.prems(1) 2(1) al [unfolded True] assms(1) k(2)]
      note ts = tab_link_step [OF step.prems(2,3) k(4) step.prems(1) 2(1) al [unfolded True]]
      have "hier_inv h1 ?w2" using ls(1) by (simp add: keeps_out_def)
      moreover have "entry_walk l create va k (the a) h1 ?w2 = (st, slot, h', w')"
        using walk 2 k(2) al True by simp
      moreover have "tab (pw_tables ?w2) (h_root h1) (vpath va 4 k) = Some (the a)"
        using ls(2) by simp
      ultimately have "draws (walk_paths va l) st h1 ?w2 h' w'" using step.IH [OF k(1)] by blast
      then show ?thesis by (rule draws_mono) (use ts down in auto)
    qed
  qed
qed

lemma entry_for_draws:
  assumes "1 \<le> l" "l \<le> 4" and "hier_inv h w" and "entry_for h va l create w = (st, slot, h', w')"
  shows "draws (walk_paths va l) st h w h' w'"
  using entry_walk_draws [OF assms(1,2) order_refl assms(3) _ assms(4) [unfolded entry_for_def PAGING_LEVEL_COUNT_def]]
  by simp

text \<open>Mapping a single page.\<close>

lemma range_offsets_one: "1 \<le> l \<Longrightarrow> l \<le> 4 \<Longrightarrow> range_offsets (level_page_size l) (level_page_size l) = [0]"
  using range_offsets_pages [of l "level_page_size l"] level_page_size_nat [of l]
  by (simp add: page_count_def)

lemma map_page_draws:
  assumes inv: "hier_inv h w" and l: "1 \<le> l" "l \<le> 2"
    and v: "validate_permissions p = PAGING_STATUS_OK" "validate_virtual_range va (level_page_size l) (level_page_size l) = PAGING_STATUS_OK"
      "validate_physical_range pa (level_page_size l) (level_page_size l) = PAGING_STATUS_OK"
    and vac: "vacant (pw_tables w) (h_root h) va l"
    and m: "map_range h va pa (level_page_size l) p l w = (st, h', w')"
  shows "draws (walk_paths va l) st h w h' w'" and "st = PAGING_STATUS_OK \<or> st = PAGING_STATUS_OUT_OF_FRAMES"
proof -
  have l4: "l \<le> 4" using l by simp
  obtain st1 slot h1 w1 where e: "entry_for h va l True w = (st1, slot, h1, w1)" by (cases "entry_for h va l True w")
  have check: "map_check h va l w [0] = PAGING_STATUS_OK" unfolding map_check_OK [OF inv l(1) l4] using vac by simp
  have clear: "clear_range h1 va 0 l w1 = (h1, w1)"
  proof -
    have "range_offsets 0 (level_page_size l) = []" using range_offsets_pages [of l 0] l(1) l4 by (simp add: page_count_def)
    then show ?thesis by (simp add: clear_range_def)
  qed
  note d = entry_for_draws [OF l(1) l4 inv e]
  note s = entry_for_spec [OF l(1) l4 inv e]
  let ?w2 = "invalidate h1 va (set_entry (fst (the slot)) (snd (the slot)) (leaf_entry pa p l) w1)"
  have res: "(st, h', w') = (if st1 \<noteq> PAGING_STATUS_OK then (st1, h1, w1) else (PAGING_STATUS_OK, h1, ?w2))"
  proof -
    have "map_range h va pa (level_page_size l) p l w = map_pages va pa p l h w [0]"
      unfolding map_range_def Let_def v range_offsets_one [OF l(1) l4] check by simp
    then show ?thesis using m by (simp add: e clear)
  qed
  have "st1 = PAGING_STATUS_OK \<or> st1 = PAGING_STATUS_OUT_OF_FRAMES"
    using s vac unfolding walk_spec_def by (auto split: paging_status.split_asm)
  then show "st = PAGING_STATUS_OK \<or> st = PAGING_STATUS_OUT_OF_FRAMES" using res by (auto split: if_split_asm)
  show "draws (walk_paths va l) st h w h' w'"
  proof (cases "st1 = PAGING_STATUS_OK")
    case False
    then show ?thesis using res d by simp
  next
    case True
    from s [unfolded True] obtain t where t: "slot = Some (t, table_index va l)"
      "tab (pw_tables w1) (h_root h1) (vpath va 4 l) = Some t" and k: "keeps l h w h1 w1"
      unfolding walk_spec_def by auto
    have inv1: "hier_inv h1 w1" "vacant (pw_tables w1) (h_root h1) va l"
      using k vac by (simp_all add: keeps_out_def same_hierarchy_def)
    have "unat (level_page_size l) \<le> 2 ^ 63" unfolding level_page_size_nat [OF l(1) l4] using l(2) by (intro power_increasing) simp_all
    then have r: "range_ok va (level_page_size l) l" using v(2) l(1) l4 by (simp add: range_ok_def)
    have "0 < page_count (level_page_size l) l" using l(1) l4 by (simp add: page_count_def level_page_size_nat)
    from physical_pages_ok [OF r l(2) v(1,3) this] have "leaf_ok pa p l" by simp
    then have "bit (leaf_entry pa p l) 0 \<and> (l = 1 \<or> bit (leaf_entry pa p l) 7)" using bit_leaf_entry by simp
    then have "length (vpath va 4 l) = 3 \<or> next_table (pw_tables w1 t (table_index va l)) = None \<and> next_table (leaf_entry pa p l) = None"
      using inv1(2) vacant_at [OF t(2) l4] by (auto simp: next_table_def)
    from tab_write_leaf [OF hier_invD(2) [OF inv1(1)] table_path_vpath [OF l(1)] t(2) this]
    have "present h1 ?w2 = present h1 w1" by (auto simp: present_def t(1))
    moreover have "table_supply h1 ?w2 = table_supply h1 w1" by (rule supply_cong) simp
    ultimately show ?thesis using res True d by (simp add: draws_def)
  qed
qed

text \<open>The number of tables a hierarchy can hold: those it has and the frames still free.\<close>

definition room :: "page_hierarchy \<Rightarrow> paging_world \<Rightarrow> nat" where
  "room h w = card (table_supply h w - others h w)"

lemma reach_present: "reach (pw_tables w) (h_root h) = (\<lambda>p. the (tab (pw_tables w) (h_root h) p)) ` present h w"
  by (force simp: reach_def present_def)

lemma draws_enough:
  assumes "hier_inv h' w'" and "draws P st h w h' w'" and "others h' w' = others h w"
    and "present h w \<subseteq> P" and "finite P" and "card P \<le> room h w"
  shows "st \<noteq> PAGING_STATUS_OUT_OF_FRAMES"
proof
  assume "st = PAGING_STATUS_OUT_OF_FRAMES"
  then have d: "table_supply h' w' = table_supply h w" "table_free (h', w') = {}" "present h' w' \<subset> P"
    using assms(2,4) unfolding draws_def by auto
  have "table_supply h' w' - others h' w' = reach (pw_tables w') (h_root h')"
    using d(2) hier_invD(4) [OF assms(1)] unfolding table_supply_def others_def by auto
  then have "room h w = card (reach (pw_tables w') (h_root h'))" using d(1) assms(3) by (simp add: room_def)
  also have "\<dots> \<le> card (present h' w')"
    unfolding reach_present using finite_subset [OF psubset_imp_subset [OF d(3)] assms(5)] by (rule card_image_le)
  also have "\<dots> < card P" using d(3) assms(5) by (rule psubset_card_mono [rotated])
  finally show False using assms(6) by simp
qed

text \<open>An address that does not translate is vacant at the bottom level, and above a missing page table.\<close>

lemma unmapped_vacant_walk:
  assumes "translate_walk T pat va k t x y z = unmapped" and "tab T root (vpath va 4 k) = Some t" and "1 \<le> k" "k \<le> 4"
  shows "vacant T root va 1"
  using assms
proof (induction k arbitrary: t x y z)
  case (Suc k)
  let ?e = "T t (table_index va (Suc k))"
  show ?case
  proof (cases "bit ?e 0")
    case False
    then show ?thesis unfolding vacant_def using Suc.prems by (intro exI [of _ "Suc k"] exI [of _ t]) simp
  next
    case True
    then have "1 < Suc k \<and> \<not> bit ?e 7"
      using Suc.prems(1) by (auto simp: translate_step [of _ _ _ "Suc k"] Let_def split: if_split_asm)
    moreover from this True obtain x' y' z' where "translate_walk T pat va k (?e AND PAGE_FRAME_MASK) x' y' z' = unmapped"
      using Suc.prems(1) by (auto simp: translate_step [of _ _ _ "Suc k"] Let_def)
    moreover have "tab T root (vpath va 4 k) = Some (?e AND PAGE_FRAME_MASK)"
      using tab_vpath_down [OF Suc.prems(2,3,4) True] calculation(1) by simp
    ultimately show ?thesis using Suc.IH Suc.prems(4) by simp
  qed
qed simp

lemma unmapped_vacant:
  assumes "address_is_canonical va" and "translate_address h va pat w = unmapped"
  shows "vacant (pw_tables w) (h_root h) va 1"
    and "vpath va 4 1 \<notin> present h w \<Longrightarrow> vacant (pw_tables w) (h_root h) va 2"
proof -
  show v: "vacant (pw_tables w) (h_root h) va 1"
    using unmapped_vacant_walk [of "pw_tables w" pat va 4 "h_root h"] assms by (simp add: translate_address_canonical)
  assume n: "vpath va 4 1 \<notin> present h w"
  from v obtain j t where j: "1 \<le> j" "j \<le> 4" "tab (pw_tables w) (h_root h) (vpath va 4 j) = Some t"
    "\<not> bit (pw_tables w t (table_index va j)) 0" unfolding vacant_def by blast
  have "j \<noteq> 1" using n j(3) table_path_vpath [of 1 va] by (auto simp: present_def)
  then show "vacant (pw_tables w) (h_root h) va 2" unfolding vacant_def using j
    by (intro exI [of _ j] exI [of _ t]) simp
qed

lemma frame_addresses_card: "F \<subseteq> {f. f < FRAME_COUNT} \<Longrightarrow> card (frame_addresses F) = card F"
  unfolding frame_addresses_def by (rule card_image [OF inj_on_subset [OF frame_address_inj]])

lemma empty_root_room:
  assumes "hier_inv h w" and "empty_table (pw_tables w) (h_root h)" and "h_arena_capacity h = 0"
  shows "present h w = {[]}" and "room h w = 1 + card (free_set (pw_frames w))"
proof -
  note i = hier_invD [OF assms(1)]
  have r: "reach (pw_tables w) (h_root h) = {h_root h}" by (rule empty_root [OF assms(2)])
  have only: "p = []" if p: "table_path p" "tab (pw_tables w) (h_root h) p \<noteq> None" for p
  proof (cases p)
    case (Cons j q)
    then have "j < 512" using p(1) by (simp add: table_path_def)
    then show ?thesis using p(2) Cons empty_next [OF assms(2)] by simp
  qed
  then show "present h w = {[]}" by (auto simp: present_def)
  have d: "table_free (h, w) \<inter> table_taken (h, w) = {}" using tables.disjoint i(1) by blast
  have "table_supply h w - others h w = insert (h_root h) (table_free (h, w))"
    using d r i(4) by (auto simp: table_supply_def others_def)
  moreover have f: "table_free (h, w) = frame_addresses (free_set (pw_frames w))" using assms(3) by (simp add: table_free_def)
  moreover have "h_root h \<notin> table_free (h, w)" using d r i(4) by auto
  moreover have "card (table_free (h, w)) = card (free_set (pw_frames w))"
    unfolding f by (rule frame_addresses_card [OF frame_set_bounds(1)])
  moreover have "finite (table_free (h, w))"
    unfolding f frame_addresses_def by (intro finite_imageI finite_subset [OF frame_set_bounds(1)]) simp
  ultimately show "room h w = 1 + card (free_set (pw_frames w))" by (simp add: room_def)
qed

end
