(* ===== verification/Device_Windows.thy ===== *)
theory Device_Windows
  imports Page_Tables "HOL-Library.Product_Lexorder" "HOL-Library.Multiset"
begin

text \<open>The registry of device windows (\<open>paging_device_windows_*\<close> in \<open>paging.c\<close>): the physical ranges of
  memory-mapped devices that the kernel's page tables must map with a device memory type. Entries are
  validated one by one when they are added and again, with the pairwise checks, before the registry
  is installed in sorted order. The lemmas show that the insertion sort is the reference sort of the
  comparison, that the pairwise checks make the installed windows disjoint, and that the outcome does
  not depend on the order of registration.\<close>

subsection \<open>Constants and types\<close>

definition ACPI_MAX_IO_APICS :: nat where "ACPI_MAX_IO_APICS = 8"
definition PAGING_VGA_TEXT_BUFFER_BASE :: u64 where "PAGING_VGA_TEXT_BUFFER_BASE = 0xB8000"
definition PAGING_ECAM_WINDOW_SIZE :: u64 where "PAGING_ECAM_WINDOW_SIZE = PAGING_HUGE_PAGE_SIZE"
definition PAGING_MAX_FRAMEBUFFER_REGIONS :: u64 where "PAGING_MAX_FRAMEBUFFER_REGIONS = 8"
definition PAGING_DEVICE_WINDOW_CAPACITY :: nat where "PAGING_DEVICE_WINDOW_CAPACITY = 4 + ACPI_MAX_IO_APICS"
definition PAGING_DEVICE_WINDOW_MAX_LENGTH :: u64 where
  "PAGING_DEVICE_WINDOW_MAX_LENGTH = PAGING_MAX_FRAMEBUFFER_REGIONS * PAGING_HUGE_PAGE_SIZE"

definition PAGING_DEVICE_WINDOW_VGA_TEXT :: nat where "PAGING_DEVICE_WINDOW_VGA_TEXT = 0"
definition PAGING_DEVICE_WINDOW_LOCAL_APIC :: nat where "PAGING_DEVICE_WINDOW_LOCAL_APIC = 1"
definition PAGING_DEVICE_WINDOW_IO_APIC :: nat where "PAGING_DEVICE_WINDOW_IO_APIC = 2"
definition PAGING_DEVICE_WINDOW_PCI_ECAM :: nat where "PAGING_DEVICE_WINDOW_PCI_ECAM = 3"
definition PAGING_DEVICE_WINDOW_FRAMEBUFFER :: nat where "PAGING_DEVICE_WINDOW_FRAMEBUFFER = 4"
definition PAGING_DEVICE_WINDOW_KIND_COUNT :: nat where "PAGING_DEVICE_WINDOW_KIND_COUNT = 5"

definition PAGING_DEVICE_WINDOW_READ :: u32 where "PAGING_DEVICE_WINDOW_READ = 0"
definition PAGING_DEVICE_WINDOW_WRITE :: u32 where "PAGING_DEVICE_WINDOW_WRITE = 1"

lemmas device_window_constants =
  ACPI_MAX_IO_APICS_def PAGING_VGA_TEXT_BUFFER_BASE_def PAGING_ECAM_WINDOW_SIZE_def PAGING_HUGE_PAGE_SIZE_def
  PAGING_MAX_FRAMEBUFFER_REGIONS_def PAGING_DEVICE_WINDOW_CAPACITY_def PAGING_DEVICE_WINDOW_MAX_LENGTH_def
  PAGING_DEVICE_WINDOW_VGA_TEXT_def PAGING_DEVICE_WINDOW_LOCAL_APIC_def PAGING_DEVICE_WINDOW_IO_APIC_def
  PAGING_DEVICE_WINDOW_PCI_ECAM_def PAGING_DEVICE_WINDOW_FRAMEBUFFER_def PAGING_DEVICE_WINDOW_KIND_COUNT_def
  PAGING_DEVICE_WINDOW_READ_def PAGING_DEVICE_WINDOW_WRITE_def

text \<open>The enumeration \<open>paging_memory_type\<close> is compared by its value, the position of the constructor.\<close>

definition memory_type_value :: "paging_memory_type \<Rightarrow> nat" where
  "memory_type_value t = (case t of
     PAGING_MEMORY_WRITE_BACK \<Rightarrow> 0 | PAGING_MEMORY_WRITE_COMBINING \<Rightarrow> 1 | PAGING_MEMORY_UNCACHEABLE \<Rightarrow> 2
   | PAGING_MEMORY_WRITE_THROUGH \<Rightarrow> 3 | PAGING_MEMORY_WRITE_PROTECTED \<Rightarrow> 4 | PAGING_MEMORY_UNCACHED_MINUS \<Rightarrow> 5
   | PAGING_MEMORY_INVALID \<Rightarrow> 6)"

lemma memory_type_value_eq [simp]: "memory_type_value s = memory_type_value t \<longleftrightarrow> s = t"
  by (cases s; cases t; simp add: memory_type_value_def)

instantiation paging_memory_type :: linorder
begin

definition less_eq_paging_memory_type :: "paging_memory_type \<Rightarrow> paging_memory_type \<Rightarrow> bool" where
  "less_eq_paging_memory_type s t \<longleftrightarrow> memory_type_value s \<le> memory_type_value t"

definition less_paging_memory_type :: "paging_memory_type \<Rightarrow> paging_memory_type \<Rightarrow> bool" where
  "less_paging_memory_type s t \<longleftrightarrow> memory_type_value s < memory_type_value t"

instance
proof
  fix s t :: paging_memory_type
  assume "s \<le> t" "t \<le> s"
  then have "memory_type_value s = memory_type_value t" by (simp add: less_eq_paging_memory_type_def)
  then show "s = t" by simp
qed (auto simp: less_eq_paging_memory_type_def less_paging_memory_type_def)

end

record paging_device_window =
  dw_kind :: nat
  dw_instance :: u32
  dw_physical_base :: u64
  dw_length :: u64
  dw_memory_type :: paging_memory_type
  dw_permissions :: u32

text \<open>The structure with its count is the list of its entries.\<close>

type_synonym paging_device_windows = "paging_device_window list"

subsection \<open>Operations\<close>

definition paging_device_windows_reset :: "paging_device_windows option \<Rightarrow> paging_device_windows option" where
  "paging_device_windows_reset windows = (case windows of None \<Rightarrow> None | Some _ \<Rightarrow> Some [])"

definition device_memory_type_supported :: "paging_memory_type \<Rightarrow> bool" where
  "device_memory_type_supported memory_type \<longleftrightarrow> memory_type = PAGING_MEMORY_WRITE_BACK
     \<or> memory_type = PAGING_MEMORY_WRITE_COMBINING \<or> memory_type = PAGING_MEMORY_UNCACHEABLE"

definition validate_device_window_entry :: "paging_device_window \<Rightarrow> paging_status" where
  "validate_device_window_entry window =
     (if dw_kind window < PAGING_DEVICE_WINDOW_VGA_TEXT \<or> dw_kind window \<ge> PAGING_DEVICE_WINDOW_KIND_COUNT
      then PAGING_STATUS_BAD_DEVICE_WINDOW_KIND
      else if dw_kind window \<noteq> PAGING_DEVICE_WINDOW_IO_APIC \<and> dw_instance window \<noteq> 0
            \<or> dw_kind window = PAGING_DEVICE_WINDOW_IO_APIC \<and> dw_instance window \<ge> of_nat ACPI_MAX_IO_APICS
      then PAGING_STATUS_BAD_DEVICE_WINDOW_INSTANCE
      else if \<not> device_memory_type_supported (dw_memory_type window)
      then PAGING_STATUS_UNSUPPORTED_DEVICE_WINDOW_MEMORY_TYPE
      else if dw_permissions window AND NOT PAGING_DEVICE_WINDOW_WRITE \<noteq> 0
      then PAGING_STATUS_BAD_DEVICE_WINDOW_PERMISSIONS
      else if dw_length window = 0 then PAGING_STATUS_ZERO_LENGTH_DEVICE_WINDOW
      else if dw_length window > 0xFFFFFFFFFFFFFFFF - dw_physical_base window
      then PAGING_STATUS_DEVICE_WINDOW_RANGE_OVERFLOW
      else if dw_physical_base window AND (PAGING_PAGE_SIZE - 1) \<noteq> 0
            \<or> dw_length window AND (PAGING_PAGE_SIZE - 1) \<noteq> 0
      then PAGING_STATUS_UNALIGNED_DEVICE_WINDOW
      else if dw_kind window = PAGING_DEVICE_WINDOW_PCI_ECAM
            \<and> dw_physical_base window AND (PAGING_HUGE_PAGE_SIZE - 1) \<noteq> 0
      then PAGING_STATUS_UNALIGNED_DEVICE_WINDOW
      else if dw_kind window = PAGING_DEVICE_WINDOW_VGA_TEXT \<and> dw_physical_base window \<noteq> PAGING_VGA_TEXT_BUFFER_BASE
            \<or> (dw_kind window = PAGING_DEVICE_WINDOW_VGA_TEXT \<or> dw_kind window = PAGING_DEVICE_WINDOW_LOCAL_APIC
               \<or> dw_kind window = PAGING_DEVICE_WINDOW_IO_APIC) \<and> dw_length window \<noteq> PAGING_PAGE_SIZE
            \<or> dw_kind window = PAGING_DEVICE_WINDOW_PCI_ECAM \<and> dw_length window \<noteq> PAGING_ECAM_WINDOW_SIZE
      then PAGING_STATUS_DEVICE_WINDOW_UNSUPPORTED_RANGE
      else if dw_physical_base window = 0 \<or> dw_length window > PAGING_DEVICE_WINDOW_MAX_LENGTH
            \<or> dw_physical_base window + dw_length window > SAPOTE_EARLY_PHYSICAL_LIMIT
      then PAGING_STATUS_DEVICE_WINDOW_UNSUPPORTED_RANGE
      else PAGING_STATUS_OK)"

definition paging_device_windows_add ::
  "paging_device_windows option \<Rightarrow> nat \<Rightarrow> u32 \<Rightarrow> u64 \<Rightarrow> u64 \<Rightarrow> paging_memory_type \<Rightarrow> u32
     \<Rightarrow> paging_status \<times> paging_device_windows option" where
  "paging_device_windows_add windows kind inst physical_base len memory_type permissions =
     (case windows of
        None \<Rightarrow> (PAGING_STATUS_NULL_ARGUMENT, None)
      | Some entries \<Rightarrow>
          if length entries \<ge> PAGING_DEVICE_WINDOW_CAPACITY
          then (PAGING_STATUS_TOO_MANY_DEVICE_WINDOWS, windows)
          else
            let window = \<lparr>dw_kind = kind, dw_instance = inst, dw_physical_base = physical_base,
                  dw_length = len, dw_memory_type = memory_type, dw_permissions = permissions\<rparr>;
                status = validate_device_window_entry window
            in if status \<noteq> PAGING_STATUS_OK then (status, windows)
               else (PAGING_STATUS_OK, Some (entries @ [window])))"

definition compare_device_windows :: "paging_device_window \<Rightarrow> paging_device_window \<Rightarrow> int" where
  "compare_device_windows left right =
     (if dw_physical_base left \<noteq> dw_physical_base right
      then if dw_physical_base left < dw_physical_base right then - 1 else 1
      else if dw_length left \<noteq> dw_length right then if dw_length left < dw_length right then - 1 else 1
      else if dw_kind left \<noteq> dw_kind right then if dw_kind left < dw_kind right then - 1 else 1
      else if dw_instance left \<noteq> dw_instance right then if dw_instance left < dw_instance right then - 1 else 1
      else if dw_memory_type left \<noteq> dw_memory_type right
      then if dw_memory_type left < dw_memory_type right then - 1 else 1
      else if dw_permissions left \<noteq> dw_permissions right
      then if dw_permissions left < dw_permissions right then - 1 else 1
      else 0)"

definition ranges_overlap :: "paging_device_window \<Rightarrow> paging_device_window \<Rightarrow> bool" where
  "ranges_overlap left right =
     (let left_end = dw_physical_base left + dw_length left;
          right_end = dw_physical_base right + dw_length right
      in dw_physical_base left < right_end \<and> dw_physical_base right < left_end)"

text \<open>The first loop of the validation: the status of the first bad entry, or OK.\<close>

primrec validate_entries :: "paging_device_windows \<Rightarrow> paging_status" where
  "validate_entries [] = PAGING_STATUS_OK"
| "validate_entries (window # windows) =
     (let status = validate_device_window_entry window
      in if status \<noteq> PAGING_STATUS_OK then status else validate_entries windows)"

record window_faults =
  conflicting_overlap :: bool
  duplicate :: bool
  overlap :: bool

definition pair_fault :: "paging_device_window \<Rightarrow> paging_device_window \<Rightarrow> window_faults \<Rightarrow> window_faults" where
  "pair_fault first second faults =
     (let pair_overlaps = ranges_overlap first second;
          faults = (if pair_overlaps \<and> dw_memory_type first \<noteq> dw_memory_type second
                    then faults\<lparr>conflicting_overlap := True\<rparr> else faults)
      in if compare_device_windows first second = 0
           \<or> dw_kind first = dw_kind second \<and> dw_instance first = dw_instance second
         then faults\<lparr>duplicate := True\<rparr>
         else if pair_overlaps then faults\<lparr>overlap := True\<rparr> else faults)"

text \<open>The pairs \<open>left < right\<close>, in the order of the two nested loops.\<close>

primrec pair_faults :: "paging_device_windows \<Rightarrow> window_faults \<Rightarrow> window_faults" where
  "pair_faults [] faults = faults"
| "pair_faults (first # rest) faults = pair_faults rest (fold (pair_fault first) rest faults)"

text \<open>The insertion sort: \<open>sift\<close> is its inner loop, which moves entries up to make room.\<close>

fun sift :: "paging_device_window \<Rightarrow> paging_device_windows \<Rightarrow> nat \<Rightarrow> paging_device_windows" where
  "sift current entries destination =
     (if destination > 0 \<and> compare_device_windows current (entries ! (destination - 1)) < 0
      then sift current (entries[destination := entries ! (destination - 1)]) (destination - 1)
      else entries[destination := current])"

declare sift.simps [simp del]

definition sort_windows :: "paging_device_windows \<Rightarrow> paging_device_windows" where
  "sort_windows entries =
     fold (\<lambda>index entries. sift (entries ! index) entries index) [1..<length entries] entries"

definition paging_device_windows_validate ::
  "paging_device_windows option \<Rightarrow> paging_device_windows option \<Rightarrow> paging_status \<times> paging_device_windows option" where
  "paging_device_windows_validate windows validated =
     (case (windows, validated) of
        (Some windows, Some _) \<Rightarrow>
          if length windows > PAGING_DEVICE_WINDOW_CAPACITY
          then (PAGING_STATUS_TOO_MANY_DEVICE_WINDOWS, validated)
          else
            let status = validate_entries windows;
                found = (\<lambda>kind. list_ex (\<lambda>window. dw_kind window = kind) windows);
                faults = pair_faults windows
                  \<lparr>conflicting_overlap = False, duplicate = False, overlap = False\<rparr>
            in if status \<noteq> PAGING_STATUS_OK then (status, validated)
               else if conflicting_overlap faults
               then (PAGING_STATUS_CONFLICTING_DEVICE_WINDOW_OVERLAP, validated)
               else if duplicate faults then (PAGING_STATUS_DUPLICATE_DEVICE_WINDOW, validated)
               else if overlap faults then (PAGING_STATUS_OVERLAPPING_DEVICE_WINDOWS, validated)
               else if \<not> found PAGING_DEVICE_WINDOW_VGA_TEXT \<or> \<not> found PAGING_DEVICE_WINDOW_LOCAL_APIC
                     \<or> \<not> found PAGING_DEVICE_WINDOW_IO_APIC
               then (PAGING_STATUS_REQUIRED_DEVICE_WINDOW_MISSING, validated)
               else (PAGING_STATUS_OK, Some (sort_windows windows))
      | _ \<Rightarrow> (PAGING_STATUS_NULL_ARGUMENT, validated))"

subsection \<open>The order\<close>

definition window_key :: "paging_device_window \<Rightarrow> u64 \<times> u64 \<times> nat \<times> u32 \<times> paging_memory_type \<times> u32" where
  "window_key w = (dw_physical_base w, dw_length w, dw_kind w, dw_instance w, dw_memory_type w, dw_permissions w)"

lemma window_key_inject [simp]: "window_key v = window_key w \<longleftrightarrow> v = w"
  by (cases v; cases w) (auto simp: window_key_def)

lemma three_way:
  fixes a b :: "'a::linorder" and r :: int
  shows "(if a \<noteq> b then if a < b then - 1 else 1 else r) < 0 \<longleftrightarrow> a < b \<or> a = b \<and> r < 0"
    and "(if a \<noteq> b then if a < b then - 1 else 1 else r) = 0 \<longleftrightarrow> a = b \<and> r = 0"
  by auto

lemma less_pair_iff: "(a :: 'a::linorder, x :: 'b::linorder) < (b, y) \<longleftrightarrow> a < b \<or> a = b \<and> x < y"
  by (auto simp: less_le)

lemma compare_less: "compare_device_windows v w < 0 \<longleftrightarrow> window_key v < window_key w"
  unfolding compare_device_windows_def window_key_def three_way less_pair_iff by simp

lemma compare_equal: "compare_device_windows v w = 0 \<longleftrightarrow> v = w"
  unfolding compare_device_windows_def three_way window_key_inject [symmetric] window_key_def by simp

lemma sorted_windows_unique:
  assumes "mset xs = mset ys" and "sorted (map window_key xs)" and "sorted (map window_key ys)"
  shows "xs = ys"
proof -
  have "mset (map window_key xs) = mset (map window_key ys)" using assms(1) by simp
  from properties_for_sort [OF this assms(2)] properties_for_sort [OF refl assms(3)]
  have "map window_key xs = map window_key ys" by simp
  moreover have "inj window_key" by (rule injI) simp
  ultimately show ?thesis by (simp add: inj_map_eq_map)
qed

lemma insort_append_ge:
  "\<forall>y \<in> set ys. f x < f y \<Longrightarrow> insort_key f x (xs @ ys) = insort_key f x xs @ ys"
proof (induction xs)
  case Nil
  then show ?case by (cases ys) (auto simp: less_imp_le)
qed simp

lemma sift_insort:
  assumes "sorted (map window_key P)" and "length P = d"
  shows "sift x (P @ y # S) d = insort_key window_key x P @ S"
  using assms
proof (induction d arbitrary: P y S)
  case 0
  then show ?case by (simp add: sift.simps [of _ _ 0])
next
  case (Suc d)
  then obtain Q z where P: "P = Q @ [z]" "length Q = d" by (metis append_butlast_last_id length_0_conv length_append_singleton nat.distinct(1) nat.inject)
  have sorted: "sorted (map window_key Q)" "\<forall>q \<in> set Q. window_key q \<le> window_key z"
    using Suc.prems(1) by (auto simp: P(1) sorted_append)
  show ?case
  proof (cases "window_key x < window_key z")
    case True
    then have "sift x (P @ y # S) (Suc d) = sift x (Q @ z # (z # S)) d"
      using P by (simp add: sift.simps [of _ _ "Suc d"] compare_less nth_append list_update_append)
    also have "\<dots> = insort_key window_key x Q @ z # S" using Suc.IH [OF sorted(1) P(2)] by simp
    also have "\<dots> = insort_key window_key x P @ S"
      using insort_append_ge [of "[z]" window_key x Q] True by (simp add: P(1))
    finally show ?thesis .
  next
    case False
    then have "sift x (P @ y # S) (Suc d) = (P @ [x]) @ S"
      using P by (simp add: sift.simps [of _ _ "Suc d"] compare_less nth_append list_update_append)
    also have "P @ [x] = insort_key window_key x P"
    proof (rule sorted_windows_unique)
      have "\<forall>p \<in> set P. window_key p \<le> window_key x"
        using False sorted(2) by (auto simp: P(1) not_less intro: order_trans)
      then show "sorted (map window_key (P @ [x]))" using Suc.prems(1) by (auto simp: sorted_append)
      show "sorted (map window_key (insort_key window_key x P))" using Suc.prems(1) by (simp add: sorted_insort_key)
    qed simp
    finally show ?thesis .
  qed
qed

lemma sort_windows_sort: "sort_windows entries = sort_key window_key entries"
proof -
  let ?step = "\<lambda>index entries. sift (entries ! index) entries index"
  have loop: "fold ?step [1..<Suc n] entries = sort_key window_key (take (Suc n) entries) @ drop (Suc n) entries"
    if "n < length entries" for n
    using that
  proof (induction n)
    case 0
    then show ?case by (cases entries) simp_all
  next
    case (Suc n)
    let ?P = "sort_key window_key (take (Suc n) entries)" and ?x = "entries ! Suc n"
    have drop: "drop (Suc n) entries = ?x # drop (Suc (Suc n)) entries"
      using Suc.prems by (simp add: Cons_nth_drop_Suc)
    have len: "length ?P = Suc n" using Suc.prems by simp
    have "fold ?step [1..<Suc (Suc n)] entries = ?step (Suc n) (fold ?step [1..<Suc n] entries)" by simp
    also have "\<dots> = sift ?x (?P @ ?x # drop (Suc (Suc n)) entries) (Suc n)"
      using Suc.IH Suc.prems len by (simp add: drop nth_append del: upt_Suc)
    also have "\<dots> = insort_key window_key ?x ?P @ drop (Suc (Suc n)) entries"
      by (rule sift_insort) (simp_all add: len del: length_sort)
    also have "insort_key window_key ?x ?P = sort_key window_key (take (Suc (Suc n)) entries)"
      by (rule sorted_windows_unique)
        (simp_all add: sorted_insort_key take_Suc_conv_app_nth [OF Suc.prems])
    finally show ?case .
  qed
  show ?thesis
  proof (cases entries)
    case Nil
    then show ?thesis by (simp add: sort_windows_def)
  next
    case (Cons w ws)
    then show ?thesis using loop [of "length ws"] by (simp add: sort_windows_def)
  qed
qed

subsection \<open>Faults of pairs\<close>

text \<open>Whether some two entries of a list are related; for a symmetric relation their order does not matter.\<close>

primrec some_pair :: "('a \<Rightarrow> 'a \<Rightarrow> bool) \<Rightarrow> 'a list \<Rightarrow> bool" where
  "some_pair P [] \<longleftrightarrow> False"
| "some_pair P (x # xs) \<longleftrightarrow> (\<exists>y \<in> set xs. P x y) \<or> some_pair P xs"

lemma some_pair_mset:
  assumes "\<And>x y. P x y \<longleftrightarrow> P y x"
  shows "some_pair P xs \<longleftrightarrow> (\<exists>x y. {#x, y#} \<subseteq># mset xs \<and> P x y)"
proof (induction xs)
  case (Cons z xs)
  have "(\<exists>x y. {#x, y#} \<subseteq># mset (z # xs) \<and> P x y)
     \<longleftrightarrow> (\<exists>y \<in># mset xs. P z y) \<or> (\<exists>x y. {#x, y#} \<subseteq># mset xs \<and> P x y)"
  proof
    assume "\<exists>x y. {#x, y#} \<subseteq># mset (z # xs) \<and> P x y"
    then obtain x y where xy: "{#x, y#} \<subseteq># add_mset z (mset xs)" "P x y" by auto
    consider "x = z" | "y = z" | "x \<noteq> z" "y \<noteq> z" by blast
    then show "(\<exists>y \<in># mset xs. P z y) \<or> (\<exists>x y. {#x, y#} \<subseteq># mset xs \<and> P x y)"
    proof cases
      case 1
      then have "y \<in># mset xs" using xy(1) by (simp add: add_mset_commute)
      then show ?thesis using 1 xy(2) by blast
    next
      case 2
      then have "x \<in># mset xs" using xy(1) by (simp add: add_mset_commute [of x])
      then show ?thesis using 2 xy(2) assms by blast
    next
      case 3
      then have "{#x, y#} \<subseteq># mset xs"
        using xy(1) by (auto simp: subseteq_mset_def split: if_split_asm)
      then show ?thesis using xy(2) by blast
    qed
  next
    assume "(\<exists>y \<in># mset xs. P z y) \<or> (\<exists>x y. {#x, y#} \<subseteq># mset xs \<and> P x y)"
    then show "\<exists>x y. {#x, y#} \<subseteq># mset (z # xs) \<and> P x y"
    proof
      assume "\<exists>y \<in># mset xs. P z y"
      then obtain y where "y \<in># mset xs" "P z y" by blast
      then show ?thesis by (intro exI [of _ z] exI [of _ y]) simp
    next
      assume "\<exists>x y. {#x, y#} \<subseteq># mset xs \<and> P x y"
      then obtain x y where "{#x, y#} \<subseteq># mset xs" "P x y" by blast
      moreover have "mset xs \<subseteq># mset (z # xs)" by simp
      ultimately show ?thesis by (meson subset_mset.order_trans)
    qed
  qed
  then show ?case using Cons.IH by simp
qed simp

definition same_device :: "paging_device_window \<Rightarrow> paging_device_window \<Rightarrow> bool" where
  "same_device v w \<longleftrightarrow> dw_kind v = dw_kind w \<and> dw_instance v = dw_instance w"

lemma ranges_overlap_sym: "ranges_overlap v w \<longleftrightarrow> ranges_overlap w v"
  by (auto simp: ranges_overlap_def Let_def)

lemma same_device_sym: "same_device v w \<longleftrightarrow> same_device w v"
  by (auto simp: same_device_def)

lemma pair_fault_fields:
  "conflicting_overlap (pair_fault v w f) \<longleftrightarrow> conflicting_overlap f
     \<or> ranges_overlap v w \<and> dw_memory_type v \<noteq> dw_memory_type w"
  "duplicate (pair_fault v w f) \<longleftrightarrow> duplicate f \<or> same_device v w"
  "overlap (pair_fault v w f) \<longleftrightarrow> overlap f \<or> \<not> same_device v w \<and> ranges_overlap v w"
  by (auto simp: pair_fault_def Let_def compare_equal same_device_def)

lemma fold_pair_fault:
  "conflicting_overlap (fold (pair_fault v) ws f) \<longleftrightarrow> conflicting_overlap f
     \<or> (\<exists>w \<in> set ws. ranges_overlap v w \<and> dw_memory_type v \<noteq> dw_memory_type w)"
  "duplicate (fold (pair_fault v) ws f) \<longleftrightarrow> duplicate f \<or> (\<exists>w \<in> set ws. same_device v w)"
  "overlap (fold (pair_fault v) ws f) \<longleftrightarrow> overlap f \<or> (\<exists>w \<in> set ws. \<not> same_device v w \<and> ranges_overlap v w)"
  by (induction ws arbitrary: f) (auto simp: pair_fault_fields)

lemma pair_faults_fields:
  "conflicting_overlap (pair_faults ws f) \<longleftrightarrow> conflicting_overlap f
     \<or> some_pair (\<lambda>v w. ranges_overlap v w \<and> dw_memory_type v \<noteq> dw_memory_type w) ws"
  "duplicate (pair_faults ws f) \<longleftrightarrow> duplicate f \<or> some_pair same_device ws"
  "overlap (pair_faults ws f) \<longleftrightarrow> overlap f \<or> some_pair (\<lambda>v w. \<not> same_device v w \<and> ranges_overlap v w) ws"
  by (induction ws arbitrary: f) (auto simp: fold_pair_fault)

lemma pair_faults_mset:
  assumes "mset vs = mset ws"
  shows "conflicting_overlap (pair_faults vs f) = conflicting_overlap (pair_faults ws f)"
    and "duplicate (pair_faults vs f) = duplicate (pair_faults ws f)"
    and "overlap (pair_faults vs f) = overlap (pair_faults ws f)"
proof -
  have "some_pair P vs = some_pair P ws" if "\<And>x y. P x y \<longleftrightarrow> P y x" for P
    unfolding some_pair_mset [OF that] assms ..
  note same = this
  show "conflicting_overlap (pair_faults vs f) = conflicting_overlap (pair_faults ws f)"
    unfolding pair_faults_fields by (subst same) (auto simp: ranges_overlap_sym)
  show "duplicate (pair_faults vs f) = duplicate (pair_faults ws f)"
    unfolding pair_faults_fields by (subst same) (auto simp: same_device_def)
  show "overlap (pair_faults vs f) = overlap (pair_faults ws f)"
    unfolding pair_faults_fields by (subst same) (auto simp: ranges_overlap_sym same_device_def)
qed

subsection \<open>Valid entries\<close>

lemma validate_entries_OK:
  "validate_entries ws = PAGING_STATUS_OK \<longleftrightarrow> (\<forall>w \<in> set ws. validate_device_window_entry w = PAGING_STATUS_OK)"
  by (induction ws) (auto simp: Let_def)

lemma validate_entry_bounds:
  assumes "validate_device_window_entry w = PAGING_STATUS_OK"
  shows "0 < unat (dw_length w)" and "0 < unat (dw_physical_base w)"
    and "unat (dw_physical_base w) + unat (dw_length w) \<le> 2 ^ 32"
    and "4096 dvd unat (dw_physical_base w)" and "4096 dvd unat (dw_length w)"
    and "unat (dw_physical_base w + dw_length w) = unat (dw_physical_base w) + unat (dw_length w)"
proof -
  from assms have *: "dw_length w \<noteq> 0" "\<not> dw_length w > 0xFFFFFFFFFFFFFFFF - dw_physical_base w"
    "dw_physical_base w AND (PAGING_PAGE_SIZE - 1) = 0" "dw_length w AND (PAGING_PAGE_SIZE - 1) = 0"
    "dw_physical_base w \<noteq> 0" "\<not> dw_physical_base w + dw_length w > SAPOTE_EARLY_PHYSICAL_LIMIT"
    unfolding validate_device_window_entry_def by (simp_all split: if_split_asm)
  then show "0 < unat (dw_length w)" "0 < unat (dw_physical_base w)" by (simp_all add: unat_gt_0)
  show "4096 dvd unat (dw_physical_base w)" "4096 dvd unat (dw_length w)"
    using *(3,4) level_aligned_iff [of _ 1] by (simp_all add: PAGING_PAGE_SIZE_def)
  show sum: "unat (dw_physical_base w + dw_length w) = unat (dw_physical_base w) + unat (dw_length w)"
    by (rule unat_plus_checked) (use *(2) in \<open>simp add: not_less\<close>)
  then show "unat (dw_physical_base w) + unat (dw_length w) \<le> 2 ^ 32"
    using *(6) by (simp add: word_less_nat_alt not_less SAPOTE_EARLY_PHYSICAL_LIMIT_def)
qed

lemma ranges_overlap_iff:
  assumes "validate_device_window_entry v = PAGING_STATUS_OK" and "validate_device_window_entry w = PAGING_STATUS_OK"
  shows "ranges_overlap v w \<longleftrightarrow> unat (dw_physical_base v) < unat (dw_physical_base w) + unat (dw_length w)
     \<and> unat (dw_physical_base w) < unat (dw_physical_base v) + unat (dw_length v)"
  using validate_entry_bounds(6) [OF assms(1)] validate_entry_bounds(6) [OF assms(2)]
  by (simp add: ranges_overlap_def word_less_nat_alt)

lemma some_pair_sorted_wrt: "\<not> some_pair P xs \<longleftrightarrow> sorted_wrt (\<lambda>x y. \<not> P x y) xs"
  by (induction xs) auto

lemma some_pair_perm: "(\<And>x y. P x y \<longleftrightarrow> P y x) \<Longrightarrow> mset xs = mset ys \<Longrightarrow> some_pair P xs = some_pair P ys"
  by (simp add: some_pair_mset)

lemma sorted_disjoint:
  assumes "\<forall>w \<in> set vs. validate_device_window_entry w = PAGING_STATUS_OK" and "sorted (map window_key vs)"
    and "\<not> some_pair ranges_overlap vs"
  shows "sorted_wrt (\<lambda>v w. unat (dw_physical_base v) + unat (dw_length v) \<le> unat (dw_physical_base w)) vs"
proof -
  have "sorted_wrt (\<lambda>v w. \<not> ranges_overlap v w) vs" using assms(3) by (simp add: some_pair_sorted_wrt)
  moreover have "sorted_wrt (\<lambda>v w. window_key v \<le> window_key w) vs" using assms(2) by (simp add: sorted_wrt_map)
  ultimately show ?thesis
    using assms(1)
  proof (induction vs)
    case (Cons v vs)
    have "unat (dw_physical_base v) + unat (dw_length v) \<le> unat (dw_physical_base w)" if w: "w \<in> set vs" for w
    proof -
      have ok: "validate_device_window_entry v = PAGING_STATUS_OK" "validate_device_window_entry w = PAGING_STATUS_OK"
        using Cons.prems(3) w by simp_all
      have "dw_physical_base v \<le> dw_physical_base w"
        using Cons.prems(2) w by (auto simp: window_key_def)
      moreover have "\<not> ranges_overlap v w" using Cons.prems(1) w by simp
      ultimately show ?thesis
        using validate_entry_bounds(1) [OF ok(2)] unfolding ranges_overlap_iff [OF ok] by (simp add: word_le_nat_alt)
    qed
    then show ?case using Cons by simp
  qed simp
qed

lemma validate_OK:
  assumes "paging_device_windows_validate (Some ws) (Some out) = (PAGING_STATUS_OK, vs)"
  shows "vs = Some (sort_windows ws)" and "length ws \<le> PAGING_DEVICE_WINDOW_CAPACITY"
    and "\<forall>w \<in> set ws. validate_device_window_entry w = PAGING_STATUS_OK" and "\<not> some_pair same_device ws"
    and "\<not> some_pair ranges_overlap ws"
    and "\<forall>kind \<in> {PAGING_DEVICE_WINDOW_VGA_TEXT, PAGING_DEVICE_WINDOW_LOCAL_APIC, PAGING_DEVICE_WINDOW_IO_APIC}.
           \<exists>w \<in> set ws. dw_kind w = kind"
proof -
  let ?f = "pair_faults ws \<lparr>conflicting_overlap = False, duplicate = False, overlap = False\<rparr>"
  have *: "vs = Some (sort_windows ws)" "length ws \<le> PAGING_DEVICE_WINDOW_CAPACITY" "validate_entries ws = PAGING_STATUS_OK"
    "\<not> conflicting_overlap ?f" "\<not> duplicate ?f" "\<not> overlap ?f"
    "\<forall>kind \<in> {PAGING_DEVICE_WINDOW_VGA_TEXT, PAGING_DEVICE_WINDOW_LOCAL_APIC, PAGING_DEVICE_WINDOW_IO_APIC}.
           \<exists>w \<in> set ws. dw_kind w = kind"
    using assms unfolding paging_device_windows_validate_def Let_def
    by (auto simp: list_ex_iff split: if_split_asm)
  then show "vs = Some (sort_windows ws)" "length ws \<le> PAGING_DEVICE_WINDOW_CAPACITY"
    "\<forall>w \<in> set ws. validate_device_window_entry w = PAGING_STATUS_OK" "\<not> some_pair same_device ws"
    "\<forall>kind \<in> {PAGING_DEVICE_WINDOW_VGA_TEXT, PAGING_DEVICE_WINDOW_LOCAL_APIC, PAGING_DEVICE_WINDOW_IO_APIC}.
           \<exists>w \<in> set ws. dw_kind w = kind"
    by (simp_all add: validate_entries_OK pair_faults_fields)
  show "\<not> some_pair ranges_overlap ws"
    using *(5,6) by (simp add: pair_faults_fields some_pair_sorted_wrt sorted_wrt_iff_nth_less)
qed

subsection \<open>Properties\<close>

text \<open> C33. A registry that validates is installed in a canonical form: the entries in the order of the
  reference sort, which for the insertion sort of the code means equal to \<open>sort_key\<close>, each ending at or
  before the start of the next, page-aligned, clear of address zero and below 4 GiB, and with the
  text buffer, a local APIC and an I/O APIC among them.\<close>

theorem device_windows_canonical:
  assumes "paging_device_windows_validate (Some ws) (Some out) = (PAGING_STATUS_OK, Some vs)"
  shows "vs = sort_key window_key ws
     \<and> sorted_wrt (\<lambda>v w. unat (dw_physical_base v) + unat (dw_length v) \<le> unat (dw_physical_base w)) vs
     \<and> (\<forall>w \<in> set vs. 0 < unat (dw_physical_base w) \<and> 0 < unat (dw_length w)
          \<and> 4096 dvd unat (dw_physical_base w) \<and> 4096 dvd unat (dw_length w)
          \<and> unat (dw_physical_base w) + unat (dw_length w) \<le> 2 ^ 32)
     \<and> (\<forall>kind \<in> {PAGING_DEVICE_WINDOW_VGA_TEXT, PAGING_DEVICE_WINDOW_LOCAL_APIC, PAGING_DEVICE_WINDOW_IO_APIC}.
          \<exists>w \<in> set vs. dw_kind w = kind)"
proof -
  note v = validate_OK [OF assms]
  have vs: "vs = sort_key window_key ws" using v(1) by (simp add: sort_windows_sort)
  have "sorted_wrt (\<lambda>v w. unat (dw_physical_base v) + unat (dw_length v) \<le> unat (dw_physical_base w)) vs"
  proof (rule sorted_disjoint)
    show "\<forall>w \<in> set vs. validate_device_window_entry w = PAGING_STATUS_OK" "sorted (map window_key vs)"
      using v(3) by (simp_all add: vs)
    show "\<not> some_pair ranges_overlap vs"
      using v(5) some_pair_perm [of ranges_overlap vs ws] ranges_overlap_sym by (simp add: vs)
  qed
  then show ?thesis using v(3,6) validate_entry_bounds by (auto simp: vs)
qed

definition sample_windows :: paging_device_windows where
  "sample_windows =
    [\<lparr>dw_kind = PAGING_DEVICE_WINDOW_LOCAL_APIC, dw_instance = 0, dw_physical_base = 0xFEE00000, dw_length = 0x1000,
       dw_memory_type = PAGING_MEMORY_UNCACHEABLE, dw_permissions = PAGING_DEVICE_WINDOW_WRITE\<rparr>,
     \<lparr>dw_kind = PAGING_DEVICE_WINDOW_IO_APIC, dw_instance = 0, dw_physical_base = 0xFEC00000, dw_length = 0x1000,
       dw_memory_type = PAGING_MEMORY_UNCACHEABLE, dw_permissions = PAGING_DEVICE_WINDOW_WRITE\<rparr>,
     \<lparr>dw_kind = PAGING_DEVICE_WINDOW_VGA_TEXT, dw_instance = 0, dw_physical_base = 0xB8000, dw_length = 0x1000,
       dw_memory_type = PAGING_MEMORY_UNCACHEABLE, dw_permissions = PAGING_DEVICE_WINDOW_WRITE\<rparr>]"

lemma sample_windows_OK:
  "paging_device_windows_validate (Some sample_windows) (Some []) = (PAGING_STATUS_OK, Some (rev [sample_windows ! 0, sample_windows ! 1, sample_windows ! 2]))"
  by code_simp

theorem device_windows_canonical_witness:
  "sort_key window_key sample_windows = [sample_windows ! 2, sample_windows ! 1, sample_windows ! 0]"
  using device_windows_canonical [OF sample_windows_OK] by simp

text \<open> C34. When every entry is valid on its own, the outcome of the validation, the status of a refusal as
  well as the installed order, depends on the set of entries only and not on the order in which the
  devices were registered.\<close>

theorem device_windows_order_independent:
  assumes "mset vs = mset ws" and "\<forall>w \<in> set ws. validate_device_window_entry w = PAGING_STATUS_OK"
  shows "paging_device_windows_validate (Some vs) out = paging_device_windows_validate (Some ws) out"
proof -
  have s: "set vs = set ws" "length vs = length ws" using assms(1) by (metis set_mset_mset, metis size_mset)
  have e: "validate_entries vs = PAGING_STATUS_OK" "validate_entries ws = PAGING_STATUS_OK"
    using assms(2) s(1) by (simp_all add: validate_entries_OK)
  have k: "list_ex P vs = list_ex P ws" for P using s(1) by (simp add: list_ex_iff)
  have "sort_windows vs = sort_windows ws"
    unfolding sort_windows_sort by (rule sorted_windows_unique) (simp_all add: assms(1))
  then show ?thesis
    unfolding paging_device_windows_validate_def Let_def
    by (simp add: s(2) e k pair_faults_mset [OF assms(1)] split: option.split)
qed

theorem device_windows_order_independent_witness:
  "paging_device_windows_validate (Some (rev sample_windows)) (Some [])
     = paging_device_windows_validate (Some sample_windows) (Some [])"
proof -
  have "\<forall>w \<in> set sample_windows. validate_device_window_entry w = PAGING_STATUS_OK" by code_simp
  from device_windows_order_independent [OF _ this, of "rev sample_windows"] show ?thesis by simp
qed

end
