(* ===== verification/Identity_Map.thy ===== *)
theory Identity_Map
  imports Page_Supply Device_Windows
begin

text \<open>
  The identity map of \<open>src/kernel/paging.c\<close>: the sections of the kernel image, the rights each page
  below 4 GiB is meant to have (\<open>section_permissions\<close>, \<open>region_needs_page_table\<close>), the builder
  (\<open>build_identity_map\<close>) and the reading back that precedes the switch (\<open>validate_identity_map\<close>).
  The two nested loops over regions and pages are recursions over the lists of their bases and
  offsets. The lemmas show which translations a build yields, that the reading back accepts them,
  and that the build completes when enough frames are free.
\<close>

subsection \<open>The kernel image\<close>

text \<open>The symbols the linker script defines, as the addresses they take.\<close>

record kernel_image =
  ki_kernel_start :: u64
  ki_kernel_end :: u64
  ki_text_start :: u64
  ki_text_end :: u64
  ki_rodata_start :: u64
  ki_rodata_end :: u64
  ki_data_start :: u64

record paging_section =
  ps_start :: u64
  ps_end :: u64
  ps_permissions :: u32

text \<open>The array \<open>kernel_sections\<close> with its count is the list of the sections added.\<close>

definition add_section :: "paging_section list \<Rightarrow> u64 \<Rightarrow> u64 \<Rightarrow> u32 \<Rightarrow> paging_section list" where
  "add_section sections start end permissions =
     (if start \<ge> end then sections
      else sections @ [\<lparr>ps_start = start, ps_end = end, ps_permissions = permissions\<rparr>])"

definition collect_kernel_sections :: "kernel_image \<Rightarrow> paging_section list" where
  "collect_kernel_sections ki =
     (let sections = add_section [] (ki_kernel_start ki) (ki_text_start ki) PAGING_READ;
          sections = add_section sections (ki_text_start ki) (ki_text_end ki) PAGING_EXECUTE;
          sections = add_section sections (ki_rodata_start ki) (ki_rodata_end ki) PAGING_READ
      in add_section sections (ki_data_start ki) (ki_kernel_end ki) PAGING_WRITE)"

subsection \<open>Intent\<close>

definition device_window_at :: "paging_device_windows \<Rightarrow> u64 \<Rightarrow> paging_device_window option" where
  "device_window_at windows address =
     find (\<lambda>window. address \<ge> dw_physical_base window \<and> address < dw_physical_base window + dw_length window) windows"

definition region_needs_page_table :: "paging_device_windows \<Rightarrow> u64 \<Rightarrow> u64 \<Rightarrow> u64 \<Rightarrow> bool" where
  "region_needs_page_table windows base kernel_start kernel_end =
     (let end = base + PAGING_HUGE_PAGE_SIZE
      in base < kernel_end \<and> kernel_start < end
         \<or> list_ex (\<lambda>window. base < dw_physical_base window + dw_length window \<and> dw_physical_base window < end) windows)"

definition device_window_mapping_permissions :: "paging_device_window \<Rightarrow> u32" where
  "device_window_mapping_permissions window =
     (let permissions = PAGING_READ;
          permissions = (if dw_permissions window AND PAGING_DEVICE_WINDOW_WRITE \<noteq> 0
                         then permissions OR PAGING_WRITE else permissions)
      in if dw_memory_type window = PAGING_MEMORY_UNCACHEABLE then permissions OR PAGING_UNCACHED
         else if dw_memory_type window = PAGING_MEMORY_WRITE_COMBINING then permissions OR PAGING_WRITE_COMBINING
         else permissions)"

definition section_permissions :: "paging_section list \<Rightarrow> paging_device_windows \<Rightarrow> u64 \<Rightarrow> u32" where
  "section_permissions sections windows address =
     (case device_window_at windows address of
        Some window \<Rightarrow> device_window_mapping_permissions window
      | None \<Rightarrow>
          (case find (\<lambda>s. address \<ge> ps_start s \<and> address < ps_end s) sections of
             Some s \<Rightarrow> ps_permissions s
           | None \<Rightarrow> PAGING_WRITE))"

subsection \<open>Building\<close>

text \<open>The inner loop, over the pages of a region that needs a page table.\<close>

primrec build_fine_region ::
  "paging_section list \<Rightarrow> paging_device_windows \<Rightarrow> u64 \<Rightarrow> page_hierarchy \<Rightarrow> paging_world \<Rightarrow> u64 list
     \<Rightarrow> paging_status \<times> page_hierarchy \<times> paging_world" where
  "build_fine_region sections windows base h w [] = (PAGING_STATUS_OK, h, w)"
| "build_fine_region sections windows base h w (offset # offsets) =
     (let address = base + offset in
      if address = 0 then build_fine_region sections windows base h w offsets
      else
        (case map_range h address address PAGING_PAGE_SIZE (section_permissions sections windows address) 1 w of
           (status, h, w) \<Rightarrow>
             if status \<noteq> PAGING_STATUS_OK then (status, h, w)
             else build_fine_region sections windows base h w offsets))"

text \<open>The outer loop, over the regions of 2 MiB; the first component counts the fine ones.\<close>

primrec build_regions ::
  "kernel_image \<Rightarrow> paging_section list \<Rightarrow> paging_device_windows \<Rightarrow> nat \<Rightarrow> page_hierarchy \<Rightarrow> paging_world \<Rightarrow> u64 list
     \<Rightarrow> nat \<times> paging_status \<times> page_hierarchy \<times> paging_world" where
  "build_regions ki sections windows fine h w [] = (fine, PAGING_STATUS_OK, h, w)"
| "build_regions ki sections windows fine h w (base # bases) =
     (if \<not> region_needs_page_table windows base (ki_kernel_start ki) (ki_kernel_end ki) then
        (case map_range h base base PAGING_HUGE_PAGE_SIZE PAGING_WRITE 2 w of
           (status, h, w) \<Rightarrow>
             if status \<noteq> PAGING_STATUS_OK then (fine, status, h, w)
             else build_regions ki sections windows fine h w bases)
      else
        (case build_fine_region sections windows base h w (range_offsets PAGING_HUGE_PAGE_SIZE PAGING_PAGE_SIZE) of
           (status, h, w) \<Rightarrow>
             if status \<noteq> PAGING_STATUS_OK then (Suc fine, status, h, w)
             else build_regions ki sections windows (Suc fine) h w bases))"

definition identity_bases :: "u64 list" where
  "identity_bases = range_offsets SAPOTE_EARLY_PHYSICAL_LIMIT PAGING_HUGE_PAGE_SIZE"

definition build_identity_map ::
  "kernel_image \<Rightarrow> paging_section list \<Rightarrow> paging_device_windows \<Rightarrow> page_hierarchy \<Rightarrow> paging_world
     \<Rightarrow> nat \<times> paging_status \<times> page_hierarchy \<times> paging_world" where
  "build_identity_map ki sections windows h w = build_regions ki sections windows 0 h w identity_bases"

subsection \<open>Reading it back\<close>

definition validate_coarse_region :: "page_hierarchy \<Rightarrow> u64 \<Rightarrow> paging_world \<Rightarrow> u64 \<Rightarrow> bool" where
  "validate_coarse_region h pat w base =
     (case translate_address h base pat w of
        (status, translation) \<Rightarrow>
          \<not> (status \<noteq> PAGING_STATUS_OK \<or> tr_physical_address translation \<noteq> base
             \<or> tr_permissions translation \<noteq> PAGING_WRITE
             \<or> tr_memory_type translation \<noteq> PAGING_MEMORY_WRITE_BACK \<or> tr_level translation \<noteq> 2))"

definition validate_fine_page ::
  "paging_section list \<Rightarrow> paging_device_windows \<Rightarrow> page_hierarchy \<Rightarrow> u64 \<Rightarrow> paging_world \<Rightarrow> u64 \<Rightarrow> bool" where
  "validate_fine_page sections windows h pat w address =
     (case translate_address h address pat w of
        (status, translation) \<Rightarrow>
          if address = 0 then status = PAGING_STATUS_NOT_MAPPED
          else
            let window = device_window_at windows address;
                expected = section_permissions sections windows address
            in \<not> (status \<noteq> PAGING_STATUS_OK \<or> tr_physical_address translation \<noteq> address
                  \<or> tr_permissions translation \<noteq> expected
                  \<or> (case window of
                       Some window \<Rightarrow> tr_memory_type translation \<noteq> dw_memory_type window
                     | None \<Rightarrow> tr_memory_type translation \<noteq> PAGING_MEMORY_WRITE_BACK)
                  \<or> tr_level translation \<noteq> 1))"

definition validate_identity_map ::
  "kernel_image \<Rightarrow> paging_section list \<Rightarrow> paging_device_windows \<Rightarrow> page_hierarchy \<Rightarrow> u64 \<Rightarrow> paging_world \<Rightarrow> paging_status" where
  "validate_identity_map ki sections windows h pat w =
     (if list_all (\<lambda>base.
           if \<not> region_needs_page_table windows base (ki_kernel_start ki) (ki_kernel_end ki)
           then validate_coarse_region h pat w base
           else list_all (\<lambda>offset. validate_fine_page sections windows h pat w (base + offset))
                  (range_offsets PAGING_HUGE_PAGE_SIZE PAGING_PAGE_SIZE)) identity_bases
      then PAGING_STATUS_OK else PAGING_STATUS_VALIDATION_FAILURE)"

subsection \<open>What the builder adds\<close>

text \<open>
  The translation that the intent of the code gives an address, stated with the functions of the code
  that compute the intent. What they give section by section and window by window is spelled out,
  without them, for the installed map in \<open>Paging_Install\<close>.
\<close>

definition identity_translation ::
  "kernel_image \<Rightarrow> paging_section list \<Rightarrow> paging_device_windows \<Rightarrow> u64 \<Rightarrow> paging_status \<times> paging_translation" where
  "identity_translation ki sections windows a =
     (if a \<ge> SAPOTE_EARLY_PHYSICAL_LIMIT then (PAGING_STATUS_NOT_MAPPED, no_translation)
      else if \<not> region_needs_page_table windows (a AND NOT (PAGING_HUGE_PAGE_SIZE - 1))
                  (ki_kernel_start ki) (ki_kernel_end ki)
      then (PAGING_STATUS_OK, mapping a PAGING_WRITE 2)
      else if a < PAGING_PAGE_SIZE then (PAGING_STATUS_NOT_MAPPED, no_translation)
      else (PAGING_STATUS_OK, mapping a (section_permissions sections windows (a AND NOT (PAGING_PAGE_SIZE - 1))) 1))"

text \<open>
  What a call of the builder does to the translations: \<open>f a = Some p\<close> gives the rights and the level
  of an address it maps, all of them unmapped before.
\<close>

definition adds :: "u64 \<Rightarrow> (u64 \<Rightarrow> (u32 \<times> nat) option) \<Rightarrow> page_hierarchy \<Rightarrow> paging_world \<Rightarrow> page_hierarchy \<Rightarrow> paging_world \<Rightarrow> bool" where
  "adds pat f h w h' w' \<longleftrightarrow> hier_inv h' w' \<and> same_hierarchy h h' \<and> (h_arena_capacity h = 0 \<longrightarrow> others h' w' = others h w)
     \<and> (\<forall>a. case f a of
          Some (p, l) \<Rightarrow> translate_address h a pat w = unmapped \<and> translate_address h' a pat w' = (PAGING_STATUS_OK, mapping a p l)
        | None \<Rightarrow> translate_address h' a pat w' = translate_address h a pat w)"

lemma adds_refl: "hier_inv h w \<Longrightarrow> adds pat Map.empty h w h w"
  by (simp add: adds_def same_hierarchy_def)

lemma adds_None: "adds pat f h w h' w' \<Longrightarrow> f a = None \<Longrightarrow> translate_address h' a pat w' = translate_address h a pat w"
  unfolding adds_def by (drule conjunct2, drule conjunct2, drule conjunct2, drule spec [of _ a]) simp

lemma adds_trans:
  assumes "adds pat f h w h1 w1" and "adds pat g h1 w1 h2 w2"
  shows "adds pat (f ++ g) h w h2 w2"
proof -
  have "case (f ++ g) a of
          Some (p, l) \<Rightarrow> translate_address h a pat w = unmapped \<and> translate_address h2 a pat w2 = (PAGING_STATUS_OK, mapping a p l)
        | None \<Rightarrow> translate_address h2 a pat w2 = translate_address h a pat w" for a
    using assms unfolding adds_def by (cases "f a"; cases "g a") (auto simp: map_add_def dest!: spec [of _ a])
  then show ?thesis using assms by (simp add: adds_def same_hierarchy_def)
qed

lemma map_range_adds:
  assumes "hier_inv h w" and "1 \<le> l" "l \<le> 2" and "pat_ok pat" and "map_range h va va len p l w = (PAGING_STATUS_OK, h', w')"
  shows "adds pat (\<lambda>a. if in_range va len a then Some (p, l) else None) h w h' w'"
proof -
  note t = map_range_translations [OF assms]
  have "keeps_out l ((\<lambda>k. va + page_offset l k) ` {..<page_count len l}) h w h' w'"
    using assms(1-3,5) by (cases rule: map_range_cases) simp_all
  then have "same_hierarchy h h'" "h_arena_capacity h = 0 \<longrightarrow> others h' w' = others h w" by (auto simp: keeps_out_def)
  then show ?thesis using t by (auto simp: adds_def)
qed

text \<open>The pages a fine region gets, and those of a region.\<close>

definition fine_pages :: "paging_section list \<Rightarrow> paging_device_windows \<Rightarrow> u64 \<Rightarrow> u64 list \<Rightarrow> u64 \<Rightarrow> (u32 \<times> nat) option" where
  "fine_pages sections windows base xs =
     fold (\<lambda>x f. f ++ (\<lambda>a. if base + x \<noteq> 0 \<and> in_range (base + x) PAGING_PAGE_SIZE a
                            then Some (section_permissions sections windows (base + x), 1) else None)) xs Map.empty"

lemma fold_map_add: "fold (\<lambda>x f. f ++ g x) xs f0 = f0 ++ fold (\<lambda>x f. f ++ g x) xs Map.empty"
proof (induction xs arbitrary: f0)
  case (Cons x xs)
  show ?case using Cons.IH [of "f0 ++ g x"] Cons.IH [of "g x"] by simp
qed simp

lemma fold_map_add_Cons: "fold (\<lambda>x f. f ++ g x) (x # xs) Map.empty = g x ++ fold (\<lambda>x f. f ++ g x) xs Map.empty"
  using fold_map_add [of g xs "g x"] by simp

lemma build_fine_region_adds:
  assumes "hier_inv h w" and "pat_ok pat" and "build_fine_region sections windows base h w xs = (PAGING_STATUS_OK, h', w')"
  shows "adds pat (fine_pages sections windows base xs) h w h' w'"
  using assms(1,3)
proof (induction xs arbitrary: h w)
  case Nil
  then show ?case by (simp add: fine_pages_def adds_refl)
next
  case (Cons x xs)
  let ?g = "\<lambda>x a. if base + x \<noteq> 0 \<and> in_range (base + x) PAGING_PAGE_SIZE a
      then Some (section_permissions sections windows (base + x), 1 :: nat) else None"
  have split: "fine_pages sections windows base (x # xs) = ?g x ++ fine_pages sections windows base xs"
    unfolding fine_pages_def by (rule fold_map_add_Cons)
  show ?case
  proof (cases "base + x = 0")
    case True
    have "?g x = Map.empty" unfolding True by simp
    then have "fine_pages sections windows base (x # xs) = fine_pages sections windows base xs"
      unfolding split by simp
    then show ?thesis using Cons True by simp
  next
    case False
    then obtain h1 w1 where
      m: "map_range h (base + x) (base + x) PAGING_PAGE_SIZE (section_permissions sections windows (base + x)) 1 w
            = (PAGING_STATUS_OK, h1, w1)"
        and rest: "build_fine_region sections windows base h1 w1 xs = (PAGING_STATUS_OK, h', w')"
      using Cons.prems(2) by (auto simp: Let_def split: prod.splits if_split_asm)
    have "adds pat (?g x) h w h1 w1"
      using map_range_adds [OF Cons.prems(1) _ _ assms(2) m] False by simp
    moreover from this have "hier_inv h1 w1" by (simp add: adds_def)
    ultimately show ?thesis unfolding split using adds_trans Cons.IH [OF _ rest] by blast
  qed
qed


definition region_pages ::
  "kernel_image \<Rightarrow> paging_section list \<Rightarrow> paging_device_windows \<Rightarrow> u64 \<Rightarrow> u64 \<Rightarrow> (u32 \<times> nat) option" where
  "region_pages ki sections windows base =
     (if \<not> region_needs_page_table windows base (ki_kernel_start ki) (ki_kernel_end ki)
      then \<lambda>a. if in_range base PAGING_HUGE_PAGE_SIZE a then Some (PAGING_WRITE, 2) else None
      else fine_pages sections windows base (range_offsets PAGING_HUGE_PAGE_SIZE PAGING_PAGE_SIZE))"

lemma build_regions_adds:
  assumes "hier_inv h w" and "pat_ok pat" and "build_regions ki sections windows n h w bs = (n', PAGING_STATUS_OK, h', w')"
  shows "adds pat (fold (\<lambda>b f. f ++ region_pages ki sections windows b) bs Map.empty) h w h' w'"
  using assms(1,3)
proof (induction bs arbitrary: n h w)
  case Nil
  then show ?case by (simp add: adds_refl)
next
  case (Cons b bs)
  let ?P = "region_pages ki sections windows"
  have "\<exists>n1 h1 w1. adds pat (?P b) h w h1 w1
     \<and> build_regions ki sections windows n1 h1 w1 bs = (n', PAGING_STATUS_OK, h', w')"
  proof (cases "region_needs_page_table windows b (ki_kernel_start ki) (ki_kernel_end ki)")
    case True
    then obtain h1 w1 where
      m: "build_fine_region sections windows b h w (range_offsets PAGING_HUGE_PAGE_SIZE PAGING_PAGE_SIZE)
            = (PAGING_STATUS_OK, h1, w1)"
        and rest: "build_regions ki sections windows (Suc n) h1 w1 bs = (n', PAGING_STATUS_OK, h', w')"
      using Cons.prems(2) by (auto split: prod.splits if_split_asm)
    have "adds pat (?P b) h w h1 w1"
      using build_fine_region_adds [OF Cons.prems(1) assms(2) m] True by (simp add: region_pages_def)
    then show ?thesis using rest by blast
  next
    case False
    then obtain h1 w1 where
      m: "map_range h b b PAGING_HUGE_PAGE_SIZE PAGING_WRITE 2 w = (PAGING_STATUS_OK, h1, w1)"
        and rest: "build_regions ki sections windows n h1 w1 bs = (n', PAGING_STATUS_OK, h', w')"
      using Cons.prems(2) by (auto split: prod.splits if_split_asm)
    have "adds pat (?P b) h w h1 w1"
      using map_range_adds [OF Cons.prems(1) _ _ assms(2) m] False by (simp add: region_pages_def)
    then show ?thesis using rest by blast
  qed
  then obtain n1 h1 w1 where a: "adds pat (?P b) h w h1 w1"
    and rest: "build_regions ki sections windows n1 h1 w1 bs = (n', PAGING_STATUS_OK, h', w')" by blast
  have "hier_inv h1 w1" using a by (simp add: adds_def)
  then show ?case unfolding fold_map_add_Cons by (rule adds_trans [OF a Cons.IH [OF _ rest]])
qed

lemma fold_map_add_None: "(\<And>x. x \<in> set xs \<Longrightarrow> g x a = None) \<Longrightarrow> fold (\<lambda>x f. f ++ g x) xs Map.empty a = None"
proof (induction xs)
  case (Cons x xs)
  then show ?case unfolding fold_map_add_Cons by (simp add: map_add_def)
qed simp

lemma fold_map_add_Some:
  "x \<in> set xs \<Longrightarrow> g x a = Some v \<Longrightarrow> (\<And>y. y \<in> set xs \<Longrightarrow> g y a = None \<or> g y a = Some v)
   \<Longrightarrow> fold (\<lambda>x f. f ++ g x) xs Map.empty a = Some v"
proof (induction xs arbitrary: x)
  case (Cons z zs)
  show ?case
  proof (cases "\<forall>y \<in> set zs. g y a = None")
    case True
    then have "fold (\<lambda>x f. f ++ g x) zs Map.empty a = None" by (intro fold_map_add_None) blast
    moreover have "g z a = Some v" using True Cons.prems(1,2) by auto
    ultimately show ?thesis unfolding fold_map_add_Cons by (simp add: map_add_def)
  next
    case False
    then obtain y where "y \<in> set zs" "g y a = Some v" using Cons.prems(3) by (metis list.set_intros(2))
    then have "fold (\<lambda>x f. f ++ g x) zs Map.empty a = Some v" by (rule Cons.IH) (use Cons.prems(3) in auto)
    then show ?thesis unfolding fold_map_add_Cons by (simp add: map_add_def)
  qed
qed simp

lemma page_size_mask: "PAGING_PAGE_SIZE - 1 = mask 12" "PAGING_HUGE_PAGE_SIZE - 1 = mask 21"
  by (simp_all add: PAGING_PAGE_SIZE_def PAGING_HUGE_PAGE_SIZE_def mask_eq_exp_minus_1)

lemma page_containing:
  assumes "2 ^ n dvd unat (v :: u64)" and "unat len = 2 ^ n" and "n < 64"
  shows "in_range v len a \<longleftrightarrow> a AND NOT (mask n) = v"
proof -
  have m: "unat (a AND NOT (mask n)) = unat a div 2 ^ n * 2 ^ n"
    by (simp add: unat_and_not_mask minus_mod_eq_div_mult)
  obtain k where k: "unat v = k * 2 ^ n" using assms(1) by (metis dvd_def mult.commute)
  have "a AND NOT (mask n) = v \<longleftrightarrow> unat a div 2 ^ n = k"
    unfolding word_unat_eq_iff m k by simp
  also have "\<dots> \<longleftrightarrow> k * 2 ^ n \<le> unat a \<and> unat a < k * 2 ^ n + 2 ^ n"
  proof
    assume "unat a div 2 ^ n = k"
    then show "k * 2 ^ n \<le> unat a \<and> unat a < k * 2 ^ n + 2 ^ n"
      using dividend_less_div_times [of "2 ^ n" "unat a"] by auto
  next
    assume "k * 2 ^ n \<le> unat a \<and> unat a < k * 2 ^ n + 2 ^ n"
    then show "unat a div 2 ^ n = k" by (intro div_nat_eqI) (simp_all add: algebra_simps)
  qed
  also have "\<dots> \<longleftrightarrow> in_range v len a" unfolding in_range_def k assms(2) ..
  finally show ?thesis by blast
qed

lemma offset_list:
  assumes "unat (len :: u64) = 2 ^ m" and "unat (s :: u64) = 2 ^ n" and "n \<le> m" and "m < 64"
  shows "range_offsets len s = map (\<lambda>k. of_nat k * s) [0..<2 ^ (m - n)]"
    and "k < 2 ^ (m - n) \<Longrightarrow> unat (of_nat k * s) = k * 2 ^ n"
proof -
  have "(2 ^ m + (2 ^ n - 1)) div 2 ^ n = (2 :: nat) ^ (m - n)"
    using assms(3) ceil_exact [of "2 ^ n" "2 ^ (m - n)"] by (simp flip: power_add)
  then show "range_offsets len s = map (\<lambda>k. of_nat k * s) [0..<2 ^ (m - n)]"
    unfolding range_offsets_def assms(1,2) by simp
  assume "k < 2 ^ (m - n)"
  then have "k * 2 ^ n < 2 ^ (m - n) * 2 ^ n" by simp
  also have "\<dots> = 2 ^ m" using assms(3) by (simp flip: power_add)
  also have "\<dots> < 2 ^ 64" using assms(4) by (rule power_strict_increasing) simp
  finally have "k * 2 ^ n < 2 ^ LENGTH(64)" by simp
  moreover have "s = of_nat (2 ^ n)" by (simp flip: assms(2))
  then have "of_nat k * s = of_nat (k * 2 ^ n)" by simp
  ultimately show "unat (of_nat k * s) = k * 2 ^ n"
    using unat_of_nat_small [of "k * 2 ^ n", where 'a = 64] by (simp only:)
qed

lemma offsets_distinct:
  assumes "unat (len :: u64) = 2 ^ m" and "unat (s :: u64) = 2 ^ n" and "n \<le> m" and "m < 64"
  shows "distinct (range_offsets len s)"
proof -
  have "inj_on (\<lambda>k. of_nat k * s) {..<2 ^ (m - n)}"
  proof (rule inj_onI)
    fix i j assume "i \<in> {..<(2 :: nat) ^ (m - n)}" "j \<in> {..<(2 :: nat) ^ (m - n)}" "of_nat i * s = of_nat j * s"
    then have "i * 2 ^ n = j * 2 ^ n" using offset_list(2) [OF assms] lessThan_iff by metis
    then show "i = j" by simp
  qed
  then show ?thesis unfolding offset_list(1) [OF assms] distinct_map by (simp add: atLeast0LessThan)
qed

lemma offsets_in:
  assumes "unat (len :: u64) = 2 ^ m" and "unat (s :: u64) = 2 ^ n" and "n \<le> m" and "m < 64"
  shows "x \<in> set (range_offsets len s) \<longleftrightarrow> 2 ^ n dvd unat x \<and> unat x < 2 ^ m"
proof -
  have "x \<in> set (range_offsets len s) \<longleftrightarrow> (\<exists>k < 2 ^ (m - n). x = of_nat k * s)"
    unfolding offset_list(1) [OF assms] by auto
  then have "x \<in> set (range_offsets len s) \<longleftrightarrow> (\<exists>k < 2 ^ (m - n). unat x = k * 2 ^ n)"
    unfolding word_unat_eq_iff using offset_list(2) [OF assms] by auto
  moreover have "k * 2 ^ n < 2 ^ m \<longleftrightarrow> k < 2 ^ (m - n)" for k :: nat
    using assms(3) mult_less_cancel2 [of k "2 ^ n" "2 ^ (m - n)"] by (simp flip: power_add)
  ultimately show ?thesis by (metis dvd_div_mult_self dvd_triv_right)
qed

lemma identity_bases_in: "b \<in> set identity_bases \<longleftrightarrow> 2 ^ 21 dvd unat b \<and> unat b < 2 ^ 32"
  unfolding identity_bases_def
  by (rule offsets_in) (simp_all add: SAPOTE_EARLY_PHYSICAL_LIMIT_def PAGING_HUGE_PAGE_SIZE_def)

lemma fine_offsets_in: "x \<in> set (range_offsets PAGING_HUGE_PAGE_SIZE PAGING_PAGE_SIZE) \<longleftrightarrow> 2 ^ 12 dvd unat x \<and> unat x < 2 ^ 21"
  by (rule offsets_in) (simp_all add: PAGING_HUGE_PAGE_SIZE_def PAGING_PAGE_SIZE_def)

lemma identity_distinct: "distinct identity_bases" "distinct (range_offsets PAGING_HUGE_PAGE_SIZE PAGING_PAGE_SIZE)"
  unfolding identity_bases_def
  by (rule offsets_distinct [of _ 32 _ 21] offsets_distinct [of _ 21 _ 12];
      simp add: SAPOTE_EARLY_PHYSICAL_LIMIT_def PAGING_HUGE_PAGE_SIZE_def PAGING_PAGE_SIZE_def)+

lemma unat_base_offset:
  assumes "2 ^ 21 dvd unat b" and "2 ^ 12 dvd unat x" and "unat x < 2 ^ 21"
  shows "unat (b + x :: u64) = unat b + unat x" and "2 ^ 12 dvd unat (b + x)" and "(b + x) AND NOT (mask 21) = b"
proof -
  obtain k where k: "unat b = 2 ^ 21 * k" using assms(1) by blast
  have "unat b < 2 ^ 64" using unat_less_size [of b] by simp
  then have "k < 2 ^ 43" using k by simp
  then have s: "unat b + unat x < 2 ^ 64" using k assms(3) by simp
  then show u: "unat (b + x) = unat b + unat x" by (intro unat_plus_bounded) simp
  have "(2 :: nat) ^ 12 dvd 2 ^ 21" by (rule le_imp_power_dvd) simp
  then show "2 ^ 12 dvd unat (b + x)" unfolding u by (rule dvd_add [OF dvd_trans [OF _ assms(1)] assms(2)])
  show "(b + x) AND NOT (mask 21) = b"
    using page_containing [OF assms(1), of PAGING_HUGE_PAGE_SIZE "b + x"] assms(3) u
    by (simp add: in_range_def PAGING_HUGE_PAGE_SIZE_def)
qed

lemma fine_pages_eq:
  assumes b: "2 ^ 21 dvd unat b"
  shows "fine_pages sections windows b (range_offsets PAGING_HUGE_PAGE_SIZE PAGING_PAGE_SIZE) a =
     (if a AND NOT (mask 21) = b \<and> a AND NOT (mask 12) \<noteq> 0
      then Some (section_permissions sections windows (a AND NOT (mask 12)), 1) else None)"
proof -
  let ?xs = "range_offsets PAGING_HUGE_PAGE_SIZE PAGING_PAGE_SIZE"
  let ?g = "\<lambda>x a. if b + x \<noteq> 0 \<and> in_range (b + x) PAGING_PAGE_SIZE a
      then Some (section_permissions sections windows (b + x), 1 :: nat) else None"
  have page: "in_range (b + x) PAGING_PAGE_SIZE a \<longleftrightarrow> a AND NOT (mask 12) = b + x" if "x \<in> set ?xs" for x
    using that fine_offsets_in unat_base_offset(2) [OF b]
    by (intro page_containing) (simp_all add: PAGING_PAGE_SIZE_def)
  have region: "(a AND NOT (mask 12)) AND NOT (mask 21) = a AND NOT (mask 21)"
    by (rule bit_word_eqI) (auto simp: bit_simps)
  have g: "?g x a = None \<or> ?g x a = Some (section_permissions sections windows (a AND NOT (mask 12)), 1)"
    if "x \<in> set ?xs" for x
    using page [OF that] by auto
  show ?thesis
  proof (cases "a AND NOT (mask 21) = b \<and> a AND NOT (mask 12) \<noteq> 0")
    case True
    define x where "x = (a AND NOT (mask 12)) - b"
    have bx: "b + x = a AND NOT (mask 12)" by (simp add: x_def)
    have "unat b \<le> unat (a AND NOT (mask 12))" "unat (a AND NOT (mask 12)) < unat b + 2 ^ 21"
      using page_containing [OF b, of PAGING_HUGE_PAGE_SIZE "a AND NOT (mask 12)"] True region
      by (simp_all add: in_range_def PAGING_HUGE_PAGE_SIZE_def)
    then have u: "unat x = unat (a AND NOT (mask 12)) - unat b" "unat x < 2 ^ 21"
      by (simp_all add: x_def unat_sub word_le_nat_alt)
    have "2 ^ 12 dvd unat (a AND NOT (mask 12))" by (simp add: unat_and_not_mask minus_mod_eq_div_mult)
    moreover have "2 ^ 12 dvd unat b" using b le_imp_power_dvd [of 12 21 "2 :: nat"] dvd_trans by fastforce
    ultimately have "2 ^ 12 dvd unat x" unfolding u(1) by (rule dvd_diff_nat)
    then have x: "x \<in> set ?xs" unfolding fine_offsets_in using u(2) by simp
    have "?g x a = Some (section_permissions sections windows (a AND NOT (mask 12)), 1)"
      using page [OF x] True by (simp add: bx)
    from fold_map_add_Some [where g = ?g and a = a, OF x this g] show ?thesis unfolding fine_pages_def using True by simp
  next
    case False
    have "?g x a = None" if x: "x \<in> set ?xs" for x
    proof (rule ccontr)
      assume "?g x a \<noteq> None"
      then have "b + x \<noteq> 0" "a AND NOT (mask 12) = b + x" using page [OF x] by (auto split: if_split_asm)
      moreover have "(b + x) AND NOT (mask 21) = b" using unat_base_offset(3) [OF b] x fine_offsets_in by blast
      ultimately show False using False region by metis
    qed
    then show ?thesis unfolding fine_pages_def using False by (simp add: fold_map_add_None [where a = a])
  qed
qed

lemma region_pages_eq:
  assumes b: "2 ^ 21 dvd unat b"
  shows "region_pages ki sections windows b a =
     (if a AND NOT (mask 21) \<noteq> b then None
      else if \<not> region_needs_page_table windows b (ki_kernel_start ki) (ki_kernel_end ki) then Some (PAGING_WRITE, 2)
      else if a AND NOT (mask 12) = 0 then None
      else Some (section_permissions sections windows (a AND NOT (mask 12)), 1))"
  using fine_pages_eq [OF b] page_containing [OF b, of PAGING_HUGE_PAGE_SIZE a]
  by (auto simp: region_pages_def PAGING_HUGE_PAGE_SIZE_def)

lemma identity_pages_eq:
  "fold (\<lambda>b f. f ++ region_pages ki sections windows b) identity_bases Map.empty a =
     (if unat a < 2 ^ 32 then region_pages ki sections windows (a AND NOT (mask 21)) a else None)"
proof -
  have b: "2 ^ 21 dvd unat (a AND NOT (mask 21))" by (simp add: unat_and_not_mask minus_mod_eq_div_mult)
  have m: "unat (a AND NOT (mask 21)) = unat a div 2 ^ 21 * 2 ^ 21" by (simp add: unat_and_not_mask minus_mod_eq_div_mult)
  have here: "a AND NOT (mask 21) \<in> set identity_bases \<longleftrightarrow> unat a < 2 ^ 32"
    unfolding identity_bases_in m by (auto simp: div_less_iff_less_mult)
  have other: "region_pages ki sections windows c a = None" if "c \<in> set identity_bases" "c \<noteq> a AND NOT (mask 21)" for c
    using that identity_bases_in region_pages_eq [of c ki sections windows a] by auto
  show ?thesis
  proof (cases "a AND NOT (mask 21) \<in> set identity_bases")
    case True
    let ?v = "region_pages ki sections windows (a AND NOT (mask 21)) a"
    show ?thesis
    proof (cases ?v)
      case None
      then have "region_pages ki sections windows c a = None" if "c \<in> set identity_bases" for c
        using other [OF that] by metis
      then show ?thesis using None by (simp add: fold_map_add_None [where a = a])
    next
      case (Some v)
      have "fold (\<lambda>b f. f ++ region_pages ki sections windows b) identity_bases Map.empty a = Some v"
        by (rule fold_map_add_Some [where g = "region_pages ki sections windows", OF True Some]) (metis other Some)
      then show ?thesis using True here Some by simp
    qed
  next
    case False
    then have "region_pages ki sections windows c a = None" if "c \<in> set identity_bases" for c
      using other [OF that] that by metis
    then show ?thesis using False here by (simp add: fold_map_add_None [where a = a])
  qed
qed

lemma build_identity_map_translations:
  assumes "hier_inv h w" and "empty_table (pw_tables w) (h_root h)" and "pat_ok pat"
    and "build_identity_map ki sections windows h w = (n, PAGING_STATUS_OK, h', w')"
  shows "hier_inv h' w'" and "same_hierarchy h h'" and "h_arena_capacity h = 0 \<longrightarrow> others h' w' = others h w"
    and "address_is_canonical a \<Longrightarrow> translate_address h' a pat w' = identity_translation ki sections windows a"
proof -
  note a = build_regions_adds [OF assms(1,3) assms(4) [unfolded build_identity_map_def], unfolded adds_def]
  show "hier_inv h' w'" "same_hierarchy h h'" "h_arena_capacity h = 0 \<longrightarrow> others h' w' = others h w" using a by blast+
  assume c: "address_is_canonical a"
  have low: "a AND NOT (mask 12) = 0 \<longleftrightarrow> a < PAGING_PAGE_SIZE"
    unfolding unat_eq_0 [symmetric] word_less_nat_alt
    by (simp add: unat_and_not_mask minus_mod_eq_div_mult PAGING_PAGE_SIZE_def div_eq_0_iff)
  have limit: "a \<ge> SAPOTE_EARLY_PHYSICAL_LIMIT \<longleftrightarrow> \<not> unat a < 2 ^ 32"
    unfolding word_le_nat_alt SAPOTE_EARLY_PHYSICAL_LIMIT_def by (simp add: not_less)
  have b: "2 ^ 21 dvd unat (a AND NOT (mask 21))" by (simp add: unat_and_not_mask minus_mod_eq_div_mult)
  note e = empty_translate [OF assms(2) c, of pat]
  from a have "case fold (\<lambda>b f. f ++ region_pages ki sections windows b) identity_bases Map.empty a of
        Some (p, l) \<Rightarrow> translate_address h a pat w = unmapped \<and> translate_address h' a pat w' = (PAGING_STATUS_OK, mapping a p l)
      | None \<Rightarrow> translate_address h' a pat w' = translate_address h a pat w" by blast
  then show "translate_address h' a pat w' = identity_translation ki sections windows a"
    unfolding identity_pages_eq region_pages_eq [OF b] e identity_translation_def page_size_mask limit low
    by (auto split: if_split_asm)
qed

subsection \<open>Room for the tables\<close>

lemma identity_range_valid:
  assumes "1 \<le> l" "l \<le> 2" and "2 ^ page_shift l dvd unat a" and "unat a < 2 ^ 32"
  shows "validate_virtual_range a (level_page_size l) (level_page_size l) = PAGING_STATUS_OK"
    and "validate_physical_range a (level_page_size l) (level_page_size l) = PAGING_STATUS_OK"
proof -
  let ?s = "level_page_size l"
  have u: "unat ?s = 2 ^ page_shift l" using level_page_size_nat assms(1,2) by simp
  have "page_shift l \<le> 21" using assms(2) by simp
  then have s: "unat ?s \<le> 2 ^ 21" "0 < unat ?s" unfolding u by (rule power_increasing) simp_all
  have sum: "unat (a + ?s) = unat a + unat ?s" using assms(4) s(1) by (intro unat_plus_bounded) simp
  have "0 < unat (a + ?s)" using s(2) sum by simp
  then have last: "unat (a + ?s - 1) = unat a + unat ?s - 1" unfolding sum [symmetric] by (simp add: unat_gt_0 unat_sub word_le_nat_alt Suc_leI)
  have "address_is_canonical a" "address_is_canonical (a + ?s - 1)"
    unfolding canonical_iff last using assms(4) s by (simp, intro disjI1, simp)
  moreover have "\<not> ?s > 0xFFFFFFFFFFFFFFFF - a" unfolding not_less checked_add_iff using assms(4) s(1) by simp
  moreover have "\<not> a + ?s > PAGE_PHYSICAL_LIMIT"
    unfolding not_less word_le_nat_alt sum using assms(4) s(1) by (simp add: PAGE_PHYSICAL_LIMIT_def)
  moreover have "a AND (?s - 1) = 0" "?s AND (?s - 1) = 0" unfolding level_aligned_iff using assms(3) u by simp_all
  moreover have "?s \<noteq> 0" using s(2) by auto
  ultimately show "validate_virtual_range a ?s ?s = PAGING_STATUS_OK" "validate_physical_range a ?s ?s = PAGING_STATUS_OK"
    by (simp_all add: validate_virtual_range_def validate_physical_range_def)
qed

text \<open>One page of the identity map: with room for its tables it is mapped.\<close>

definition supplied :: "nat list set \<Rightarrow> page_hierarchy \<Rightarrow> paging_world \<Rightarrow> bool" where
  "supplied P h w \<longleftrightarrow> hier_inv h w \<and> h_arena_capacity h = 0 \<and> present h w \<subseteq> P \<and> card P \<le> room h w"

lemma identity_page_mapped:
  assumes s: "supplied P h w" and P: "finite P" "walk_paths a l \<subseteq> P" and l: "1 \<le> l" "l \<le> 2"
    and a: "2 ^ page_shift l dvd unat a" "unat a < 2 ^ 32" and p: "validate_permissions p = PAGING_STATUS_OK"
    and vac: "vacant (pw_tables w) (h_root h) a l"
  shows "\<exists>h' w'. map_range h a a (level_page_size l) p l w = (PAGING_STATUS_OK, h', w') \<and> supplied P h' w'"
proof -
  have i: "hier_inv h w" "h_arena_capacity h = 0" using s by (simp_all add: supplied_def)
  obtain st h' w' where m: "map_range h a a (level_page_size l) p l w = (st, h', w')"
    by (cases "map_range h a a (level_page_size l) p l w")
  note v = identity_range_valid [OF l a]
  note d = map_page_draws [OF i(1) l p v vac m]
  have k: "hier_inv h' w'" "same_hierarchy h h'" "others h' w' = others h w"
    using i(1) l m by (cases rule: map_range_cases; use i in \<open>auto simp: keeps_out_def\<close>)+
  have "draws P st h w h' w'" using d(1) P(2) unfolding draws_def by blast
  from draws_enough [OF k(1) this k(3)] have "st = PAGING_STATUS_OK" using s P(1) d(2) by (auto simp: supplied_def)
  moreover have "room h' w' = room h w" using d(1) k(3) by (simp add: room_def draws_def)
  then have "supplied P h' w'"
    using s d(1) P(2) k(1,2) unfolding supplied_def draws_def same_hierarchy_def by auto
  ultimately show ?thesis using m by blast
qed


abbreviation needs_table :: "kernel_image \<Rightarrow> paging_device_windows \<Rightarrow> u64 \<Rightarrow> bool" where
  "needs_table ki windows b \<equiv> region_needs_page_table windows b (ki_kernel_start ki) (ki_kernel_end ki)"

definition identity_paths :: "kernel_image \<Rightarrow> paging_device_windows \<Rightarrow> nat list set" where
  "identity_paths ki windows = (\<Union>b \<in> set identity_bases. walk_paths b (if needs_table ki windows b then 1 else 2))"

lemma low_canonical: "unat a < 2 ^ 32 \<Longrightarrow> address_is_canonical a"
  by (simp add: canonical_iff)

lemma region_walk_paths:
  assumes "2 ^ 21 dvd unat b" "unat b < 2 ^ 32" and "2 ^ 12 dvd unat x" "unat x < 2 ^ 21"
  shows "walk_paths (b + x) 1 = walk_paths b 1" and "unat (b + x) < 2 ^ 32"
proof -
  note u = unat_base_offset(1) [OF assms(1,3,4)]
  obtain k where k: "unat b = 2 ^ 21 * k" using assms(1) by blast
  then have "k < 2 ^ 11" using assms(2) by simp
  then show l: "unat (b + x) < 2 ^ 32" unfolding u k using assms(4) by simp
  have "unat (b + x) div 2 ^ 21 = unat b div 2 ^ 21" unfolding u k using assms(4) by simp
  then have "same_slot 2 (b + x) b"
    using same_slot_page [OF low_canonical [OF l] low_canonical [OF assms(2)], of 2] by simp
  then have "vpath (b + x) 4 j = vpath b 4 j" if "1 \<le> j" "j \<le> 4" for j
    using that vpath_eq_iff [of j "b + x" b] by (auto simp: same_slot_def)
  then show "walk_paths (b + x) 1 = walk_paths b 1" by (auto simp: walk_paths_def)
qed

lemma build_fine_region_succeeds:
  assumes P: "finite P" "walk_paths b 1 \<subseteq> P" and b: "2 ^ 21 dvd unat b" "unat b < 2 ^ 32" and pat: "pat_ok pat"
    and p: "\<forall>a. validate_permissions (section_permissions sections windows a) = PAGING_STATUS_OK"
    and "supplied P h w" and "distinct xs" and "\<forall>x \<in> set xs. 2 ^ 12 dvd unat x \<and> unat x < 2 ^ 21"
    and "\<forall>x \<in> set xs. translate_address h (b + x) pat w = unmapped"
  shows "\<exists>h' w'. build_fine_region sections windows b h w xs = (PAGING_STATUS_OK, h', w') \<and> supplied P h' w'"
  using assms(7-)
proof (induction xs arbitrary: h w)
  case (Cons x xs)
  show ?case
  proof (cases "b + x = 0")
    case True
    then show ?thesis using Cons.IH [OF Cons.prems(1)] Cons.prems(2-) by (simp add: Let_def)
  next
    case False
    have x: "2 ^ 12 dvd unat x" "unat x < 2 ^ 21" using Cons.prems(3) by simp_all
    note r = region_walk_paths [OF b x]
    have al: "2 ^ page_shift 1 dvd unat (b + x)" using unat_base_offset(2) [OF b(1) x] by simp
    have l: "(1 :: nat) \<le> 1" "(1 :: nat) \<le> 2" by simp_all
    have i: "hier_inv h w" using Cons.prems(1) by (simp add: supplied_def)
    have vac: "vacant (pw_tables w) (h_root h) (b + x) 1"
      by (rule unmapped_vacant(1) [OF low_canonical [OF r(2)], of _ pat]) (use Cons.prems(4) in simp)
    have "walk_paths (b + x) 1 \<subseteq> P" using P(2) r(1) by simp
    from identity_page_mapped [OF Cons.prems(1) P(1) this l al r(2) spec [OF p] vac, folded page_size_1]
    obtain h1 w1 where m: "map_range h (b + x) (b + x) PAGING_PAGE_SIZE (section_permissions sections windows (b + x)) 1 w
        = (PAGING_STATUS_OK, h1, w1)" and s1: "supplied P h1 w1" by blast
    note t = map_range_translations(2) [OF i l pat m]
    have "translate_address h1 (b + y) pat w1 = unmapped" if y: "y \<in> set xs" for y
    proof -
      have y': "2 ^ 12 dvd unat y" "unat y < 2 ^ 21" "y \<noteq> x" using Cons.prems(2,3) y by auto
      have "(b + y) AND NOT (mask 12) = b + y"
        using unat_base_offset(2) [OF b(1) y'(1,2)] page_containing [of 12 "b + y" PAGING_PAGE_SIZE "b + y"]
        by (simp add: in_range_def PAGING_PAGE_SIZE_def)
      then have "\<not> in_range (b + x) PAGING_PAGE_SIZE (b + y)"
        using page_containing [of 12 "b + x" PAGING_PAGE_SIZE "b + y"] unat_base_offset(2) [OF b(1) x] y'(3)
        by (simp add: PAGING_PAGE_SIZE_def)
      then show ?thesis using t Cons.prems(4) y by simp
    qed
    then have "\<exists>h' w'. build_fine_region sections windows b h1 w1 xs = (PAGING_STATUS_OK, h', w') \<and> supplied P h' w'"
      using Cons.IH [OF s1] Cons.prems(2,3) by simp
    then show ?thesis using m False by (simp add: Let_def)
  qed
qed simp

lemma build_regions_succeeds:
  assumes P: "finite P" and pat: "pat_ok pat"
    and p: "\<forall>a. validate_permissions (section_permissions sections windows a) = PAGING_STATUS_OK"
    and paths: "\<forall>b \<in> set bs. walk_paths b (if needs_table ki windows b then 1 else 2) \<subseteq> P
      \<and> (\<not> needs_table ki windows b \<longrightarrow> vpath b 4 1 \<notin> P)"
    and "supplied P h w" and "distinct bs" and "\<forall>b \<in> set bs. 2 ^ 21 dvd unat b \<and> unat b < 2 ^ 32"
    and "\<forall>a. a AND NOT (mask 21) \<in> set bs \<longrightarrow> translate_address h a pat w = unmapped"
  shows "\<exists>n' h' w'. build_regions ki sections windows n h w bs = (n', PAGING_STATUS_OK, h', w') \<and> supplied P h' w'"
  using assms(4-)
proof (induction bs arbitrary: n h w)
  case (Cons b bs)
  have b: "2 ^ 21 dvd unat b" "unat b < 2 ^ 32" using Cons.prems(4) by simp_all
  have i: "hier_inv h w" using Cons.prems(2) by (simp add: supplied_def)
  have base: "b AND NOT (mask 21) = b"
    using page_containing [OF b(1), of PAGING_HUGE_PAGE_SIZE b] by (simp add: in_range_def PAGING_HUGE_PAGE_SIZE_def)
  have "\<exists>n1 h1 w1. supplied P h1 w1 \<and> adds pat (region_pages ki sections windows b) h w h1 w1
     \<and> build_regions ki sections windows n h w (b # bs) = build_regions ki sections windows n1 h1 w1 bs"
  proof (cases "needs_table ki windows b")
    case True
    let ?xs = "range_offsets PAGING_HUGE_PAGE_SIZE PAGING_PAGE_SIZE"
    have "translate_address h (b + x) pat w = unmapped" if "x \<in> set ?xs" for x
      using Cons.prems(5) unat_base_offset(3) [OF b(1)] that fine_offsets_in by simp
    moreover have "walk_paths b 1 \<subseteq> P" using Cons.prems(1) True by simp
    ultimately obtain h1 w1 where m: "build_fine_region sections windows b h w ?xs = (PAGING_STATUS_OK, h1, w1)" "supplied P h1 w1"
      using build_fine_region_succeeds [OF P _ b pat p Cons.prems(2) identity_distinct(2)] fine_offsets_in by blast
    then show ?thesis
      using build_fine_region_adds [OF i pat m(1)] True
      by (intro exI [of _ "Suc n"] exI [of _ h1] exI [of _ w1]) (simp add: region_pages_def)
  next
    case False
    have l: "(1 :: nat) \<le> 2" "(2 :: nat) \<le> 2" by simp_all
    have al: "2 ^ page_shift 2 dvd unat b" using b(1) by simp
    have un: "translate_address h b pat w = unmapped" using Cons.prems(5) base by simp
    have "vpath b 4 1 \<notin> present h w" using Cons.prems(1,2) False by (auto simp: supplied_def)
    then have vac: "vacant (pw_tables w) (h_root h) b 2" using unmapped_vacant(2) [OF low_canonical [OF b(2)] un] by blast
    have "validate_permissions PAGING_WRITE = PAGING_STATUS_OK" by code_simp
    moreover have "walk_paths b 2 \<subseteq> P" using Cons.prems(1) False by simp
    moreover have "level_page_size 2 = PAGING_HUGE_PAGE_SIZE" by code_simp
    ultimately obtain h1 w1 where
      m: "map_range h b b PAGING_HUGE_PAGE_SIZE PAGING_WRITE 2 w = (PAGING_STATUS_OK, h1, w1)" "supplied P h1 w1"
      using identity_page_mapped [OF Cons.prems(2) P _ l al b(2) _ vac, of PAGING_WRITE] by auto
    then show ?thesis
      using map_range_adds [OF i l pat m(1)] False
      by (intro exI [of _ n] exI [of _ h1] exI [of _ w1]) (simp add: region_pages_def)
  qed
  then obtain n1 h1 w1 where s1: "supplied P h1 w1" and a: "adds pat (region_pages ki sections windows b) h w h1 w1"
    and eq: "build_regions ki sections windows n h w (b # bs) = build_regions ki sections windows n1 h1 w1 bs" by blast
  have "translate_address h1 c pat w1 = unmapped" if c: "c AND NOT (mask 21) \<in> set bs" for c
  proof -
    have "c AND NOT (mask 21) \<noteq> b" using c Cons.prems(3) by auto
    then have "region_pages ki sections windows b c = None" by (simp add: region_pages_eq [OF b(1)])
    then have "translate_address h1 c pat w1 = translate_address h c pat w"
      by (rule adds_None [OF a])
    then show ?thesis using Cons.prems(5) c by simp
  qed
  then show ?case unfolding eq using Cons.IH [OF _ s1] Cons.prems(1,3,4) by simp
qed simp

lemma table_index_low:
  assumes "unat a < 2 ^ 32" shows "table_index a 4 = 0" and "table_index a 3 < 4"
proof -
  have "unat a div 2 ^ 39 = 0" using assms by simp
  then show "table_index a 4 = 0" unfolding table_index_eq by simp
  have "unat a div 2 ^ 30 < 4" using assms by (simp add: div_less_iff_less_mult)
  then show "table_index a 3 < 4" unfolding table_index_eq by simp
qed

lemma walk_paths_cases:
  assumes "p \<in> walk_paths a l" and "1 \<le> l" and "unat a < 2 ^ 32"
  shows "p = [] \<or> p = [0] \<or> (\<exists>i < 4. p = [0, i]) \<or> l = 1 \<and> p = vpath a 4 1"
proof -
  from assms(1) obtain j where j: "l \<le> j" "j \<le> 4" "p = vpath a 4 j" by (auto simp: walk_paths_def)
  note t = table_index_low [OF assms(3)]
  have v: "vpath a 4 3 = [0]" "vpath a 4 2 = [0, table_index a 3]"
    by (simp_all add: vpath_Cons t)
  consider "j = 4" | "j = 3" | "j = 2" | "j = 1" using j(1,2) assms(2) by linarith
  then show ?thesis using j assms(2) v t by cases auto
qed

lemma identity_paths_bound:
  "finite (identity_paths ki windows)"
  "card (identity_paths ki windows) \<le> 6 + length (filter (needs_table ki windows) identity_bases)"
proof -
  let ?fine = "set (filter (needs_table ki windows) identity_bases)"
  let ?Q = "{[], [0]} \<union> (\<lambda>i. [0, i]) ` {..<4} \<union> (\<lambda>b. vpath b 4 1) ` ?fine"
  have sub: "identity_paths ki windows \<subseteq> ?Q"
  proof
    fix p assume "p \<in> identity_paths ki windows"
    then obtain b where b: "b \<in> set identity_bases" "p \<in> walk_paths b (if needs_table ki windows b then 1 else 2)"
      by (auto simp: identity_paths_def)
    have "p = [] \<or> p = [0] \<or> (\<exists>i < 4. p = [0, i]) \<or> (if needs_table ki windows b then 1 else 2 :: nat) = 1 \<and> p = vpath b 4 1"
      by (rule walk_paths_cases [OF b(2)]) (use b(1) identity_bases_in in simp_all)
    then have "p = [] \<or> p = [0] \<or> (\<exists>i < 4. p = [0, i]) \<or> needs_table ki windows b \<and> p = vpath b 4 1"
      by (auto split: if_split_asm)
    then show "p \<in> ?Q" using b(1) by auto
  qed
  then show "finite (identity_paths ki windows)" by (rule finite_subset) simp
  have "card ?Q \<le> card ({[], [0]} \<union> (\<lambda>i. [0, i]) ` {..<4 :: nat}) + card ((\<lambda>b. vpath b 4 1) ` ?fine)" by (rule card_Un_le)
  also have "card ({[], [0]} \<union> (\<lambda>i. [0, i]) ` {..<4 :: nat}) \<le> card {[], [0 :: nat]} + card ((\<lambda>i. [0, i]) ` {..<4 :: nat})"
    by (rule card_Un_le)
  also have "card {[], [0 :: nat]} = 2" by simp
  also have "card ((\<lambda>i. [0, i]) ` {..<4 :: nat}) \<le> 4" using card_image_le [of "{..<4 :: nat}" "\<lambda>i. [0, i]"] by simp
  also have "card ((\<lambda>b. vpath b 4 1) ` ?fine) \<le> length (filter (needs_table ki windows) identity_bases)"
    using card_image_le [of ?fine "\<lambda>b. vpath b 4 1"] card_length [of "filter (needs_table ki windows) identity_bases"]
    by (meson List.finite_set order_trans)
  finally have "card ?Q \<le> 6 + length (filter (needs_table ki windows) identity_bases)" by simp
  moreover have "finite ?Q" by simp
  ultimately show "card (identity_paths ki windows) \<le> 6 + length (filter (needs_table ki windows) identity_bases)"
    using card_mono [OF _ sub] by (meson order_trans)
qed

lemma identity_paths_coarse:
  assumes "b \<in> set identity_bases" and "\<not> needs_table ki windows b"
  shows "vpath b 4 1 \<notin> identity_paths ki windows"
proof
  assume "vpath b 4 1 \<in> identity_paths ki windows"
  then obtain c j where c: "c \<in> set identity_bases" "(if needs_table ki windows c then 1 else 2) \<le> j" "j \<le> 4"
    "vpath b 4 1 = vpath c 4 j" by (auto simp: identity_paths_def walk_paths_def)
  have "length (vpath b 4 1) = length (vpath c 4 j)" using c(4) by simp
  then have j: "j = 1" using c(3) by simp
  then have n: "needs_table ki windows c" using c(2) by (auto split: if_split_asm)
  have "same_slot 2 b c" using c(4) vpath_eq_iff [of 1 b c] by (simp add: j numeral_2_eq_2)
  moreover have low: "unat b < 2 ^ 32" "unat c < 2 ^ 32" "2 ^ 21 dvd unat b" "2 ^ 21 dvd unat c"
    using assms(1) c(1) identity_bases_in by blast+
  ultimately have "unat b div 2 ^ 21 = unat c div 2 ^ 21"
    using same_slot_page [OF low_canonical low_canonical, of b c 2] by simp
  then have "unat b = unat c" using low(3,4) by (metis dvd_div_mult_self)
  then have "b = c" by (rule word_unat_eq_iff [THEN iffD2])
  then show False using assms(2) n by blast
qed


subsection \<open>Permissions\<close>

lemma find_Some: "find Q xs = Some x \<Longrightarrow> x \<in> set xs \<and> Q x"
  by (auto simp: find_Some_iff)

lemma window_permissions:
  assumes "validate_device_window_entry v = PAGING_STATUS_OK"
  shows "validate_permissions (device_window_mapping_permissions v) = PAGING_STATUS_OK"
    and "mapping_type (device_window_mapping_permissions v) = dw_memory_type v"
    and "\<not> bit (device_window_mapping_permissions v) 1"
proof -
  have t: "dw_memory_type v \<in> {PAGING_MEMORY_WRITE_BACK, PAGING_MEMORY_WRITE_COMBINING, PAGING_MEMORY_UNCACHEABLE}"
    using assms unfolding validate_device_window_entry_def by (auto simp: device_memory_type_supported_def split: if_split_asm)
  let ?S = "{(PAGING_MEMORY_WRITE_BACK, 0), (PAGING_MEMORY_WRITE_BACK, 1), (PAGING_MEMORY_WRITE_COMBINING, 8),
      (PAGING_MEMORY_WRITE_COMBINING, 9), (PAGING_MEMORY_UNCACHEABLE, 4), (PAGING_MEMORY_UNCACHEABLE, 5)}"
  have "(dw_memory_type v, device_window_mapping_permissions v) \<in> ?S"
    using t by (auto simp: device_window_mapping_permissions_def Let_def PAGING_READ_def PAGING_WRITE_def
      PAGING_UNCACHED_def PAGING_WRITE_COMBINING_def)
  moreover have "\<forall>(t, d) \<in> ?S. validate_permissions d = PAGING_STATUS_OK \<and> mapping_type d = t \<and> \<not> bit d 1"
    by code_simp
  ultimately show "validate_permissions (device_window_mapping_permissions v) = PAGING_STATUS_OK"
    "mapping_type (device_window_mapping_permissions v) = dw_memory_type v"
    "\<not> bit (device_window_mapping_permissions v) 1"
    by (blast dest: bspec)+
qed

lemma kernel_section_permissions:
  "s \<in> set (collect_kernel_sections ki) \<Longrightarrow> ps_permissions s \<in> {PAGING_READ, PAGING_EXECUTE, PAGING_WRITE}"
  by (auto simp: collect_kernel_sections_def add_section_def Let_def split: if_split_asm)

lemma section_permissions_ok:
  fixes ki :: kernel_image
  assumes "\<forall>v \<in> set windows. validate_device_window_entry v = PAGING_STATUS_OK"
  defines "p \<equiv> section_permissions (collect_kernel_sections ki) windows"
  shows "validate_permissions (p a) = PAGING_STATUS_OK"
    and "mapping_type (p a) = (case device_window_at windows a of Some v \<Rightarrow> dw_memory_type v | None \<Rightarrow> PAGING_MEMORY_WRITE_BACK)"
proof -
  have "p a \<in> {PAGING_READ, PAGING_EXECUTE, PAGING_WRITE}" if "device_window_at windows a = None"
    using that kernel_section_permissions [of _ ki]
    by (auto simp: p_def section_permissions_def split: option.split dest: find_Some)
  moreover have "p a = device_window_mapping_permissions v \<and> validate_device_window_entry v = PAGING_STATUS_OK"
    if "device_window_at windows a = Some v" for v
    using that find_Some assms(1) by (fastforce simp: p_def section_permissions_def device_window_at_def)
  moreover have "validate_permissions PAGING_READ = PAGING_STATUS_OK" "validate_permissions PAGING_EXECUTE = PAGING_STATUS_OK"
    "validate_permissions PAGING_WRITE = PAGING_STATUS_OK" "mapping_type PAGING_READ = PAGING_MEMORY_WRITE_BACK"
    "mapping_type PAGING_EXECUTE = PAGING_MEMORY_WRITE_BACK" "mapping_type PAGING_WRITE = PAGING_MEMORY_WRITE_BACK"
    by code_simp+
  ultimately show "validate_permissions (p a) = PAGING_STATUS_OK"
    "mapping_type (p a) = (case device_window_at windows a of Some v \<Rightarrow> dw_memory_type v | None \<Rightarrow> PAGING_MEMORY_WRITE_BACK)"
    using window_permissions(1,2) by (cases "device_window_at windows a"; auto)+
qed


subsection \<open>The map\<close>

lemma build_identity_map_succeeds:
  assumes inv: "hier_inv h w" and empty: "empty_table (pw_tables w) (h_root h)" and cap: "h_arena_capacity h = 0"
    and windows: "\<forall>v \<in> set windows. validate_device_window_entry v = PAGING_STATUS_OK"
    and room: "5 + length (filter (needs_table ki windows) identity_bases) \<le> card (free_set (pw_frames w))"
  shows "\<exists>n h' w'. build_identity_map ki (collect_kernel_sections ki) windows h w = (n, PAGING_STATUS_OK, h', w')"
proof -
  let ?P = "identity_paths ki windows"
  note P = identity_paths_bound [of ki windows]
  have "[] \<in> ?P"
  proof -
    have "0 \<in> set identity_bases" by (simp add: identity_bases_in)
    moreover have "[] \<in> walk_paths 0 (if needs_table ki windows 0 then 1 else 2)"
      by (auto simp: walk_paths_def intro: image_eqI [of _ _ 4])
    ultimately show ?thesis unfolding identity_paths_def by blast
  qed
  then have s: "supplied ?P h w"
    using inv cap empty_root_room [OF inv empty cap] P(2) room by (simp add: supplied_def)
  have paths: "\<forall>b \<in> set identity_bases. walk_paths b (if needs_table ki windows b then 1 else 2) \<subseteq> ?P
      \<and> (\<not> needs_table ki windows b \<longrightarrow> vpath b 4 1 \<notin> ?P)"
    using identity_paths_coarse unfolding identity_paths_def by blast
  have perms: "\<forall>a. validate_permissions (section_permissions (collect_kernel_sections ki) windows a) = PAGING_STATUS_OK"
    using section_permissions_ok(1) [OF windows] by blast
  have low: "\<forall>b \<in> set identity_bases. 2 ^ 21 dvd unat b \<and> unat b < 2 ^ 32" using identity_bases_in by blast
  have "translate_address h a PAGING_TEST_PAT w = unmapped" if "a AND NOT (mask 21) \<in> set identity_bases" for a
  proof -
    have "unat a div 2 ^ 21 * 2 ^ 21 < 2 ^ 32"
      using that identity_bases_in by (simp add: unat_and_not_mask minus_mod_eq_div_mult)
    then have "unat a < 2 ^ 32" by (simp add: div_less_iff_less_mult)
    then show ?thesis by (rule empty_translate [OF empty low_canonical])
  qed
  then have "\<exists>n' h' w'. build_regions ki (collect_kernel_sections ki) windows 0 h w identity_bases
      = (n', PAGING_STATUS_OK, h', w') \<and> supplied ?P h' w'"
    by (intro build_regions_succeeds [OF P(1) test_pat perms paths s identity_distinct(1) low]) blast
  then show ?thesis unfolding build_identity_map_def by blast
qed

lemma validate_identity_map_built:
  assumes "\<forall>v \<in> set windows. validate_device_window_entry v = PAGING_STATUS_OK"
    and "\<forall>a. unat a < 2 ^ 32 \<longrightarrow> translate_address h a pat w = identity_translation ki (collect_kernel_sections ki) windows a"
  shows "validate_identity_map ki (collect_kernel_sections ki) windows h pat w = PAGING_STATUS_OK"
proof -
  let ?S = "collect_kernel_sections ki"
  have lim: "\<not> a \<ge> SAPOTE_EARLY_PHYSICAL_LIMIT" if "unat a < 2 ^ 32" for a using below_limit [OF that] .
  have coarse: "validate_coarse_region h pat w b"
    if b: "b \<in> set identity_bases" "\<not> needs_table ki windows b" for b
  proof -
    have l: "unat b < 2 ^ 32" "2 ^ 21 dvd unat b" using b(1) identity_bases_in by blast+
    have "b AND NOT (mask 21) = b"
      using page_containing [OF l(2), of PAGING_HUGE_PAGE_SIZE b] by (simp add: in_range_def PAGING_HUGE_PAGE_SIZE_def)
    then have "translate_address h b pat w = (PAGING_STATUS_OK, mapping b PAGING_WRITE 2)"
      using assms(2) l(1) lim [OF l(1)] b(2) by (simp add: identity_translation_def page_size_mask)
    moreover have "mapping_type PAGING_WRITE = PAGING_MEMORY_WRITE_BACK" by code_simp
    ultimately show ?thesis by (simp add: validate_coarse_region_def mapping_def)
  qed
  have fine: "validate_fine_page ?S windows h pat w (b + x)"
    if b: "b \<in> set identity_bases" "needs_table ki windows b" "x \<in> set (range_offsets PAGING_HUGE_PAGE_SIZE PAGING_PAGE_SIZE)" for b x
  proof -
    have l: "2 ^ 21 dvd unat b" "unat b < 2 ^ 32" "2 ^ 12 dvd unat x" "unat x < 2 ^ 21"
      using b(1,3) identity_bases_in fine_offsets_in by blast+
    note u = unat_base_offset(2,3) [OF l(1,3,4)] and low = region_walk_paths(2) [OF l]
    have page: "(b + x) AND NOT (mask 12) = b + x"
      using page_containing [OF u(1), of PAGING_PAGE_SIZE "b + x"] by (simp add: in_range_def PAGING_PAGE_SIZE_def)
    have zero: "b + x < PAGING_PAGE_SIZE \<longleftrightarrow> b + x = 0"
    proof
      assume "b + x < PAGING_PAGE_SIZE"
      then have "unat (b + x) < 2 ^ 12" by (simp add: word_less_nat_alt PAGING_PAGE_SIZE_def)
      then have "unat (b + x) = 0" using u(1) by (meson dvd_imp_le not_le zero_less_iff_neq_zero)
      then show "b + x = 0" by (simp only: unat_eq_0)
    qed (simp add: PAGING_PAGE_SIZE_def)
    have "translate_address h (b + x) pat w = (if b + x = 0 then unmapped
        else (PAGING_STATUS_OK, mapping (b + x) (section_permissions ?S windows (b + x)) 1))"
      using assms(2) low lim [OF low] b(2) u(2) page zero by (simp add: identity_translation_def page_size_mask)
    then show ?thesis
      using section_permissions_ok(2) [OF assms(1), of ki "b + x"]
      by (auto simp: validate_fine_page_def mapping_def Let_def split: option.splits)
  qed
  show ?thesis unfolding validate_identity_map_def using coarse fine by (simp add: list_all_iff)
qed

subsection \<open>Properties\<close>

text \<open> C31. A successful build of the identity map gives every address the translation that the intent
  says and no other: below 4 GiB each address maps to itself, with a 2 MiB page where the region
  holds neither the kernel nor a device window, and otherwise page by page with the rights and memory
  type of its window or section; the first page of a fine region at zero stays absent, and so does
  everything from 4 GiB on. The page-by-page reading back that precedes the switch then accepts it.\<close>

theorem build_identity_map_exact:
  assumes "hier_inv h w" and "empty_table (pw_tables w) (h_root h)" and "pat_ok pat"
    and "\<forall>v \<in> set windows. validate_device_window_entry v = PAGING_STATUS_OK"
    and "build_identity_map ki (collect_kernel_sections ki) windows h w = (n, PAGING_STATUS_OK, h', w')"
  shows "hier_inv h' w'
     \<and> (\<forall>a. address_is_canonical a \<longrightarrow>
          translate_address h' a pat w' = identity_translation ki (collect_kernel_sections ki) windows a)
     \<and> validate_identity_map ki (collect_kernel_sections ki) windows h' pat w' = PAGING_STATUS_OK"
proof -
  note t = build_identity_map_translations [OF assms(1-3,5)]
  have "validate_identity_map ki (collect_kernel_sections ki) windows h' pat w' = PAGING_STATUS_OK"
    using t(4) low_canonical by (intro validate_identity_map_built [OF assms(4)]) blast
  then show ?thesis using t(1,4) by blast
qed

definition sample_image :: kernel_image where
  "sample_image = \<lparr>ki_kernel_start = 0x200000, ki_kernel_end = 0x300000, ki_text_start = 0x201000,
     ki_text_end = 0x240000, ki_rodata_start = 0x240000, ki_rodata_end = 0x260000, ki_data_start = 0x260000\<rparr>"

lemma sample_windows_valid: "\<forall>v \<in> set sample_windows. validate_device_window_entry v = PAGING_STATUS_OK"
  by code_simp

lemma identity_bases_length: "length identity_bases = 2048"
proof -
  have "(4294967296 + (2097152 - 1)) div 2097152 = (2048 :: nat)" by simp
  then show ?thesis
    unfolding identity_bases_def range_offsets_def length_map length_upt
    by (simp add: SAPOTE_EARLY_PHYSICAL_LIMIT_def PAGING_HUGE_PAGE_SIZE_def)
qed

lemma sample_free: "4000 \<le> card (free_set sample_frames)"
proof -
  have "{1000..<5000} \<subseteq> free_set sample_frames" using sample_eligible by (auto simp: FRAME_COUNT_eq)
  then have "card {1000..<5000 :: nat} \<le> card (free_set sample_frames)"
    by (rule card_mono [rotated]) (rule finite_subset [OF frame_set_bounds(1)], simp)
  then show ?thesis by simp
qed

lemma framed_root_room:
  obtains h w where "hier_inv h w" and "h_arena_capacity h = 0" and "empty_table (pw_tables w) (h_root h)"
    and "2053 \<le> card (free_set (pw_frames w))"
proof -
  have f: "pw_frames framed_world = sample_frames" by (simp add: framed_world_def)
  have cap: "h_arena_capacity bare_hierarchy = 0" "h_table_frames bare_hierarchy = 0" by (simp_all add: bare_hierarchy_def)
  have "frame_pool_inv (pw_frames framed_world)" "free_set (pw_frames framed_world) \<noteq> {}"
    using sample_frames_facts(3,4,6) by (simp_all add: f frame_pool_inv_def)
  then obtain n h1 w1 where a: "allocate_table bare_hierarchy framed_world = (PAGING_STATUS_OK, Some n, h1, w1)"
    using allocate_table_frames [OF cap(1), of framed_world] by blast
  note r = allocated_root [OF framed_pool cap(2) a]
  have s: "h_arena_capacity h1 = 0" using r(3) cap(1) by (simp add: same_hierarchy_def)
  have "table_free (h1, w1) = table_free (bare_hierarchy, framed_world) - {n}"
    using allocate_table_OK [OF framed_pool a] by auto
  then have "frame_addresses (free_set (pw_frames w1)) = frame_addresses (free_set sample_frames) - {n}"
    using s cap(1) f by (simp add: table_free_def)
  then have "card (frame_addresses (free_set sample_frames)) - 1 \<le> card (frame_addresses (free_set (pw_frames w1)))"
    using diff_card_le_card_Diff [of "{n}" "frame_addresses (free_set sample_frames)"] by simp
  then have "2053 \<le> card (free_set (pw_frames w1))"
    using sample_free by (simp add: frame_addresses_card [OF frame_set_bounds(1)])
  then show thesis using r(1,4) s by (intro that [of "h1\<lparr>h_root := n\<rparr>" w1]) simp_all
qed

lemma sample_identity_map:
  obtains h w n h' w' where "hier_inv h w" "empty_table (pw_tables w) (h_root h)" "h_arena_capacity h = 0"
    "5 + length (filter (needs_table sample_image sample_windows) identity_bases) \<le> card (free_set (pw_frames w))"
    "build_identity_map sample_image (collect_kernel_sections sample_image) sample_windows h w = (n, PAGING_STATUS_OK, h', w')"
proof -
  obtain h w where r: "hier_inv h w" "h_arena_capacity h = 0" "empty_table (pw_tables w) (h_root h)"
    "2053 \<le> card (free_set (pw_frames w))" by (rule framed_root_room)
  then have room: "5 + length (filter (needs_table sample_image sample_windows) identity_bases) \<le> card (free_set (pw_frames w))"
    using length_filter_le [of "needs_table sample_image sample_windows" identity_bases] by (simp add: identity_bases_length)
  from build_identity_map_succeeds [OF r(1,3,2) sample_windows_valid this] show thesis using that r(1,3,2) room by blast
qed

theorem build_identity_map_exact_witness:
  "\<exists>h w n h' w'. build_identity_map sample_image (collect_kernel_sections sample_image) sample_windows h w
       = (n, PAGING_STATUS_OK, h', w')
     \<and> translate_address h' 0 PAGING_TEST_PAT w' = (PAGING_STATUS_NOT_MAPPED, no_translation)
     \<and> translate_address h' 0x201040 PAGING_TEST_PAT w' = (PAGING_STATUS_OK, mapping 0x201040 PAGING_EXECUTE 1)
     \<and> translate_address h' 0xFEE00020 PAGING_TEST_PAT w'
         = (PAGING_STATUS_OK, mapping 0xFEE00020 (PAGING_WRITE OR PAGING_UNCACHED) 1)"
proof -
  obtain h w n h' w' where b: "hier_inv h w" "empty_table (pw_tables w) (h_root h)"
    "build_identity_map sample_image (collect_kernel_sections sample_image) sample_windows h w = (n, PAGING_STATUS_OK, h', w')"
    by (rule sample_identity_map)
  have c: "address_is_canonical 0" "address_is_canonical 0x201040" "address_is_canonical 0xFEE00020" by (simp_all add: canonical_iff)
  have "identity_translation sample_image (collect_kernel_sections sample_image) sample_windows 0 = unmapped"
    "identity_translation sample_image (collect_kernel_sections sample_image) sample_windows 0x201040
       = (PAGING_STATUS_OK, mapping 0x201040 PAGING_EXECUTE 1)"
    "identity_translation sample_image (collect_kernel_sections sample_image) sample_windows 0xFEE00020
       = (PAGING_STATUS_OK, mapping 0xFEE00020 (PAGING_WRITE OR PAGING_UNCACHED) 1)"
    by code_simp+
  then show ?thesis using build_identity_map_exact [OF b(1,2) test_pat sample_windows_valid b(3)] b(3) c by metis
qed

text \<open> C32. The build completes whenever enough frames are free: one for each region that needs a page
  table and five more, beside the root, for the levels above.\<close>

theorem build_identity_map_completes:
  assumes "hier_inv h w" and "empty_table (pw_tables w) (h_root h)" and "h_arena_capacity h = 0"
    and "\<forall>v \<in> set windows. validate_device_window_entry v = PAGING_STATUS_OK"
    and "5 + length (filter (\<lambda>base. region_needs_page_table windows base (ki_kernel_start ki) (ki_kernel_end ki)) identity_bases)
           \<le> card (free_set (pw_frames w))"
  shows "\<exists>n h' w'. build_identity_map ki (collect_kernel_sections ki) windows h w = (n, PAGING_STATUS_OK, h', w')"
  by (rule build_identity_map_succeeds [OF assms])

theorem build_identity_map_completes_witness:
  "\<exists>h w n h' w'. build_identity_map sample_image (collect_kernel_sections sample_image) sample_windows h w
       = (n, PAGING_STATUS_OK, h', w')"
proof -
  obtain h w where b: "hier_inv h w" "empty_table (pw_tables w) (h_root h)" "h_arena_capacity h = 0"
    "5 + length (filter (needs_table sample_image sample_windows) identity_bases) \<le> card (free_set (pw_frames w))"
    by (rule sample_identity_map)
  from build_identity_map_completes [OF b(1-3) sample_windows_valid b(4)] show ?thesis by blast
qed

end
