(* ===== verification/Kernel_Paging.thy ===== *)
theory Kernel_Paging
  imports Identity_Map
begin

text \<open>
  The kernel's own address space, the second half of \<open>src/src/kernel/paging.c\<close>: the file-scope
  state, the supervisor intents, \<open>paging_map\<close>, \<open>paging_unmap\<close>, \<open>paging_protect\<close> and
  \<open>paging_translate\<close> on the live hierarchy, the verification of what is installed, and
  \<open>paging_initialize\<close>. The lemmas show that every call keeps the invariant of the state, that the
  live hierarchy is an address space in the sense of the locale \<open>address_space\<close>, and what
  \<open>paging_verify\<close> decides.
\<close>

subsection \<open>The processor\<close>

text \<open>
  The registers the paging code reads and writes. What a register holds after a write is the
  processor's business (reserved bits, a feature that does not turn on), so a \<open>processor\<close> gives for
  every register the value it settles on; the code reads it back where it relies on it.
\<close>

datatype cpu_register = CR0 | CR3 | CR4 | MSR u32

record processor =
  px_cpuid :: "u32 \<Rightarrow> u32 \<Rightarrow> u32 \<times> u32 \<times> u32 \<times> u32"
  px_settle :: "cpu_register \<Rightarrow> u64 \<Rightarrow> u64 \<Rightarrow> u64"

record cpu =
  cpu_registers :: "cpu_register \<Rightarrow> u64"
  cpu_interrupt_flag :: bool
  cpu_cache_flushes :: nat

definition cpu_write :: "processor \<Rightarrow> cpu_register \<Rightarrow> u64 \<Rightarrow> cpu \<Rightarrow> cpu" where
  "cpu_write px r v c = c\<lparr>cpu_registers := (cpu_registers c)(r := px_settle px r (cpu_registers c r) v)\<rparr>"

definition cpu_write_back_and_invalidate_cache :: "cpu \<Rightarrow> cpu" where
  "cpu_write_back_and_invalidate_cache c = c\<lparr>cpu_cache_flushes := cpu_cache_flushes c + 1\<rparr>"

definition IA32_EFER_MSR :: u32 where "IA32_EFER_MSR = 0xC0000080"
definition EFER_NO_EXECUTE_ENABLE :: u64 where "EFER_NO_EXECUTE_ENABLE = 0x800"
definition CR0_WRITE_PROTECT :: u64 where "CR0_WRITE_PROTECT = 0x10000"
definition IA32_PAT_MSR :: u32 where "IA32_PAT_MSR = 0x277"
definition CPUID_BASIC_FEATURES :: u32 where "CPUID_BASIC_FEATURES = 1"
definition CPUID_EXTENDED_ROOT :: u32 where "CPUID_EXTENDED_ROOT = 0x80000000"
definition PAGING_SUPERVISOR_INTENT_CAPACITY :: nat where "PAGING_SUPERVISOR_INTENT_CAPACITY = 8192"

subsection \<open>State\<close>

record paging_state =
  st_root_physical_address :: u64
  st_table_frames :: u64
  st_fine_regions :: nat
  st_pat_before :: u64
  st_pat_after :: u64
  st_write_combining_pat_entry :: nat
  st_no_execute_active :: bool
  st_write_protect_active :: bool
  st_active :: bool

record supervisor_mapping_intent =
  si_virtual_address :: u64
  si_physical_address :: u64
  si_length :: u64
  si_permissions :: u32

text \<open>
  The file-scope state of \<open>paging.c\<close>, with the memory of the tables, the frame allocator and the
  processor beside it. \<open>supervisor_intents\<close> with its count is a list, and so are the sections.
\<close>

record paging_kernel =
  pk_state :: paging_state
  pk_live_hierarchy :: page_hierarchy
  pk_kernel_sections :: "paging_section list"
  pk_installed_device_windows :: paging_device_windows
  pk_fine_region_count :: nat
  pk_supervisor_intents :: "supervisor_mapping_intent list"
  pk_world :: paging_world
  pk_cpu :: cpu

subsection \<open>Supervisor intents\<close>

text \<open>\<open>SIZE_MAX\<close>, the result when there is none, is \<open>None\<close>.\<close>

fun intent_search :: "u64 \<Rightarrow> u64 \<Rightarrow> nat \<Rightarrow> supervisor_mapping_intent list \<Rightarrow> nat option" where
  "intent_search address len index [] = None"
| "intent_search address len index (i # is) =
     (if si_virtual_address i = address \<and> si_length i = len then Some index
      else intent_search address len (Suc index) is)"

definition supervisor_intent_find :: "u64 \<Rightarrow> u64 \<Rightarrow> supervisor_mapping_intent list \<Rightarrow> nat option" where
  "supervisor_intent_find address len intents = intent_search address len 0 intents"

definition supervisor_intent_add ::
  "u64 \<Rightarrow> u64 \<Rightarrow> u64 \<Rightarrow> u32 \<Rightarrow> supervisor_mapping_intent list \<Rightarrow> paging_status \<times> supervisor_mapping_intent list" where
  "supervisor_intent_add virtual_address physical_address len permissions intents =
     (if length intents = PAGING_SUPERVISOR_INTENT_CAPACITY
      then (PAGING_STATUS_SUPERVISOR_INTENT_FULL, intents)
      else (PAGING_STATUS_OK,
            intents @ [\<lparr>si_virtual_address = virtual_address, si_physical_address = physical_address,
                        si_length = len, si_permissions = permissions\<rparr>]))"

definition supervisor_intent_remove :: "nat \<Rightarrow> supervisor_mapping_intent list \<Rightarrow> supervisor_mapping_intent list" where
  "supervisor_intent_remove index intents =
     (if index \<ge> length intents then intents else take index intents @ drop (index + 1) intents)"

primrec replay_supervisor_intent ::
  "page_hierarchy \<Rightarrow> paging_world \<Rightarrow> supervisor_mapping_intent list \<Rightarrow> paging_status \<times> page_hierarchy \<times> paging_world" where
  "replay_supervisor_intent h w [] = (PAGING_STATUS_OK, h, w)"
| "replay_supervisor_intent h w (intent # intents) =
     (case map_range h (si_virtual_address intent) (si_physical_address intent) (si_length intent)
             (si_permissions intent) 1 w of
        (status, h, w) \<Rightarrow>
          if status \<noteq> PAGING_STATUS_OK then (status, h, w) else replay_supervisor_intent h w intents)"

subsection \<open>The interface on the live hierarchy\<close>

definition paging_map :: "u64 \<Rightarrow> u64 \<Rightarrow> u64 \<Rightarrow> u32 \<Rightarrow> paging_kernel \<Rightarrow> paging_status \<times> paging_kernel" where
  "paging_map virtual_address physical_address len permissions k =
     (if \<not> st_active (pk_state k) then (PAGING_STATUS_NOT_INITIALIZED, k)
      else
        (case map_range (pk_live_hierarchy k) virtual_address physical_address len permissions 1 (pk_world k) of
           (status, h, w) \<Rightarrow>
             let k = k\<lparr>pk_live_hierarchy := h, pk_world := w\<rparr>;
                 (status, k) =
                   (if status = PAGING_STATUS_OK then
                      (case supervisor_intent_add virtual_address physical_address len permissions
                              (pk_supervisor_intents k) of
                         (status, intents) \<Rightarrow>
                           if status \<noteq> PAGING_STATUS_OK then
                             (case unmap_range (pk_live_hierarchy k) virtual_address len (pk_world k) of
                                (_, h, w) \<Rightarrow> (status, k\<lparr>pk_live_hierarchy := h, pk_world := w\<rparr>))
                           else (status, k\<lparr>pk_supervisor_intents := intents\<rparr>))
                    else (status, k))
             in (status, k\<lparr>pk_state := (pk_state k)\<lparr>st_table_frames := h_table_frames (pk_live_hierarchy k)\<rparr>\<rparr>)))"

definition paging_unmap :: "u64 \<Rightarrow> u64 \<Rightarrow> paging_kernel \<Rightarrow> paging_status \<times> paging_kernel" where
  "paging_unmap virtual_address len k =
     (if \<not> st_active (pk_state k) then (PAGING_STATUS_NOT_INITIALIZED, k)
      else
        let intent = supervisor_intent_find virtual_address len (pk_supervisor_intents k)
        in (case unmap_range (pk_live_hierarchy k) virtual_address len (pk_world k) of
              (status, h, w) \<Rightarrow>
                let k = k\<lparr>pk_live_hierarchy := h, pk_world := w\<rparr>;
                    k = (case intent of
                           Some intent \<Rightarrow>
                             if status = PAGING_STATUS_OK
                             then k\<lparr>pk_supervisor_intents := supervisor_intent_remove intent (pk_supervisor_intents k)\<rparr>
                             else k
                         | None \<Rightarrow> k)
                in (status, k\<lparr>pk_state := (pk_state k)\<lparr>st_table_frames := h_table_frames (pk_live_hierarchy k)\<rparr>\<rparr>)))"

definition paging_protect :: "u64 \<Rightarrow> u64 \<Rightarrow> u32 \<Rightarrow> paging_kernel \<Rightarrow> paging_status \<times> paging_kernel" where
  "paging_protect virtual_address len permissions k =
     (let intent = supervisor_intent_find virtual_address len (pk_supervisor_intents k) in
      if \<not> st_active (pk_state k) then (PAGING_STATUS_NOT_INITIALIZED, k)
      else
        (case protect_range (pk_live_hierarchy k) virtual_address len permissions (st_pat_after (pk_state k)) (pk_world k) of
           (status, w) \<Rightarrow>
             let k = k\<lparr>pk_world := w\<rparr>
             in (status,
                 case intent of
                   Some intent \<Rightarrow>
                     if status = PAGING_STATUS_OK
                     then k\<lparr>pk_supervisor_intents := (pk_supervisor_intents k)
                              [intent := (pk_supervisor_intents k ! intent)\<lparr>si_permissions := permissions\<rparr>]\<rparr>
                     else k
                 | None \<Rightarrow> k)))"

text \<open>The output structure is cleared before the walk and filled by it.\<close>

definition paging_translate ::
  "u64 \<Rightarrow> paging_translation option \<Rightarrow> paging_kernel \<Rightarrow> paging_status \<times> paging_translation option" where
  "paging_translate virtual_address translation k =
     (case translation of
        None \<Rightarrow> (PAGING_STATUS_NULL_ARGUMENT, None)
      | Some _ \<Rightarrow>
          if \<not> st_active (pk_state k) then (PAGING_STATUS_NOT_INITIALIZED, Some no_translation)
          else
            (case translate_address (pk_live_hierarchy k) virtual_address (st_pat_after (pk_state k)) (pk_world k) of
               (status, translation) \<Rightarrow> (status, Some translation)))"

definition paging_audit_hierarchy :: "paging_audit option \<Rightarrow> paging_kernel \<Rightarrow> paging_status \<times> paging_audit option" where
  "paging_audit_hierarchy audit k =
     (case audit of
        None \<Rightarrow> (PAGING_STATUS_NULL_ARGUMENT, None)
      | Some _ \<Rightarrow>
          if \<not> st_active (pk_state k) then (PAGING_STATUS_NOT_INITIALIZED, Some zero_audit)
          else (PAGING_STATUS_OK, Some (audit_hierarchy (pk_live_hierarchy k) (pk_world k))))"

definition paging_get_state :: "paging_kernel \<Rightarrow> paging_state" where
  "paging_get_state k = pk_state k"

definition paging_get_device_windows :: "paging_kernel \<Rightarrow> paging_device_windows" where
  "paging_get_device_windows k = pk_installed_device_windows k"

definition paging_is_active :: "paging_kernel \<Rightarrow> bool" where
  "paging_is_active k = st_active (pk_state k)"

subsection \<open>Verification of the installed state\<close>

definition device_windows_equal :: "paging_device_window \<Rightarrow> paging_device_window \<Rightarrow> bool" where
  "device_windows_equal left right \<longleftrightarrow>
     dw_kind left = dw_kind right \<and> dw_instance left = dw_instance right
     \<and> dw_physical_base left = dw_physical_base right \<and> dw_length left = dw_length right
     \<and> dw_memory_type left = dw_memory_type right \<and> dw_permissions left = dw_permissions right"

definition verify_window_page :: "paging_kernel \<Rightarrow> paging_device_window \<Rightarrow> u64 \<Rightarrow> bool" where
  "verify_window_page k window address =
     (case translate_address (pk_live_hierarchy k) address (st_pat_after (pk_state k)) (pk_world k) of
        (status, translation) \<Rightarrow>
          \<not> (status \<noteq> PAGING_STATUS_OK \<or> tr_physical_address translation \<noteq> address
             \<or> tr_permissions translation \<noteq> device_window_mapping_permissions window
             \<or> tr_memory_type translation \<noteq> dw_memory_type window \<or> tr_level translation \<noteq> 1))"

text \<open>The loop over the windows; the result is the index of the first that fails.\<close>

fun verify_windows ::
  "paging_kernel \<Rightarrow> nat \<Rightarrow> paging_device_windows \<Rightarrow> paging_device_windows \<Rightarrow> nat option" where
  "verify_windows k index (window # validated) (installed # rest) =
     (if \<not> device_windows_equal window installed
         \<or> dw_permissions window \<noteq> PAGING_DEVICE_WINDOW_WRITE
         \<or> dw_kind window = PAGING_DEVICE_WINDOW_VGA_TEXT \<and> dw_physical_base window \<noteq> PAGING_VGA_TEXT_BUFFER_BASE
         \<or> dw_kind window \<noteq> PAGING_DEVICE_WINDOW_FRAMEBUFFER \<and> dw_memory_type window \<noteq> PAGING_MEMORY_UNCACHEABLE
      then Some index
      else if \<not> list_all (\<lambda>offset. verify_window_page k window (dw_physical_base window + offset))
                  (range_offsets (dw_length window) PAGING_PAGE_SIZE)
      then Some index
      else verify_windows k (Suc index) validated rest)"
| "verify_windows k index _ _ = None"

text \<open>\<open>PAGING_DEVICE_WINDOW_NONE\<close> is \<open>None\<close>; the outer option is the null pointer.\<close>

definition paging_verify_device_windows ::
  "paging_device_windows option \<Rightarrow> nat option option \<Rightarrow> paging_kernel \<Rightarrow> paging_status \<times> nat option option" where
  "paging_verify_device_windows expected failed_index k =
     (case failed_index of
        None \<Rightarrow> (PAGING_STATUS_NULL_ARGUMENT, None)
      | Some _ \<Rightarrow>
          if \<not> st_active (pk_state k) then (PAGING_STATUS_NOT_INITIALIZED, Some None)
          else
            (case paging_device_windows_validate expected (Some []) of
               (status, validated) \<Rightarrow>
                 if status \<noteq> PAGING_STATUS_OK then (status, Some None)
                 else if length (the validated) \<noteq> length (pk_installed_device_windows k)
                 then (PAGING_STATUS_INSTALLED_DEVICE_WINDOW_MISMATCH, Some None)
                 else
                   (case verify_windows k 0 (the validated) (pk_installed_device_windows k) of
                      Some index \<Rightarrow> (PAGING_STATUS_INSTALLED_DEVICE_WINDOW_MISMATCH, Some (Some index))
                    | None \<Rightarrow> (PAGING_STATUS_OK, Some None))))"

definition verify_symbol :: "paging_kernel \<Rightarrow> u64 \<Rightarrow> u32 \<Rightarrow> bool" where
  "verify_symbol k address permissions =
     (case translate_address (pk_live_hierarchy k) address (st_pat_after (pk_state k)) (pk_world k) of
        (status, translation) \<Rightarrow>
          \<not> (status \<noteq> PAGING_STATUS_OK \<or> tr_physical_address translation \<noteq> address
             \<or> tr_permissions translation \<noteq> permissions))"

definition paging_verify :: "kernel_image \<Rightarrow> paging_kernel \<Rightarrow> paging_status" where
  "paging_verify ki k =
     (let state = pk_state k; live = pk_live_hierarchy k; registers = cpu_registers (pk_cpu k);
          audit = audit_hierarchy live (pk_world k)
      in if \<not> st_active state then PAGING_STATUS_NOT_INITIALIZED
         else if registers CR3 AND PAGE_FRAME_MASK \<noteq> st_root_physical_address state
               \<or> st_table_frames state \<noteq> h_table_frames live \<or> h_table_frames live = 0
         then PAGING_STATUS_VALIDATION_FAILURE
         else if registers (MSR IA32_PAT_MSR) \<noteq> st_pat_after state
               \<or> pat_entry (st_pat_after state) (st_write_combining_pat_entry state) \<noteq> PAT_TYPE_WRITE_COMBINING
         then PAGING_STATUS_PAT_READBACK_MISMATCH
         else if registers (MSR IA32_EFER_MSR) AND EFER_NO_EXECUTE_ENABLE = 0
         then PAGING_STATUS_NO_EXECUTE_INACTIVE
         else if registers CR0 AND CR0_WRITE_PROTECT = 0 then PAGING_STATUS_WRITE_PROTECT_INACTIVE
         else if write_execute_leaves audit \<noteq> 0 \<or> user_leaves audit \<noteq> 0
         then PAGING_STATUS_VALIDATION_FAILURE
         else if \<not> (verify_symbol k (ki_text_start ki) PAGING_EXECUTE
                     \<and> verify_symbol k (ki_rodata_start ki) PAGING_READ
                     \<and> verify_symbol k (ki_data_start ki) PAGING_WRITE)
         then PAGING_STATUS_VALIDATION_FAILURE
         else if fst (translate_address live 0 (st_pat_after state) (pk_world k)) \<noteq> PAGING_STATUS_NOT_MAPPED
         then PAGING_STATUS_VALIDATION_FAILURE
         else PAGING_STATUS_OK)"

subsection \<open>Initialisation\<close>

definition reset_state :: "paging_kernel \<Rightarrow> paging_kernel" where
  "reset_state k = k\<lparr>
     pk_state := \<lparr>st_root_physical_address = 0, st_table_frames = 0, st_fine_regions = 0, st_pat_before = 0,
       st_pat_after = 0, st_write_combining_pat_entry = 0, st_no_execute_active = False,
       st_write_protect_active = False, st_active = False\<rparr>,
     pk_installed_device_windows := [], pk_supervisor_intents := []\<rparr>"

definition reject_kernel_device_overlap :: "kernel_image \<Rightarrow> paging_device_windows \<Rightarrow> paging_status" where
  "reject_kernel_device_overlap ki windows =
     (if list_ex (\<lambda>window. dw_physical_base window < ki_kernel_end ki
                    \<and> ki_kernel_start ki < dw_physical_base window + dw_length window) windows
      then PAGING_STATUS_DEVICE_WINDOW_KERNEL_OVERLAP else PAGING_STATUS_OK)"

definition enable_processor_features :: "processor \<Rightarrow> cpu \<Rightarrow> paging_status \<times> cpu" where
  "enable_processor_features px c =
     (let efer = cpu_registers c (MSR IA32_EFER_MSR);
          c = cpu_write px (MSR IA32_EFER_MSR) (efer OR EFER_NO_EXECUTE_ENABLE) c
      in if cpu_registers c (MSR IA32_EFER_MSR) AND EFER_NO_EXECUTE_ENABLE = 0
         then (PAGING_STATUS_NO_EXECUTE_INACTIVE, c)
         else
           let c = cpu_write px CR0 (cpu_registers c CR0 OR CR0_WRITE_PROTECT) c
           in if cpu_registers c CR0 AND CR0_WRITE_PROTECT = 0
              then (PAGING_STATUS_WRITE_PROTECT_INACTIVE, c)
              else (PAGING_STATUS_OK, c))"

definition edx_of :: "u32 \<times> u32 \<times> u32 \<times> u32 \<Rightarrow> u32" where
  "edx_of r = (case r of (eax, ebx, ecx, edx) \<Rightarrow> edx)"

text \<open>The last part of \<open>paging_initialize\<close>: PAT, CR3 and the check on the installed hierarchy.\<close>

definition install_hierarchy ::
  "processor \<Rightarrow> kernel_image \<Rightarrow> paging_device_windows \<Rightarrow> u64 \<Rightarrow> u64 \<Rightarrow> paging_kernel \<Rightarrow> paging_status \<times> paging_kernel" where
  "install_hierarchy px ki validated pat_before pat_after k =
     (let k = k\<lparr>pk_cpu := cpu_write px (MSR IA32_PAT_MSR) pat_after (pk_cpu k)\<rparr> in
      if cpu_registers (pk_cpu k) (MSR IA32_PAT_MSR) \<noteq> pat_after
      then (PAGING_STATUS_PAT_READBACK_MISMATCH,
            reset_state (k\<lparr>pk_cpu := cpu_write px (MSR IA32_PAT_MSR) pat_before (pk_cpu k)\<rparr>))
      else
        let previous_root = cpu_registers (pk_cpu k) CR3;
            live = pk_live_hierarchy k;
            k = k\<lparr>
              pk_state := \<lparr>st_root_physical_address = h_root live, st_table_frames = h_table_frames live,
                st_fine_regions = pk_fine_region_count k, st_pat_before = pat_before, st_pat_after = pat_after,
                st_write_combining_pat_entry = PAT_WRITE_COMBINING_ENTRY, st_no_execute_active = True,
                st_write_protect_active = True, st_active = True\<rparr>,
              pk_installed_device_windows := validated,
              pk_live_hierarchy := live\<lparr>h_live := True\<rparr>,
              pk_cpu := cpu_write_back_and_invalidate_cache (cpu_write px CR3 (h_root live)
                          (cpu_write_back_and_invalidate_cache (pk_cpu k)))\<rparr>;
            status = paging_verify ki k
        in if status \<noteq> PAGING_STATUS_OK
           then (status,
                 reset_state (k\<lparr>
                   pk_cpu := cpu_write px (MSR IA32_PAT_MSR) pat_before
                     (cpu_write_back_and_invalidate_cache (cpu_write px CR3 previous_root
                        (cpu_write_back_and_invalidate_cache (pk_cpu k)))),
                   pk_live_hierarchy := (pk_live_hierarchy k)\<lparr>h_live := False\<rparr>\<rparr>))
           else (PAGING_STATUS_OK, k))"

text \<open>The middle part: the processor features, the root, the identity map and the checks on it.\<close>

definition build_hierarchy ::
  "processor \<Rightarrow> kernel_image \<Rightarrow> paging_device_windows \<Rightarrow> u64 \<Rightarrow> paging_kernel \<Rightarrow> paging_status \<times> paging_kernel" where
  "build_hierarchy px ki validated pat_after k =
     (case enable_processor_features px (pk_cpu k) of
        (status, c) \<Rightarrow>
          let k = k\<lparr>pk_cpu := c\<rparr> in
          if status \<noteq> PAGING_STATUS_OK then (status, reset_state k)
          else
            let sections = collect_kernel_sections ki;
                k = k\<lparr>pk_kernel_sections := sections\<rparr>;
                live = (pk_live_hierarchy k)\<lparr>h_arena_base := 0, h_arena_capacity := 0, h_arena_used := 0,
                  h_table_frames := 0, h_live := False\<rparr>
            in (case allocate_table live (pk_world k) of
                  (status, root, live, w) \<Rightarrow>
                    let k = k\<lparr>pk_live_hierarchy := live, pk_world := w\<rparr> in
                    if status \<noteq> PAGING_STATUS_OK then (status, reset_state k)
                    else
                      (case build_identity_map ki sections validated (live\<lparr>h_root := the root\<rparr>) w of
                         (fine, status, live, w) \<Rightarrow>
                           let k = k\<lparr>pk_live_hierarchy := live, pk_world := w, pk_fine_region_count := fine\<rparr> in
                           if status \<noteq> PAGING_STATUS_OK then (status, reset_state k)
                           else
                             let status = validate_identity_map ki sections validated live pat_after w in
                             if status \<noteq> PAGING_STATUS_OK then (status, reset_state k)
                             else
                               let audit = audit_hierarchy live w in
                               if write_execute_leaves audit \<noteq> 0 \<or> user_leaves audit \<noteq> 0
                               then (PAGING_STATUS_VALIDATION_FAILURE, reset_state k)
                               else (PAGING_STATUS_OK, k))))"

definition paging_initialize ::
  "processor \<Rightarrow> kernel_image \<Rightarrow> paging_device_windows option \<Rightarrow> paging_kernel \<Rightarrow> paging_status \<times> paging_kernel" where
  "paging_initialize px ki windows k =
     (case windows of
        None \<Rightarrow> (PAGING_STATUS_NULL_ARGUMENT, k)
      | Some _ \<Rightarrow>
          if st_active (pk_state k) then (PAGING_STATUS_ALREADY_INITIALIZED, k)
          else
            (case paging_device_windows_validate windows (Some []) of
               (status, validated) \<Rightarrow>
                 if status \<noteq> PAGING_STATUS_OK then (status, reset_state k)
                 else
                   let validated = the validated;
                       status = validate_kernel_layout (ki_kernel_start ki) (ki_kernel_end ki);
                       status = (if status = PAGING_STATUS_OK then reject_kernel_device_overlap ki validated else status)
                   in if status \<noteq> PAGING_STATUS_OK then (status, reset_state k)
                      else if cpu_interrupt_flag (pk_cpu k) then (PAGING_STATUS_INTERRUPTS_ENABLED, k)
                      else
                        let basic_edx = edx_of (px_cpuid px CPUID_BASIC_FEATURES 0);
                            extended_root_eax = fst (px_cpuid px CPUID_EXTENDED_ROOT 0);
                            extended_features_edx =
                              (if extended_root_eax \<ge> CPUID_EXTENDED_FEATURES
                               then edx_of (px_cpuid px CPUID_EXTENDED_FEATURES 0) else 0);
                            pat_before =
                              (if basic_edx AND CPUID_PAT \<noteq> 0 then cpu_registers (pk_cpu k) (MSR IA32_PAT_MSR) else 0);
                            status = decode_processor_support basic_edx extended_root_eax extended_features_edx
                              (cpu_registers (pk_cpu k) CR4) pat_before
                        in if status \<noteq> PAGING_STATUS_OK then (status, reset_state k)
                           else
                             let pat_after = pat_replace_entry pat_before PAT_WRITE_COMBINING_ENTRY PAT_TYPE_WRITE_COMBINING
                             in (case build_hierarchy px ki validated pat_after k of
                                   (status, k) \<Rightarrow>
                                     if status \<noteq> PAGING_STATUS_OK then (status, k)
                                     else install_hierarchy px ki validated pat_before pat_after k)))"

subsection \<open>Intents\<close>

lemma intent_search_Some:
  "intent_search address len n is = Some i \<Longrightarrow> n \<le> i \<and> i < n + length is
     \<and> si_virtual_address (is ! (i - n)) = address \<and> si_length (is ! (i - n)) = len"
proof (induction "is" arbitrary: n)
  case (Cons x xs)
  show ?case
  proof (cases "si_virtual_address x = address \<and> si_length x = len")
    case True
    then show ?thesis using Cons.prems by auto
  next
    case False
    then have "intent_search address len (Suc n) xs = Some i" using Cons.prems by auto
    from Cons.IH [OF this] have "Suc n \<le> i" "i < Suc n + length xs"
      "si_virtual_address (xs ! (i - Suc n)) = address" "si_length (xs ! (i - Suc n)) = len" by blast+
    moreover from this have "(x # xs) ! (i - n) = xs ! (i - Suc n)" by (simp add: nth_Cons')
    ultimately show ?thesis by auto
  qed
qed simp

lemma supervisor_intent_find_Some:
  "supervisor_intent_find address len is = Some i \<Longrightarrow>
     i < length is \<and> si_virtual_address (is ! i) = address \<and> si_length (is ! i) = len"
  using intent_search_Some [of address len 0 "is" i] by (simp add: supervisor_intent_find_def)

subsection \<open>The invariant\<close>

text \<open>The live hierarchy draws its tables from the frame allocator, and the state reports what it is.\<close>

definition kernel_inv :: "paging_kernel \<Rightarrow> bool" where
  "kernel_inv k \<longleftrightarrow> st_active (pk_state k) \<and> hier_inv (pk_live_hierarchy k) (pk_world k)
     \<and> h_live (pk_live_hierarchy k) \<and> h_arena_capacity (pk_live_hierarchy k) = 0
     \<and> pat_ok (st_pat_after (pk_state k))
     \<and> st_table_frames (pk_state k) = h_table_frames (pk_live_hierarchy k)
     \<and> st_root_physical_address (pk_state k) = h_root (pk_live_hierarchy k)
     \<and> length (pk_supervisor_intents k) \<le> PAGING_SUPERVISOR_INTENT_CAPACITY"

abbreviation kernel_translate :: "paging_kernel \<Rightarrow> u64 \<Rightarrow> paging_status \<times> paging_translation" where
  "kernel_translate k a \<equiv> translate_address (pk_live_hierarchy k) a (st_pat_after (pk_state k)) (pk_world k)"

text \<open>What no call on the live hierarchy changes: the processor, the sections and windows, the rest of the state.\<close>

definition same_kernel :: "paging_kernel \<Rightarrow> paging_kernel \<Rightarrow> bool" where
  "same_kernel k k' \<longleftrightarrow> pk_cpu k' = pk_cpu k \<and> pk_kernel_sections k' = pk_kernel_sections k
     \<and> pk_installed_device_windows k' = pk_installed_device_windows k
     \<and> pk_fine_region_count k' = pk_fine_region_count k
     \<and> (pk_state k')\<lparr>st_table_frames := 0\<rparr> = (pk_state k)\<lparr>st_table_frames := 0\<rparr>
     \<and> same_hierarchy (pk_live_hierarchy k) (pk_live_hierarchy k')
     \<and> others (pk_live_hierarchy k') (pk_world k') = others (pk_live_hierarchy k) (pk_world k)"

lemma same_kernel_state:
  assumes "same_kernel k k'"
  shows "st_active (pk_state k') = st_active (pk_state k)" "st_pat_after (pk_state k') = st_pat_after (pk_state k)"
    "st_root_physical_address (pk_state k') = st_root_physical_address (pk_state k)"
    "st_write_combining_pat_entry (pk_state k') = st_write_combining_pat_entry (pk_state k)"
proof -
  have e: "(pk_state k')\<lparr>st_table_frames := 0\<rparr> = (pk_state k)\<lparr>st_table_frames := 0\<rparr>" using assms by (simp add: same_kernel_def)
  show "st_active (pk_state k') = st_active (pk_state k)" using arg_cong [OF e, of st_active] by simp
  show "st_pat_after (pk_state k') = st_pat_after (pk_state k)" using arg_cong [OF e, of st_pat_after] by simp
  show "st_root_physical_address (pk_state k') = st_root_physical_address (pk_state k)"
    using arg_cong [OF e, of st_root_physical_address] by simp
  show "st_write_combining_pat_entry (pk_state k') = st_write_combining_pat_entry (pk_state k)"
    using arg_cong [OF e, of st_write_combining_pat_entry] by simp
qed

lemma same_kernel_refl: "same_kernel k k"
  and same_kernel_trans: "same_kernel k k1 \<Longrightarrow> same_kernel k1 k2 \<Longrightarrow> same_kernel k k2"
  by (auto simp: same_kernel_def intro: same_hierarchy_trans)

lemma map_range_kernel:
  assumes "kernel_inv k" and "map_range (pk_live_hierarchy k) va pa len p 1 (pk_world k) = (st, h', w')"
  shows "same_hierarchy (pk_live_hierarchy k) h'" "others h' w' = others (pk_live_hierarchy k) (pk_world k)"
proof -
  have i: "hier_inv (pk_live_hierarchy k) (pk_world k)" "h_arena_capacity (pk_live_hierarchy k) = 0"
    using assms(1) by (simp_all add: kernel_inv_def)
  from i(1) test_level assms(2) show "same_hierarchy (pk_live_hierarchy k) h'" "others h' w' = others (pk_live_hierarchy k) (pk_world k)"
    by (cases rule: map_range_cases; use i(2) in \<open>auto simp: keeps_out_def\<close>)+
qed

lemma unmap_range_kernel:
  assumes "hier_inv h w" and "h_arena_capacity h = 0" and "unat len \<le> 2 ^ 63" and "unmap_range h va len w = (st, h', w')"
  shows "same_hierarchy h h'" "others h' w' = others h w"
  using assms(1,3,4) by (cases rule: unmap_range_cases; use assms(2) in \<open>auto simp: keeps_out_def\<close>)+

text \<open>\<open>paging_map\<close>, in the terms of its caller.\<close>

lemma paging_map_spec:
  assumes inv: "kernel_inv k" and call: "paging_map va pa len p k = (st, k')"
  shows "kernel_inv k'" and "same_kernel k k'"
    and "kernel_translate k' a = (if st = PAGING_STATUS_OK \<and> in_range va len a
           then (PAGING_STATUS_OK, mapping (pa + (a - va)) p 1) else kernel_translate k a)"
    and "st = PAGING_STATUS_OK \<Longrightarrow> in_range va len a \<Longrightarrow> kernel_translate k a = unmapped"
    and "st = PAGING_STATUS_OK \<Longrightarrow> range_ok va len 1"
    and "pk_supervisor_intents k' = (if st = PAGING_STATUS_OK then pk_supervisor_intents k @
           [\<lparr>si_virtual_address = va, si_physical_address = pa, si_length = len, si_permissions = p\<rparr>]
         else pk_supervisor_intents k)"
proof -
  let ?h = "pk_live_hierarchy k" and ?w = "pk_world k" and ?pat = "st_pat_after (pk_state k)"
  have i: "st_active (pk_state k)" "hier_inv ?h ?w" "h_live ?h" "h_arena_capacity ?h = 0" "pat_ok ?pat"
    "st_root_physical_address (pk_state k) = h_root ?h" "length (pk_supervisor_intents k) \<le> PAGING_SUPERVISOR_INTENT_CAPACITY"
    using inv by (simp_all add: kernel_inv_def)
  obtain st1 h1 w1 where m: "map_range ?h va pa len p 1 ?w = (st1, h1, w1)" by (cases "map_range ?h va pa len p 1 ?w")
  note t = map_range_translations [OF i(2) test_level i(5) m]
  note mk = map_range_kernel [OF inv m]
  have all: "kernel_inv k' \<and> same_kernel k k' \<and> (\<forall>a. kernel_translate k' a = (if st = PAGING_STATUS_OK \<and> in_range va len a
           then (PAGING_STATUS_OK, mapping (pa + (a - va)) p 1) else kernel_translate k a))
      \<and> (\<forall>a. st = PAGING_STATUS_OK \<longrightarrow> in_range va len a \<longrightarrow> kernel_translate k a = unmapped)
      \<and> (st = PAGING_STATUS_OK \<longrightarrow> range_ok va len 1)
      \<and> pk_supervisor_intents k' = (if st = PAGING_STATUS_OK then pk_supervisor_intents k @
           [\<lparr>si_virtual_address = va, si_physical_address = pa, si_length = len, si_permissions = p\<rparr>]
         else pk_supervisor_intents k)"
  proof (cases "st1 = PAGING_STATUS_OK")
    case False
    then have k': "st = st1" "k' = k\<lparr>pk_live_hierarchy := h1, pk_world := w1,
        pk_state := (pk_state k)\<lparr>st_table_frames := h_table_frames h1\<rparr>\<rparr>"
      using call i(1) m by (auto simp: paging_map_def Let_def)
    show ?thesis using i t mk False unfolding k' by (auto simp: kernel_inv_def same_kernel_def same_hierarchy_def)
  next
    case True
    note r = map_range_OK_range [OF i(2) test_level m [unfolded True]]
    show ?thesis
    proof (cases "length (pk_supervisor_intents k) = PAGING_SUPERVISOR_INTENT_CAPACITY")
      case False
      then have k': "st = PAGING_STATUS_OK" "k' = k\<lparr>pk_live_hierarchy := h1, pk_world := w1,
          pk_state := (pk_state k)\<lparr>st_table_frames := h_table_frames h1\<rparr>,
          pk_supervisor_intents := pk_supervisor_intents k @
           [\<lparr>si_virtual_address = va, si_physical_address = pa, si_length = len, si_permissions = p\<rparr>]\<rparr>"
        using call i(1) m True by (auto simp: paging_map_def Let_def supervisor_intent_add_def)
      show ?thesis using i t mk True False r unfolding k' by (auto simp: kernel_inv_def same_kernel_def same_hierarchy_def)
    next
      case full: True
      obtain st2 h2 w2 where u: "unmap_range h1 va len w1 = (st2, h2, w2)" by (cases "unmap_range h1 va len w1")
      have k': "st = PAGING_STATUS_SUPERVISOR_INTENT_FULL" "k' = k\<lparr>pk_live_hierarchy := h2, pk_world := w2,
          pk_state := (pk_state k)\<lparr>st_table_frames := h_table_frames h2\<rparr>\<rparr>"
        using call i(1) m True full u by (auto simp: paging_map_def Let_def supervisor_intent_add_def)
      have s: "space_inv (?pat, ?h, ?w)" using i by (simp add: space_inv_def)
      have "space_map va pa len p (?pat, ?h, ?w) = Some (?pat, h1, w1)" unfolding space_map_Some using m True by blast
      from spaces.map_unmap [OF s this] u have restored: "hier_inv h2 w2" "\<forall>a. translate_address h2 a ?pat w2 = translate_address ?h a ?pat ?w"
        unfolding space_unmap_Some by (auto simp: space_inv_def space_read_def)
      have len: "unat len \<le> 2 ^ 63" using r by (simp add: range_ok_def)
      have c: "h_arena_capacity h1 = 0" using mk(1) i(4) by (simp add: same_hierarchy_def)
      note uk = unmap_range_kernel [OF t(1) c len u]
      show ?thesis using i restored mk uk unfolding k' by (auto simp: kernel_inv_def same_kernel_def same_hierarchy_def)
    qed
  qed
  then show "kernel_inv k'" "same_kernel k k'" "st = PAGING_STATUS_OK \<Longrightarrow> range_ok va len 1" by blast+
  from all show "kernel_translate k' a = (if st = PAGING_STATUS_OK \<and> in_range va len a
           then (PAGING_STATUS_OK, mapping (pa + (a - va)) p 1) else kernel_translate k a)" by (elim conjE allE)
  from all show "st = PAGING_STATUS_OK \<Longrightarrow> in_range va len a \<Longrightarrow> kernel_translate k a = unmapped" by blast
  from all show "pk_supervisor_intents k' = (if st = PAGING_STATUS_OK then pk_supervisor_intents k @
           [\<lparr>si_virtual_address = va, si_physical_address = pa, si_length = len, si_permissions = p\<rparr>]
         else pk_supervisor_intents k)" by (elim conjE)
qed

lemma paging_unmap_spec:
  assumes inv: "kernel_inv k" and len: "unat len \<le> 2 ^ 63" and call: "paging_unmap va len k = (st, k')"
  shows "kernel_inv k'" and "same_kernel k k'"
    and "kernel_translate k' a = (if st = PAGING_STATUS_OK \<and> in_range va len a then unmapped else kernel_translate k a)"
    and "st = PAGING_STATUS_OK \<longleftrightarrow> validate_virtual_range va len PAGING_PAGE_SIZE = PAGING_STATUS_OK
       \<and> (\<forall>a. in_range va len a \<longrightarrow> (\<exists>tr. kernel_translate k a = (PAGING_STATUS_OK, tr) \<and> tr_level tr = 1))"
proof -
  let ?h = "pk_live_hierarchy k" and ?w = "pk_world k"
  have i: "st_active (pk_state k)" "hier_inv ?h ?w" "h_live ?h" "h_arena_capacity ?h = 0" "pat_ok (st_pat_after (pk_state k))"
    "st_root_physical_address (pk_state k) = h_root ?h" "length (pk_supervisor_intents k) \<le> PAGING_SUPERVISOR_INTENT_CAPACITY"
    using inv by (simp_all add: kernel_inv_def)
  obtain st1 h1 w1 where u: "unmap_range ?h va len ?w = (st1, h1, w1)" by (cases "unmap_range ?h va len ?w")
  define js where "js = (case supervisor_intent_find va len (pk_supervisor_intents k) of
      Some i \<Rightarrow> if st1 = PAGING_STATUS_OK then supervisor_intent_remove i (pk_supervisor_intents k) else pk_supervisor_intents k
    | None \<Rightarrow> pk_supervisor_intents k)"
  have k': "st = st1" "k' = k\<lparr>pk_live_hierarchy := h1, pk_world := w1,
      pk_state := (pk_state k)\<lparr>st_table_frames := h_table_frames h1\<rparr>, pk_supervisor_intents := js\<rparr>"
    using call i(1) u by (auto simp: paging_unmap_def Let_def js_def split: option.split_asm if_split_asm)
  have "length js \<le> length (pk_supervisor_intents k)"
    by (auto simp: js_def supervisor_intent_remove_def split: option.split)
  then have "length js \<le> PAGING_SUPERVISOR_INTENT_CAPACITY" using i(7) by (rule order_trans)
  moreover note t = unmap_range_translations [OF i(2) len u] and uk = unmap_range_kernel [OF i(2,4) len u]
  ultimately show "kernel_inv k'" "same_kernel k k'"
    using i unfolding k'(2) by (auto simp: kernel_inv_def same_kernel_def same_hierarchy_def)
  show "kernel_translate k' a = (if st = PAGING_STATUS_OK \<and> in_range va len a then unmapped else kernel_translate k a)"
    using t(2) by (simp add: k')
  show "st = PAGING_STATUS_OK \<longleftrightarrow> validate_virtual_range va len PAGING_PAGE_SIZE = PAGING_STATUS_OK
       \<and> (\<forall>a. in_range va len a \<longrightarrow> (\<exists>tr. kernel_translate k a = (PAGING_STATUS_OK, tr) \<and> tr_level tr = 1))"
    using unmap_range_OK_iff [OF i(2) len, of va "st_pat_after (pk_state k)"] u by (simp add: k'(1))
qed

lemma paging_protect_spec:
  assumes inv: "kernel_inv k" and len: "unat len \<le> 2 ^ 63" and call: "paging_protect va len p k = (st, k')"
  shows "kernel_inv k'" and "same_kernel k k'"
    and "\<not> (st = PAGING_STATUS_OK \<and> in_range va len a) \<Longrightarrow> kernel_translate k' a = kernel_translate k a"
    and "st = PAGING_STATUS_OK \<Longrightarrow> in_range va len a \<Longrightarrow> \<exists>tr. kernel_translate k a = (PAGING_STATUS_OK, tr)
       \<and> tr_level tr = 1 \<and> tr_memory_type tr = mapping_type p
       \<and> kernel_translate k' a = (PAGING_STATUS_OK, tr\<lparr>tr_permissions := p, tr_user := False\<rparr>)"
    and "st = PAGING_STATUS_OK \<Longrightarrow> validate_permissions p = PAGING_STATUS_OK"
proof -
  let ?h = "pk_live_hierarchy k" and ?w = "pk_world k" and ?pat = "st_pat_after (pk_state k)"
  have i: "st_active (pk_state k)" "hier_inv ?h ?w" "h_live ?h" "h_arena_capacity ?h = 0" "pat_ok ?pat"
    "st_table_frames (pk_state k) = h_table_frames ?h"
    "st_root_physical_address (pk_state k) = h_root ?h" "length (pk_supervisor_intents k) \<le> PAGING_SUPERVISOR_INTENT_CAPACITY"
    using inv by (simp_all add: kernel_inv_def)
  obtain st1 w1 where u: "protect_range ?h va len p ?pat ?w = (st1, w1)" by (cases "protect_range ?h va len p ?pat ?w")
  define js where "js = (case supervisor_intent_find va len (pk_supervisor_intents k) of
      Some i \<Rightarrow> if st1 = PAGING_STATUS_OK
        then (pk_supervisor_intents k)[i := (pk_supervisor_intents k ! i)\<lparr>si_permissions := p\<rparr>] else pk_supervisor_intents k
    | None \<Rightarrow> pk_supervisor_intents k)"
  have k': "st = st1" "k' = k\<lparr>pk_world := w1, pk_supervisor_intents := js\<rparr>"
    using call i(1) u by (auto simp: paging_protect_def Let_def js_def split: option.split_asm if_split_asm)
  have "length js = length (pk_supervisor_intents k)" by (auto simp: js_def split: option.split)
  moreover note t = protect_range_translations [OF i(2) len i(5) u]
  moreover have "others ?h w1 = others ?h ?w"
    using i(2) len i(5) u by (cases rule: protect_range_cases) (use i(4) in \<open>auto simp: keeps_out_def\<close>)
  ultimately show "kernel_inv k'" "same_kernel k k'"
    using i unfolding k'(2) by (auto simp: kernel_inv_def same_kernel_def)
  show "\<not> (st = PAGING_STATUS_OK \<and> in_range va len a) \<Longrightarrow> kernel_translate k' a = kernel_translate k a"
    using t(2) by (simp add: k')
  show "st = PAGING_STATUS_OK \<Longrightarrow> in_range va len a \<Longrightarrow> \<exists>tr. kernel_translate k a = (PAGING_STATUS_OK, tr)
       \<and> tr_level tr = 1 \<and> tr_memory_type tr = mapping_type p
       \<and> kernel_translate k' a = (PAGING_STATUS_OK, tr\<lparr>tr_permissions := p, tr_user := False\<rparr>)"
    using t(3) by (simp add: k')
  show "st = PAGING_STATUS_OK \<Longrightarrow> validate_permissions p = PAGING_STATUS_OK"
    using map_range_OK_permissions(2) u k'(1) by blast
qed

subsection \<open>The live hierarchy as an address space\<close>

definition kernel_map :: "u64 \<Rightarrow> u64 \<Rightarrow> u64 \<Rightarrow> u32 \<Rightarrow> paging_kernel \<Rightarrow> paging_kernel option" where
  "kernel_map va pa len p k = (case paging_map va pa len p k of (st, k') \<Rightarrow> if st = PAGING_STATUS_OK then Some k' else None)"

definition kernel_unmap :: "u64 \<Rightarrow> u64 \<Rightarrow> paging_kernel \<Rightarrow> paging_kernel option" where
  "kernel_unmap va len k = (case paging_unmap va len k of (st, k') \<Rightarrow> if st = PAGING_STATUS_OK then Some k' else None)"

lemma kernel_map_Some: "kernel_map va pa len p k = Some k' \<longleftrightarrow> paging_map va pa len p k = (PAGING_STATUS_OK, k')"
  and kernel_unmap_Some: "kernel_unmap va len k = Some k' \<longleftrightarrow> paging_unmap va len k = (PAGING_STATUS_OK, k')"
  by (auto simp: kernel_map_def kernel_unmap_def split: prod.splits if_split_asm)

interpretation kernel_space: address_space kernel_inv kernel_translate unmapped
  "\<lambda>pa p. (PAGING_STATUS_OK, mapping pa p 1)" kernel_map kernel_unmap
proof
  show "(PAGING_STATUS_OK, mapping pa p 1) \<noteq> unmapped" for pa p by simp
next
  fix k k' va pa len p a
  assume inv: "kernel_inv k" and "kernel_map va pa len p k = Some k'"
  then have m: "paging_map va pa len p k = (PAGING_STATUS_OK, k')" unfolding kernel_map_Some by blast
  note s = paging_map_spec [OF inv m]
  have r: "range_ok va len 1" using s(5) by simp
  show "kernel_inv k'" by (rule s(1))
  show len: "unat len \<le> 2 ^ 63" using r by (simp add: range_ok_def)
  show "kernel_translate k' a = (if in_range va len a then (PAGING_STATUS_OK, mapping (pa + (a - va)) p 1) else kernel_translate k a)"
    using s(3) by simp
  show "kernel_translate k a = unmapped" if "in_range va len a" using s(4) that by simp
  show "kernel_unmap va len t \<noteq> None" if t: "kernel_inv t"
    "\<forall>a. in_range va len a \<longrightarrow> (\<exists>pa p. kernel_translate t a = (PAGING_STATUS_OK, mapping pa p 1))" for t
  proof -
    obtain st t' where u: "paging_unmap va len t = (st, t')" by fastforce
    have v: "validate_virtual_range va len PAGING_PAGE_SIZE = PAGING_STATUS_OK" using r unfolding range_ok_level_1 by blast
    have "\<exists>tr. kernel_translate t a = (PAGING_STATUS_OK, tr) \<and> tr_level tr = 1" if "in_range va len a" for a
      using t(2) that by (fastforce simp: mapping_def)
    then have "st = PAGING_STATUS_OK" unfolding paging_unmap_spec(4) [OF t(1) len u] using v by blast
    then show ?thesis using u by (simp add: kernel_unmap_def)
  qed
next
  fix k k' va len a
  assume inv: "kernel_inv k" and len: "unat len \<le> 2 ^ 63" and "kernel_unmap va len k = Some k'"
  then have u: "paging_unmap va len k = (PAGING_STATUS_OK, k')" unfolding kernel_unmap_Some by blast
  note s = paging_unmap_spec [OF inv len u]
  show "kernel_inv k'" by (rule s(1))
  show "kernel_translate k' a = (if in_range va len a then unmapped else kernel_translate k a)" using s(3) by simp
qed

subsection \<open>The check on the running kernel\<close>

text \<open>Every call on the live hierarchy, with the addresses \<open>paging_verify\<close> looks at left alone.\<close>

inductive kernel_call :: "u64 set \<Rightarrow> paging_kernel \<Rightarrow> paging_kernel \<Rightarrow> bool" for watched where
  call_map: "\<forall>a \<in> watched. \<not> in_range va len a \<Longrightarrow> paging_map va pa len p k = (st, k') \<Longrightarrow> kernel_call watched k k'"
| call_unmap: "unat len \<le> 2 ^ 63 \<Longrightarrow> \<forall>a \<in> watched. \<not> in_range va len a \<Longrightarrow> paging_unmap va len k = (st, k')
    \<Longrightarrow> kernel_call watched k k'"
| call_protect: "unat len \<le> 2 ^ 63 \<Longrightarrow> \<forall>a \<in> watched. \<not> in_range va len a \<Longrightarrow> paging_protect va len p k = (st, k')
    \<Longrightarrow> kernel_call watched k k'"

definition guarded :: "paging_kernel \<Rightarrow> bool" where
  "guarded k \<longleftrightarrow> (\<forall>a tr. kernel_translate k a = (PAGING_STATUS_OK, tr)
     \<longrightarrow> \<not> tr_user tr \<and> \<not> (bit (tr_permissions tr) 0 \<and> bit (tr_permissions tr) 1))"

lemma guarded_iff:
  "guarded k \<longleftrightarrow> write_execute_leaves (audit_hierarchy (pk_live_hierarchy k) (pk_world k)) = 0
     \<and> user_leaves (audit_hierarchy (pk_live_hierarchy k) (pk_world k)) = 0"
  unfolding guarded_def audit_wx_iff [of _ _ "st_pat_after (pk_state k)"] audit_user_iff [of _ _ "st_pat_after (pk_state k)"]
  by blast

lemma paging_map_OK_permissions:
  "paging_map va pa len p k = (PAGING_STATUS_OK, k') \<Longrightarrow> validate_permissions p = PAGING_STATUS_OK"
  by (auto simp: paging_map_def Let_def supervisor_intent_add_def split: if_split_asm prod.split_asm
      dest: map_range_OK_permissions(1))

lemma kernel_call_safe:
  assumes "kernel_call watched k k'" and inv: "kernel_inv k" and g: "guarded k"
  shows "kernel_inv k'" and "guarded k'" and "same_kernel k k'"
    and "a \<in> watched \<Longrightarrow> kernel_translate k' a = kernel_translate k a"
proof -
  have "kernel_inv k' \<and> guarded k' \<and> same_kernel k k' \<and> (\<forall>a \<in> watched. kernel_translate k' a = kernel_translate k a)"
    using assms(1)
  proof cases
    case (call_map va len pa p st)
    note s = paging_map_spec [OF inv call_map(2)]
    have "st = PAGING_STATUS_OK \<longrightarrow> \<not> (bit p 0 \<and> bit p 1)"
      using paging_map_OK_permissions call_map(2) by (auto simp: validate_permissions_OK)
    then have "guarded k'" using g unfolding guarded_def s(3) by (auto simp: mapping_def split: if_split_asm)
    then show ?thesis using s(1,2,3) call_map(1) by auto
  next
    case (call_unmap len va st)
    note s = paging_unmap_spec [OF inv call_unmap(1,3)]
    have "guarded k'" using g unfolding guarded_def s(3) by (auto split: if_split_asm)
    then show ?thesis using s(1,2,3) call_unmap(2) by auto
  next
    case (call_protect len va p st)
    note s = paging_protect_spec [OF inv call_protect(1,3)]
    have p: "st = PAGING_STATUS_OK \<longrightarrow> \<not> (bit p 0 \<and> bit p 1)" using s(5) by (auto simp: validate_permissions_OK)
    have "\<not> tr_user tr \<and> \<not> (bit (tr_permissions tr) 0 \<and> bit (tr_permissions tr) 1)"
      if "kernel_translate k' a = (PAGING_STATUS_OK, tr)" for a tr
    proof (cases "st = PAGING_STATUS_OK \<and> in_range va len a")
      case True
      then show ?thesis using s(4) [of a] that p by auto
    next
      case False
      then show ?thesis using s(3) [OF False] that g by (simp add: guarded_def)
    qed
    then show ?thesis using s(1,2,3) call_protect(2) by (auto simp: guarded_def)
  qed
  then show "kernel_inv k'" "guarded k'" "same_kernel k k'" "a \<in> watched \<Longrightarrow> kernel_translate k' a = kernel_translate k a" by blast+
qed

definition watched :: "kernel_image \<Rightarrow> u64 set" where
  "watched ki = {ki_text_start ki, ki_rodata_start ki, ki_data_start ki, 0}"

lemma frame_table_count:
  assumes "hier_inv h w" and "h_arena_capacity h = 0"
  shows "unat (h_table_frames h) = card (reach (pw_tables w) (h_root h))" and "h_table_frames h \<noteq> 0"
proof -
  note i = hier_invD [OF assms(1)]
  have "card (reach (pw_tables w) (h_root h)) \<le> card (table_taken (h, w))"
    using i(1,4) tables.finite_taken by (intro card_mono) auto
  also have "\<dots> \<le> card (allocated_set (pw_frames w))"
    using assms(2) by (auto simp: table_taken_def frame_addresses_def single_set_def
      intro!: order_trans [OF card_image_le] card_mono finite_subset [OF frame_set_bounds(2)])
  also have "\<dots> \<le> FRAME_COUNT"
    using card_mono [OF _ frame_set_bounds(2), of "pw_frames w"] by simp
  finally have "card (reach (pw_tables w) (h_root h)) < 2 ^ LENGTH(64)" by (simp add: FRAME_COUNT_eq)
  then show u: "unat (h_table_frames h) = card (reach (pw_tables w) (h_root h))"
    unfolding i(5) by (rule unat_of_nat_small)
  show "h_table_frames h \<noteq> 0"
  proof
    assume "h_table_frames h = 0"
    then have "reach (pw_tables w) (h_root h) = {}" using u i(6) by simp
    then show False using root_reach by blast
  qed
qed

text \<open>What \<open>paging_verify\<close> asks of a kernel whose invariant holds.\<close>

lemma paging_verify_OK:
  assumes "kernel_inv k"
  shows "paging_verify ki k = PAGING_STATUS_OK \<longleftrightarrow>
     cpu_registers (pk_cpu k) CR3 AND PAGE_FRAME_MASK = h_root (pk_live_hierarchy k)
     \<and> cpu_registers (pk_cpu k) (MSR IA32_PAT_MSR) = st_pat_after (pk_state k)
     \<and> pat_entry (st_pat_after (pk_state k)) (st_write_combining_pat_entry (pk_state k)) = PAT_TYPE_WRITE_COMBINING
     \<and> cpu_registers (pk_cpu k) (MSR IA32_EFER_MSR) AND EFER_NO_EXECUTE_ENABLE \<noteq> 0
     \<and> cpu_registers (pk_cpu k) CR0 AND CR0_WRITE_PROTECT \<noteq> 0
     \<and> guarded k
     \<and> verify_symbol k (ki_text_start ki) PAGING_EXECUTE \<and> verify_symbol k (ki_rodata_start ki) PAGING_READ
     \<and> verify_symbol k (ki_data_start ki) PAGING_WRITE
     \<and> fst (kernel_translate k 0) = PAGING_STATUS_NOT_MAPPED"
proof -
  have i: "st_active (pk_state k)" "st_table_frames (pk_state k) = h_table_frames (pk_live_hierarchy k)"
    "st_root_physical_address (pk_state k) = h_root (pk_live_hierarchy k)"
    and h: "hier_inv (pk_live_hierarchy k) (pk_world k)" "h_arena_capacity (pk_live_hierarchy k) = 0"
    using assms by (simp_all add: kernel_inv_def)
  note i = i frame_table_count(2) [OF h]
  show ?thesis unfolding paging_verify_def Let_def guarded_iff by (auto simp: i)
qed

lemma kernel_call_verify:
  assumes "kernel_call (watched ki) k k'" and "kernel_inv k" and "paging_verify ki k = PAGING_STATUS_OK"
  shows "kernel_inv k' \<and> paging_verify ki k' = PAGING_STATUS_OK"
proof -
  note v = assms(3) [unfolded paging_verify_OK [OF assms(2)]]
  from v have g: "guarded k" by blast
  note s = kernel_call_safe [OF assms(1,2) g]
  note e = same_kernel_state [OF s(3)]
  have t: "kernel_translate k' 0 = kernel_translate k 0" by (rule s(4)) (simp add: watched_def)
  have sym: "verify_symbol k' a p = verify_symbol k a p" if "a \<in> watched ki" for a p
    unfolding verify_symbol_def s(4) [OF that] ..
  have w: "ki_text_start ki \<in> watched ki" "ki_rodata_start ki \<in> watched ki" "ki_data_start ki \<in> watched ki"
    by (simp_all add: watched_def)
  have "h_root (pk_live_hierarchy k') = h_root (pk_live_hierarchy k)" "pk_cpu k' = pk_cpu k"
    using s(3) by (simp_all add: same_kernel_def same_hierarchy_def)
  then have "paging_verify ki k' = PAGING_STATUS_OK"
    unfolding paging_verify_OK [OF s(1)] t sym [OF w(1)] sym [OF w(2)] sym [OF w(3)] using v s(2) by (simp add: e)
  then show ?thesis using s(1) by blast
qed

end
