(* ===== verification/Paging_Install.thy ===== *)
theory Paging_Install
  imports Kernel_Paging
begin

text \<open>
  What \<open>paging_initialize\<close> installs, when it must succeed and what it leaves behind when it refuses,
  with the properties of the kernel's address space.
\<close>

subsection \<open>Initialisation\<close>

lemma window_no_wrap:
  assumes "validate_device_window_entry v = PAGING_STATUS_OK"
  shows "a \<ge> dw_physical_base v \<and> a < dw_physical_base v + dw_length v \<longleftrightarrow>
     unat (dw_physical_base v) \<le> unat a \<and> unat a < unat (dw_physical_base v) + unat (dw_length v)"
  using validate_entry_bounds(6) [OF assms] by (simp add: word_le_nat_alt word_less_nat_alt)

lemma validated_windows:
  assumes "paging_device_windows_validate (Some ws) (Some []) = (PAGING_STATUS_OK, vs)"
  shows "vs = Some (sort_key window_key ws)"
    and "\<forall>v \<in> set (sort_key window_key ws). validate_device_window_entry v = PAGING_STATUS_OK"
    and "needs_table ki (sort_key window_key ws) 0"
proof -
  note v = validate_OK [OF assms]
  show "vs = Some (sort_key window_key ws)" using v(1) by (simp add: sort_windows_sort)
  show "\<forall>v \<in> set (sort_key window_key ws). validate_device_window_entry v = PAGING_STATUS_OK" using v(3) by simp
  from v(6) obtain x where x: "x \<in> set ws" "dw_kind x = PAGING_DEVICE_WINDOW_VGA_TEXT" by blast
  then have o: "validate_device_window_entry x = PAGING_STATUS_OK" using v(3) by blast
  then have b: "dw_physical_base x = 0xB8000" using x(2)
    unfolding validate_device_window_entry_def by (auto simp: device_window_constants split: if_split_asm)
  have "0 < dw_physical_base x + dw_length x"
    using validate_entry_bounds(1,6) [OF o] by (simp add: word_less_nat_alt)
  then show "needs_table ki (sort_key window_key ws) 0"
    using x(1) b unfolding region_needs_page_table_def Let_def list_ex_iff
    by (intro disjI2 bexI [of _ x]) (simp_all add: PAGING_HUGE_PAGE_SIZE_def)
qed

text \<open>The translations the identity map gives, in the terms of the audit.\<close>

lemma identity_guarded:
  assumes "\<forall>v \<in> set windows. validate_device_window_entry v = PAGING_STATUS_OK"
    and "identity_translation ki (collect_kernel_sections ki) windows a = (PAGING_STATUS_OK, tr)"
  shows "\<not> tr_user tr \<and> \<not> (bit (tr_permissions tr) 0 \<and> bit (tr_permissions tr) 1)"
proof -
  have "\<not> (bit p 0 \<and> bit p 1)" if "validate_permissions p = PAGING_STATUS_OK" for p
    using that by (simp add: validate_permissions_OK)
  moreover have "validate_permissions PAGING_WRITE = PAGING_STATUS_OK" by code_simp
  moreover note section_permissions_ok(1) [OF assms(1), of ki]
  ultimately show ?thesis using assms(2) by (auto simp: identity_translation_def mapping_def split: if_split_asm)
qed

lemma build_hierarchy_OK:
  assumes pool: "frame_pool_inv (pw_frames (pk_world k))" and pat: "pat_ok pat"
    and windows: "\<forall>v \<in> set windows. validate_device_window_entry v = PAGING_STATUS_OK"
    and call: "build_hierarchy px ki windows pat k = (PAGING_STATUS_OK, k')"
  shows "hier_inv (pk_live_hierarchy k') (pk_world k')" and "h_arena_capacity (pk_live_hierarchy k') = 0"
    and "frame_address_ok (h_root (pk_live_hierarchy k'))"
    and "address_is_canonical a \<Longrightarrow> translate_address (pk_live_hierarchy k') a pat (pk_world k')
           = identity_translation ki (collect_kernel_sections ki) windows a"
    and "enable_processor_features px (pk_cpu k) = (PAGING_STATUS_OK, pk_cpu k')"
    and "pk_supervisor_intents k' = pk_supervisor_intents k" and "pk_kernel_sections k' = collect_kernel_sections ki"
proof -
  let ?live = "(pk_live_hierarchy k)\<lparr>h_arena_base := 0, h_arena_capacity := 0, h_arena_used := 0, h_table_frames := 0, h_live := False\<rparr>"
  obtain c root live w fine live' w' where
    c: "enable_processor_features px (pk_cpu k) = (PAGING_STATUS_OK, c)"
    and al: "allocate_table ?live (pk_world k) = (PAGING_STATUS_OK, root, live, w)"
    and b: "build_identity_map ki (collect_kernel_sections ki) windows (live\<lparr>h_root := the root\<rparr>) w
        = (fine, PAGING_STATUS_OK, live', w')"
    and k': "k' = k\<lparr>pk_cpu := c, pk_kernel_sections := collect_kernel_sections ki, pk_live_hierarchy := live',
        pk_world := w', pk_fine_region_count := fine\<rparr>"
    using call unfolding build_hierarchy_def
    by (auto simp: Let_def split: prod.split_asm if_split_asm)
  have p: "table_pool_inv (?live, pk_world k)" using pool by (simp add: table_pool_inv_def)
  have "h_table_frames ?live = 0" by simp
  note r = allocated_root [OF p this al]
  have cap: "h_arena_capacity (live\<lparr>h_root := the root\<rparr>) = 0" using r(3) by (simp add: same_hierarchy_def)
  have e: "empty_table (pw_tables w) (h_root (live\<lparr>h_root := the root\<rparr>))" using r(4) by simp
  note t = build_identity_map_translations [OF r(1) e pat b]
  show "hier_inv (pk_live_hierarchy k') (pk_world k')" using t(1) by (simp add: k')
  show "h_arena_capacity (pk_live_hierarchy k') = 0" using t(2) cap by (simp add: k' same_hierarchy_def)
  have "h_root live' = the root" using t(2) by (simp add: same_hierarchy_def)
  moreover have "the root \<in> reach (pw_tables w) (the root)" by simp
  then have "the root \<in> table_taken (live\<lparr>h_root := the root\<rparr>, w)" using hier_invD(4) [OF r(1)] by auto
  then have "frame_address_ok (the root)" using table_taken_ok(1) [OF hier_invD(1) [OF r(1)]] by blast
  ultimately show "frame_address_ok (h_root (pk_live_hierarchy k'))" by (simp add: k')
  show "address_is_canonical a \<Longrightarrow> translate_address (pk_live_hierarchy k') a pat (pk_world k')
           = identity_translation ki (collect_kernel_sections ki) windows a" using t(4) by (simp add: k')
  show "enable_processor_features px (pk_cpu k) = (PAGING_STATUS_OK, pk_cpu k')"
    "pk_supervisor_intents k' = pk_supervisor_intents k" "pk_kernel_sections k' = collect_kernel_sections ki"
    using c by (simp_all add: k')
qed


lemma enable_processor_features_OK:
  assumes "enable_processor_features px c = (PAGING_STATUS_OK, c')"
  shows "cpu_registers c' (MSR IA32_EFER_MSR) AND EFER_NO_EXECUTE_ENABLE \<noteq> 0"
    and "cpu_registers c' CR0 AND CR0_WRITE_PROTECT \<noteq> 0" and "cpu_interrupt_flag c' = cpu_interrupt_flag c"
    and "cpu_registers c' CR3 = cpu_registers c CR3"
    and "cpu_registers c' (MSR IA32_PAT_MSR) = cpu_registers c (MSR IA32_PAT_MSR)"
  using assms unfolding enable_processor_features_def Let_def
  by (auto simp: cpu_write_def IA32_EFER_MSR_def IA32_PAT_MSR_def split: if_split_asm)

lemma hier_inv_live: "hier_inv (h\<lparr>h_live := b\<rparr>) w = hier_inv h w"
proof -
  have "arena_page (h\<lparr>h_live := b\<rparr>) = arena_page h" by (simp add: arena_page_def fun_eq_iff)
  then show ?thesis by (simp add: hier_inv_def table_pool_defs)
qed

lemma translate_live: "translate_address (h\<lparr>h_live := b\<rparr>) a pat w = translate_address h a pat w"
  by (simp add: translate_address_def)

lemma install_hierarchy_OK:
  assumes "hier_inv (pk_live_hierarchy k) (pk_world k)" and "h_arena_capacity (pk_live_hierarchy k) = 0" and "pat_ok pat"
    and "length (pk_supervisor_intents k) \<le> PAGING_SUPERVISOR_INTENT_CAPACITY"
    and call: "install_hierarchy px ki windows before pat k = (PAGING_STATUS_OK, k')"
  shows "kernel_inv k'" and "paging_verify ki k' = PAGING_STATUS_OK"
    and "kernel_translate k' a = translate_address (pk_live_hierarchy k) a pat (pk_world k)"
    and "pk_installed_device_windows k' = windows" and "st_pat_after (pk_state k') = pat"
    and "pk_kernel_sections k' = pk_kernel_sections k" and "pk_supervisor_intents k' = pk_supervisor_intents k"
    and "cpu_cache_flushes (pk_cpu k') = cpu_cache_flushes (pk_cpu k) + 2"
proof -
  let ?state = "\<lparr>st_root_physical_address = h_root (pk_live_hierarchy k), st_table_frames = h_table_frames (pk_live_hierarchy k),
      st_fine_regions = pk_fine_region_count k, st_pat_before = before, st_pat_after = pat,
      st_write_combining_pat_entry = PAT_WRITE_COMBINING_ENTRY, st_no_execute_active = True,
      st_write_protect_active = True, st_active = True\<rparr>"
  from call obtain c where k': "k' = k\<lparr>pk_state := ?state, pk_installed_device_windows := windows,
        pk_live_hierarchy := (pk_live_hierarchy k)\<lparr>h_live := True\<rparr>, pk_cpu := c\<rparr>"
    and c: "cpu_cache_flushes c = cpu_cache_flushes (pk_cpu k) + 2" and v: "paging_verify ki k' = PAGING_STATUS_OK"
    unfolding install_hierarchy_def Let_def
    by (auto simp: cpu_write_back_and_invalidate_cache_def cpu_write_def split: if_split_asm)
  show "kernel_inv k'" using assms(1-4) by (simp add: kernel_inv_def k' hier_inv_live)
  show "paging_verify ki k' = PAGING_STATUS_OK" by (rule v)
  show "kernel_translate k' a = translate_address (pk_live_hierarchy k) a pat (pk_world k)"
    by (simp add: k' translate_live)
  show "pk_installed_device_windows k' = windows" "st_pat_after (pk_state k') = pat"
    "pk_kernel_sections k' = pk_kernel_sections k" "pk_supervisor_intents k' = pk_supervisor_intents k"
    "cpu_cache_flushes (pk_cpu k') = cpu_cache_flushes (pk_cpu k) + 2"
    using c by (simp_all add: k')
qed

text \<open>The checks that come before the build.\<close>

definition processor_status :: "processor \<Rightarrow> cpu \<Rightarrow> paging_status \<times> u64" where
  "processor_status px c =
     (let basic_edx = edx_of (px_cpuid px CPUID_BASIC_FEATURES 0);
          extended_root_eax = fst (px_cpuid px CPUID_EXTENDED_ROOT 0);
          extended_features_edx = (if extended_root_eax \<ge> CPUID_EXTENDED_FEATURES
             then edx_of (px_cpuid px CPUID_EXTENDED_FEATURES 0) else 0);
          pat_before = (if basic_edx AND CPUID_PAT \<noteq> 0 then cpu_registers c (MSR IA32_PAT_MSR) else 0)
      in (decode_processor_support basic_edx extended_root_eax extended_features_edx (cpu_registers c CR4) pat_before,
          pat_before))"

lemma paging_initialize_eq:
  assumes "\<not> st_active (pk_state k)"
    and "paging_device_windows_validate (Some ws) (Some []) = (PAGING_STATUS_OK, vs)"
    and "validate_kernel_layout (ki_kernel_start ki) (ki_kernel_end ki) = PAGING_STATUS_OK"
    and "reject_kernel_device_overlap ki (the vs) = PAGING_STATUS_OK"
    and "\<not> cpu_interrupt_flag (pk_cpu k)" and "processor_status px (pk_cpu k) = (PAGING_STATUS_OK, before)"
  defines "pat \<equiv> pat_replace_entry before PAT_WRITE_COMBINING_ENTRY PAT_TYPE_WRITE_COMBINING"
  shows "paging_initialize px ki (Some ws) k = (case build_hierarchy px ki (the vs) pat k of
     (status, k') \<Rightarrow> if status \<noteq> PAGING_STATUS_OK then (status, k') else install_hierarchy px ki (the vs) before pat k')"
  using assms unfolding paging_initialize_def processor_status_def Let_def by (auto split: prod.split)

lemma paging_initialize_checks:
  assumes "paging_initialize px ki (Some ws) k = (PAGING_STATUS_OK, k')"
  obtains vs before where "\<not> st_active (pk_state k)"
    "paging_device_windows_validate (Some ws) (Some []) = (PAGING_STATUS_OK, vs)"
    "validate_kernel_layout (ki_kernel_start ki) (ki_kernel_end ki) = PAGING_STATUS_OK"
    "reject_kernel_device_overlap ki (the vs) = PAGING_STATUS_OK"
    "\<not> cpu_interrupt_flag (pk_cpu k)" "processor_status px (pk_cpu k) = (PAGING_STATUS_OK, before)"
  using assms unfolding paging_initialize_def processor_status_def Let_def
  by (auto split: if_split_asm prod.split_asm)

lemma initialized_kernel:
  assumes pool: "frame_pool_inv (pw_frames (pk_world k))" and n: "length (pk_supervisor_intents k) \<le> PAGING_SUPERVISOR_INTENT_CAPACITY"
    and call: "paging_initialize px ki (Some ws) k = (PAGING_STATUS_OK, k')"
  shows "kernel_inv k'" and "paging_verify ki k' = PAGING_STATUS_OK"
    and "pk_installed_device_windows k' = sort_key window_key ws"
    and "address_is_canonical a \<Longrightarrow> kernel_translate k' a
           = identity_translation ki (collect_kernel_sections ki) (sort_key window_key ws) a"
    and "unat a < 4096 \<Longrightarrow> kernel_translate k' a = unmapped"
proof -
  obtain vs before where c: "\<not> st_active (pk_state k)"
    "paging_device_windows_validate (Some ws) (Some []) = (PAGING_STATUS_OK, vs)"
    "validate_kernel_layout (ki_kernel_start ki) (ki_kernel_end ki) = PAGING_STATUS_OK"
    "reject_kernel_device_overlap ki (the vs) = PAGING_STATUS_OK"
    "\<not> cpu_interrupt_flag (pk_cpu k)" "processor_status px (pk_cpu k) = (PAGING_STATUS_OK, before)"
    by (rule paging_initialize_checks [OF call])
  let ?vs = "sort_key window_key ws" and ?pat = "pat_replace_entry before PAT_WRITE_COMBINING_ENTRY PAT_TYPE_WRITE_COMBINING"
  note v = validated_windows [OF c(2)]
  have pat: "pat_ok ?pat"
    using c(6) unfolding processor_status_def Let_def by (auto intro: decode_processor_support_pat)
  obtain k1 where b: "build_hierarchy px ki ?vs ?pat k = (PAGING_STATUS_OK, k1)"
    and i: "install_hierarchy px ki ?vs before ?pat k1 = (PAGING_STATUS_OK, k')"
    using call unfolding paging_initialize_eq [OF c] v(1) option.sel by (auto split: prod.split_asm if_split_asm)
  note bh = build_hierarchy_OK [OF pool pat v(2) b]
  have n1: "length (pk_supervisor_intents k1) \<le> PAGING_SUPERVISOR_INTENT_CAPACITY" using n bh(6) by simp
  note ih = install_hierarchy_OK [OF bh(1,2) pat n1 i]
  show "kernel_inv k'" "paging_verify ki k' = PAGING_STATUS_OK" "pk_installed_device_windows k' = ?vs" by (rule ih)+
  have t: "kernel_translate k' a = identity_translation ki (collect_kernel_sections ki) ?vs a" if "address_is_canonical a" for a
    unfolding ih(3) by (rule bh(4) [OF that])
  then show "address_is_canonical a \<Longrightarrow> kernel_translate k' a = identity_translation ki (collect_kernel_sections ki) ?vs a" by blast
  show "kernel_translate k' a = unmapped" if a: "unat a < 4096"
  proof -
    have low: "unat a < 2 ^ 32" using a by simp
    have "unat (a AND NOT (mask 21)) = 0" using a by (simp add: unat_and_not_mask)
    then have "a AND NOT (mask 21) = 0" by (simp only: unat_eq_0)
    moreover have "a < PAGING_PAGE_SIZE" using a by (simp add: word_less_nat_alt PAGING_PAGE_SIZE_def)
    ultimately show ?thesis
      using t [OF low_canonical [OF low]] below_limit [OF low] v(3) [of ki] by (simp add: identity_translation_def page_size_mask)
  qed
qed

text \<open>The layout the linker script gives the image: page-aligned sections in order.\<close>

definition image_layout :: "kernel_image \<Rightarrow> bool" where
  "image_layout ki \<longleftrightarrow> 0 < ki_kernel_start ki \<and> ki_kernel_start ki \<le> ki_text_start ki \<and> ki_text_start ki < ki_text_end ki
     \<and> ki_text_end ki \<le> ki_rodata_start ki \<and> ki_rodata_start ki < ki_rodata_end ki
     \<and> ki_rodata_end ki \<le> ki_data_start ki \<and> ki_data_start ki < ki_kernel_end ki
     \<and> 4096 dvd unat (ki_text_start ki) \<and> 4096 dvd unat (ki_rodata_start ki) \<and> 4096 dvd unat (ki_data_start ki)"

lemma kernel_sections_at:
  assumes "image_layout ki"
  shows "find (\<lambda>s. ki_text_start ki \<ge> ps_start s \<and> ki_text_start ki < ps_end s) (collect_kernel_sections ki)
      = Some \<lparr>ps_start = ki_text_start ki, ps_end = ki_text_end ki, ps_permissions = PAGING_EXECUTE\<rparr>"
    and "find (\<lambda>s. ki_rodata_start ki \<ge> ps_start s \<and> ki_rodata_start ki < ps_end s) (collect_kernel_sections ki)
      = Some \<lparr>ps_start = ki_rodata_start ki, ps_end = ki_rodata_end ki, ps_permissions = PAGING_READ\<rparr>"
    and "find (\<lambda>s. ki_data_start ki \<ge> ps_start s \<and> ki_data_start ki < ps_end s) (collect_kernel_sections ki)
      = Some \<lparr>ps_start = ki_data_start ki, ps_end = ki_kernel_end ki, ps_permissions = PAGING_WRITE\<rparr>"
  using assms unfolding image_layout_def collect_kernel_sections_def add_section_def Let_def by auto

text \<open>An aligned bound separates the pages as it separates the addresses in them.\<close>

lemma page_base_less: "4096 dvd unat b \<Longrightarrow> (a :: u64) AND NOT (mask 12) < b \<longleftrightarrow> a < b"
proof -
  assume "4096 dvd unat b"
  then obtain m where m: "unat b = 4096 * m" by (auto elim: dvdE)
  have p: "unat (a AND NOT (mask 12)) = unat a div 4096 * 4096" by (simp add: unat_and_not_mask minus_mod_eq_div_mult)
  show ?thesis unfolding word_less_nat_alt p m using div_less_iff_less_mult [of 4096 "unat a" m] by (simp add: mult.commute)
qed

lemma page_offset_zero: "(a :: u64) AND (PAGING_PAGE_SIZE - 1) = 0 \<longleftrightarrow> 4096 dvd unat a"
  using level_aligned_iff [of a 1] by (simp add: PAGING_PAGE_SIZE_def)

lemma page_base_le: "(a :: u64) AND NOT (mask 12) \<le> a"
  by (simp add: word_le_nat_alt unat_and_not_mask)

lemma window_page_iff:
  assumes "validate_device_window_entry v = PAGING_STATUS_OK"
  shows "a AND NOT (mask 12) \<ge> dw_physical_base v \<longleftrightarrow> a \<ge> dw_physical_base v"
    and "a AND NOT (mask 12) < dw_physical_base v + dw_length v \<longleftrightarrow> a < dw_physical_base v + dw_length v"
proof -
  note v = validate_entry_bounds [OF assms]
  show "a AND NOT (mask 12) \<ge> dw_physical_base v \<longleftrightarrow> a \<ge> dw_physical_base v"
    using page_base_less [OF v(4), of a] by (simp add: linorder_not_less [symmetric])
  have "4096 dvd unat (dw_physical_base v + dw_length v)" unfolding v(6) using v(4,5) by (rule dvd_add)
  from page_base_less [OF this]
  show "a AND NOT (mask 12) < dw_physical_base v + dw_length v \<longleftrightarrow> a < dw_physical_base v + dw_length v" .
qed

lemma device_window_at_page:
  assumes "\<forall>v \<in> set windows. validate_device_window_entry v = PAGING_STATUS_OK"
  shows "device_window_at windows (a AND NOT (mask 12)) = device_window_at windows a"
  unfolding device_window_at_def using assms by (induction windows) (simp_all add: window_page_iff)

lemma not_some_pair: "\<not> some_pair P xs \<Longrightarrow> x \<in> set xs \<Longrightarrow> y \<in> set xs \<Longrightarrow> x \<noteq> y \<Longrightarrow> \<not> P x y \<or> \<not> P y x"
  by (induction xs) auto

lemma device_window_at_only:
  assumes "\<not> some_pair ranges_overlap windows" and "v \<in> set windows"
    and "dw_physical_base v \<le> a" "a < dw_physical_base v + dw_length v"
  shows "device_window_at windows a = Some v"
proof -
  obtain w where w: "device_window_at windows a = Some w"
    using assms(2-4) unfolding device_window_at_def by (cases "device_window_at windows a") (auto simp: device_window_at_def find_None_iff)
  then have "w \<in> set windows" "dw_physical_base w \<le> a" "a < dw_physical_base w + dw_length w"
    unfolding device_window_at_def by (auto dest: find_Some)
  moreover from this have "ranges_overlap v w" "ranges_overlap w v"
    using assms(3,4) by (auto simp: ranges_overlap_def Let_def)
  ultimately have "v = w" using not_some_pair [OF assms(1,2)] by blast
  then show ?thesis using w by simp
qed

lemma region_of_address:
  assumes "unat (a :: u64) < 2 ^ 32"
  shows "a AND NOT (mask 21) \<le> a" and "a < (a AND NOT (mask 21)) + PAGING_HUGE_PAGE_SIZE"
proof -
  let ?b = "a AND NOT (mask 21)"
  have b: "unat ?b = unat a div 2 ^ 21 * 2 ^ 21" by (simp add: unat_and_not_mask minus_mod_eq_div_mult)
  have le: "unat ?b \<le> unat a" unfolding b by simp
  then show "?b \<le> a" by (simp add: word_le_nat_alt)
  have "unat (?b + PAGING_HUGE_PAGE_SIZE) = unat ?b + 2 ^ 21"
    using assms le by (subst unat_plus_bounded) (simp_all add: PAGING_HUGE_PAGE_SIZE_def)
  then show "a < ?b + PAGING_HUGE_PAGE_SIZE"
    unfolding word_less_nat_alt b using dividend_less_div_times [of "2 ^ 21" "unat a"] by simp
qed

lemma identity_translation_fine:
  assumes a: "4096 \<le> unat a" "unat a < 2 ^ 32"
    and fine: "ki_kernel_start ki \<le> a \<and> a < ki_kernel_end ki
       \<or> (\<exists>v \<in> set windows. dw_physical_base v \<le> a \<and> a < dw_physical_base v + dw_length v)"
  shows "identity_translation ki sections windows a
     = (PAGING_STATUS_OK, mapping a (section_permissions sections windows (a AND NOT (mask 12))) 1)"
proof -
  note r = region_of_address [OF a(2)]
  have "needs_table ki windows (a AND NOT (mask 21))"
    using fine le_less_trans [OF r(1)] le_less_trans [OF _ r(2)]
    unfolding region_needs_page_table_def Let_def list_ex_iff by blast
  moreover have "\<not> a < PAGING_PAGE_SIZE" using a(1) by (simp add: word_less_nat_alt PAGING_PAGE_SIZE_def)
  ultimately show ?thesis using below_limit [OF a(2)] unfolding identity_translation_def page_size_mask by simp
qed

lemma identity_translation_plain:
  assumes a: "4096 \<le> unat a" "unat a < 2 ^ 32"
    and plain: "section_permissions sections windows (a AND NOT (mask 12)) = PAGING_WRITE"
  shows "\<exists>l. identity_translation ki sections windows a = (PAGING_STATUS_OK, mapping a PAGING_WRITE l)"
proof -
  have "\<not> a < PAGING_PAGE_SIZE" using a(1) by (simp add: word_less_nat_alt PAGING_PAGE_SIZE_def)
  then show ?thesis using below_limit [OF a(2)] plain unfolding identity_translation_def page_size_mask by auto
qed

lemma image_sections:
  assumes "image_layout ki"
  shows "collect_kernel_sections ki =
     (if ki_kernel_start ki < ki_text_start ki
      then [\<lparr>ps_start = ki_kernel_start ki, ps_end = ki_text_start ki, ps_permissions = PAGING_READ\<rparr>] else [])
     @ [\<lparr>ps_start = ki_text_start ki, ps_end = ki_text_end ki, ps_permissions = PAGING_EXECUTE\<rparr>,
        \<lparr>ps_start = ki_rodata_start ki, ps_end = ki_rodata_end ki, ps_permissions = PAGING_READ\<rparr>,
        \<lparr>ps_start = ki_data_start ki, ps_end = ki_kernel_end ki, ps_permissions = PAGING_WRITE\<rparr>]"
  using assms by (simp add: image_layout_def collect_kernel_sections_def add_section_def Let_def not_le [symmetric])

text \<open>The sections of the linker script, found at the page of an address.\<close>

lemma section_at_page:
  assumes "image_layout ki" and "validate_kernel_layout (ki_kernel_start ki) (ki_kernel_end ki) = PAGING_STATUS_OK"
  defines "right a \<equiv> map_option ps_permissions
     (find (\<lambda>s. a AND NOT (mask 12) \<ge> ps_start s \<and> a AND NOT (mask 12) < ps_end s) (collect_kernel_sections ki))"
  shows "ki_text_start ki \<le> a \<Longrightarrow> a < ki_text_end ki \<Longrightarrow> right a = Some PAGING_EXECUTE"
    and "ki_rodata_start ki \<le> a \<Longrightarrow> a < ki_rodata_end ki \<Longrightarrow> right a = Some PAGING_READ"
    and "ki_data_start ki \<le> a \<Longrightarrow> a < ki_kernel_end ki \<Longrightarrow> right a = Some PAGING_WRITE"
    and "\<not> (ki_kernel_start ki \<le> a \<and> a < ki_kernel_end ki) \<Longrightarrow> right a = None"
    and "ki_kernel_start ki \<le> a \<Longrightarrow> a < ki_text_start ki \<Longrightarrow> right a = Some PAGING_READ"
proof -
  note l = assms(1) [unfolded image_layout_def]
  have "4096 dvd unat (ki_kernel_start ki)" "4096 dvd unat (ki_kernel_end ki)"
    using assms(2) by (auto simp: validate_kernel_layout_def page_offset_zero split: if_split_asm)
  then have b: "(a AND NOT (mask 12) < x) = (a < x)"
    if "x \<in> {ki_kernel_start ki, ki_kernel_end ki, ki_text_start ki, ki_rodata_start ki, ki_data_start ki}" for x
    using that l by (auto simp: page_base_less)
  let ?p = "a AND NOT (mask 12)"
  have s: "ki_text_start ki \<le> ?p \<longleftrightarrow> ki_text_start ki \<le> a" "ki_rodata_start ki \<le> ?p \<longleftrightarrow> ki_rodata_start ki \<le> a"
    "ki_data_start ki \<le> ?p \<longleftrightarrow> ki_data_start ki \<le> a" "ki_kernel_start ki \<le> ?p \<longleftrightarrow> ki_kernel_start ki \<le> a"
    "?p < ki_kernel_end ki \<longleftrightarrow> a < ki_kernel_end ki"
    using b by (simp_all add: linorder_not_less [symmetric])
  have e: "?p \<le> a" by (rule page_base_le)
  show "right a = Some PAGING_EXECUTE" if "ki_text_start ki \<le> a" "a < ki_text_end ki"
  proof -
    have "ki_text_start ki \<le> ?p" "?p < ki_text_end ki" "\<not> ?p < ki_text_start ki" using that s(1) e by auto
    then show ?thesis unfolding right_def image_sections [OF assms(1)] by simp
  qed
  show "right a = Some PAGING_READ" if "ki_rodata_start ki \<le> a" "a < ki_rodata_end ki"
  proof -
    have r: "ki_rodata_start ki \<le> ?p" "?p < ki_rodata_end ki" using that s(2) e by auto
    then have "\<not> ?p < ki_text_start ki" "\<not> ?p < ki_text_end ki" using l by auto
    with r show ?thesis unfolding right_def image_sections [OF assms(1)] by simp
  qed
  show "right a = Some PAGING_WRITE" if "ki_data_start ki \<le> a" "a < ki_kernel_end ki"
  proof -
    have r: "ki_data_start ki \<le> ?p" "?p < ki_kernel_end ki" using that s(3,5) by auto
    then have "\<not> ?p < ki_text_start ki" "\<not> ?p < ki_text_end ki" "\<not> ?p < ki_rodata_end ki" using l by auto
    with r show ?thesis unfolding right_def image_sections [OF assms(1)] by simp
  qed
  show "right a = Some PAGING_READ" if "ki_kernel_start ki \<le> a" "a < ki_text_start ki"
  proof -
    have "ki_kernel_start ki \<le> ?p" "?p < ki_text_start ki" "ki_kernel_start ki < ki_text_start ki" using that s(4) b by auto
    then show ?thesis unfolding right_def image_sections [OF assms(1)] by simp
  qed
  show "right a = None" if "\<not> (ki_kernel_start ki \<le> a \<and> a < ki_kernel_end ki)"
  proof -
    have "?p < ki_kernel_start ki \<or> ki_kernel_end ki \<le> ?p" using that s(4,5) by auto
    then show ?thesis
    proof
      assume r: "?p < ki_kernel_start ki"
      then have "\<not> ki_text_start ki \<le> ?p" "\<not> ki_rodata_start ki \<le> ?p" "\<not> ki_data_start ki \<le> ?p" "\<not> ki_kernel_start ki \<le> ?p"
        using l by auto
      then show ?thesis unfolding right_def image_sections [OF assms(1)] by simp
    next
      assume "ki_kernel_end ki \<le> ?p"
      then have "\<not> ?p < ki_text_start ki" "\<not> ?p < ki_text_end ki" "\<not> ?p < ki_rodata_end ki" "\<not> ?p < ki_kernel_end ki" using l by auto
      then show ?thesis unfolding right_def image_sections [OF assms(1)] by simp
    qed
  qed
qed

lemma kernel_address_bounds:
  assumes "validate_kernel_layout (ki_kernel_start ki) (ki_kernel_end ki) = PAGING_STATUS_OK" and "0 < ki_kernel_start ki"
    and "ki_kernel_start ki \<le> a" "a < ki_kernel_end ki"
  shows "4096 \<le> unat a" and "unat a < 2 ^ 32"
proof -
  have "4096 dvd unat (ki_kernel_start ki)" "ki_kernel_end ki \<le> PAGING_KERNEL_IMAGE_LIMIT"
    using assms(1) by (auto simp: validate_kernel_layout_def page_offset_zero split: if_split_asm)
  moreover have "0 < unat (ki_kernel_start ki)" using assms(2) by (simp add: word_less_nat_alt)
  ultimately have "4096 \<le> unat (ki_kernel_start ki)" "unat (ki_kernel_end ki) \<le> 2 ^ 23"
    by (auto dest: dvd_imp_le simp: word_le_nat_alt PAGING_KERNEL_IMAGE_LIMIT_def)
  then show "4096 \<le> unat a" "unat a < 2 ^ 32" using assms(3,4) by (simp_all add: word_le_nat_alt word_less_nat_alt)
qed

lemma kernel_no_window:
  assumes "reject_kernel_device_overlap ki windows = PAGING_STATUS_OK" and "ki_kernel_start ki \<le> a" "a < ki_kernel_end ki"
  shows "device_window_at windows a = None"
proof (rule ccontr)
  assume "device_window_at windows a \<noteq> None"
  then obtain v where v: "v \<in> set windows" "a \<ge> dw_physical_base v" "a < dw_physical_base v + dw_length v"
    unfolding device_window_at_def by (auto dest: find_Some)
  then have "dw_physical_base v < ki_kernel_end ki" "ki_kernel_start ki < dw_physical_base v + dw_length v" using assms(2,3) by auto
  then show False using assms(1) v(1) by (auto simp: reject_kernel_device_overlap_def list_ex_iff split: if_split_asm)
qed

lemma window_address_bounds:
  assumes "validate_device_window_entry v = PAGING_STATUS_OK" and "dw_physical_base v \<le> a" "a < dw_physical_base v + dw_length v"
  shows "4096 \<le> unat a" and "unat a < 2 ^ 32"
proof -
  note v = validate_entry_bounds [OF assms(1)]
  have "4096 \<le> unat (dw_physical_base v)" using v(2,4) by (rule dvd_imp_le [rotated])
  then show "4096 \<le> unat a" "unat a < 2 ^ 32" using assms(2,3) v(3,6) by (simp_all add: word_le_nat_alt word_less_nat_alt)
qed

lemma window_translation:
  assumes "validate_device_window_entry v = PAGING_STATUS_OK"
  defines "t a \<equiv> mapping a (device_window_mapping_permissions v) 1"
  shows "tr_physical_address (t a) = a \<and> tr_memory_type (t a) = dw_memory_type v \<and> tr_permissions (t a) AND PAGING_EXECUTE = 0
     \<and> (tr_permissions (t a) AND PAGING_WRITE \<noteq> 0 \<longleftrightarrow> dw_permissions v AND PAGING_DEVICE_WINDOW_WRITE \<noteq> 0)"
proof -
  have "device_window_mapping_permissions v AND PAGING_EXECUTE = 0"
    "device_window_mapping_permissions v AND PAGING_WRITE \<noteq> 0 \<longleftrightarrow> dw_permissions v AND PAGING_DEVICE_WINDOW_WRITE \<noteq> 0"
    by (cases "dw_memory_type v"; auto simp: device_window_mapping_permissions_def Let_def PAGING_READ_def PAGING_WRITE_def
      PAGING_UNCACHED_def PAGING_WRITE_COMBINING_def PAGING_EXECUTE_def)+
  then show ?thesis using window_permissions(2) [OF assms(1)] unfolding t_def mapping_def by simp
qed

text \<open>The translation the identity intent gives in the image, in a window and elsewhere.\<close>

lemma identity_translation_kernel:
  assumes windows: "\<forall>v \<in> set windows. validate_device_window_entry v = PAGING_STATUS_OK"
    and layout: "validate_kernel_layout (ki_kernel_start ki) (ki_kernel_end ki) = PAGING_STATUS_OK" "0 < ki_kernel_start ki"
    and apart: "reject_kernel_device_overlap ki windows = PAGING_STATUS_OK"
    and a: "ki_kernel_start ki \<le> a" "a < ki_kernel_end ki"
    and q: "map_option ps_permissions (find (\<lambda>s. a AND NOT (mask 12) \<ge> ps_start s \<and> a AND NOT (mask 12) < ps_end s) sections) = Some q"
  shows "identity_translation ki sections windows a = (PAGING_STATUS_OK, mapping a q 1)"
proof -
  have "section_permissions sections windows (a AND NOT (mask 12)) = q"
    using q kernel_no_window [OF apart a] unfolding section_permissions_def device_window_at_page [OF windows]
    by (auto split: option.split)
  then show ?thesis using identity_translation_fine [OF kernel_address_bounds [OF layout a]] a by simp
qed

lemma identity_translation_window:
  assumes windows: "\<forall>v \<in> set windows. validate_device_window_entry v = PAGING_STATUS_OK"
    and apart: "\<not> some_pair ranges_overlap windows"
    and v: "v \<in> set windows" and a: "dw_physical_base v \<le> a" "a < dw_physical_base v + dw_length v"
  shows "identity_translation ki sections windows a = (PAGING_STATUS_OK, mapping a (device_window_mapping_permissions v) 1)"
proof -
  have "validate_device_window_entry v = PAGING_STATUS_OK" using windows v by blast
  note b = window_address_bounds [OF this a]
  have "section_permissions sections windows (a AND NOT (mask 12)) = device_window_mapping_permissions v"
    unfolding section_permissions_def device_window_at_page [OF windows] device_window_at_only [OF apart v a] by simp
  moreover have "\<exists>v \<in> set windows. dw_physical_base v \<le> a \<and> a < dw_physical_base v + dw_length v" using v a by blast
  ultimately show ?thesis using identity_translation_fine [OF b] by simp
qed

lemma identity_translation_elsewhere:
  assumes windows: "\<forall>v \<in> set windows. validate_device_window_entry v = PAGING_STATUS_OK"
    and layout: "image_layout ki" "validate_kernel_layout (ki_kernel_start ki) (ki_kernel_end ki) = PAGING_STATUS_OK"
    and a: "4096 \<le> unat a" "unat a < 2 ^ 32" "\<not> (ki_kernel_start ki \<le> a \<and> a < ki_kernel_end ki)"
    and w: "\<forall>v \<in> set windows. \<not> (dw_physical_base v \<le> a \<and> a < dw_physical_base v + dw_length v)"
  shows "\<exists>l. identity_translation ki (collect_kernel_sections ki) windows a = (PAGING_STATUS_OK, mapping a PAGING_WRITE l)"
proof (rule identity_translation_plain [OF a(1,2)])
  have "device_window_at windows a = None" using w by (auto simp: device_window_at_def find_None_iff)
  then show "section_permissions (collect_kernel_sections ki) windows (a AND NOT (mask 12)) = PAGING_WRITE"
    using section_at_page(4) [OF layout a(3)] unfolding section_permissions_def device_window_at_page [OF windows] by simp
qed

lemma kernel_page_translation:
  assumes windows: "\<forall>v \<in> set windows. validate_device_window_entry v = PAGING_STATUS_OK"
    and layout: "validate_kernel_layout (ki_kernel_start ki) (ki_kernel_end ki) = PAGING_STATUS_OK"
    and apart: "reject_kernel_device_overlap ki windows = PAGING_STATUS_OK"
    and a: "ki_kernel_start ki \<le> a" "a < ki_kernel_end ki" "4096 dvd unat a" and "0 < ki_kernel_start ki"
    and s: "find (\<lambda>s. a \<ge> ps_start s \<and> a < ps_end s) (collect_kernel_sections ki) = Some s"
  shows "identity_translation ki (collect_kernel_sections ki) windows a = (PAGING_STATUS_OK, mapping a (ps_permissions s) 1)"
proof (rule identity_translation_kernel [OF windows layout assms(7) apart a(1,2)])
  have "2 ^ 12 dvd unat a" using a(3) by simp
  then have "a AND NOT (mask 12) = a"
    using page_containing [of 12 a PAGING_PAGE_SIZE a] by (simp add: in_range_def PAGING_PAGE_SIZE_def)
  then show "map_option ps_permissions
      (find (\<lambda>s. a AND NOT (mask 12) \<ge> ps_start s \<and> a AND NOT (mask 12) < ps_end s) (collect_kernel_sections ki)) = Some (ps_permissions s)"
    using s by simp
qed

text \<open>A register that holds what is written to it.\<close>

definition holds :: "processor \<Rightarrow> cpu_register \<Rightarrow> bool" where
  "holds px r \<longleftrightarrow> (\<forall>before v. px_settle px r before v = v)"

lemma holds_write: "holds px r \<Longrightarrow> cpu_write px r v c = c\<lparr>cpu_registers := (cpu_registers c)(r := v)\<rparr>"
  by (simp add: holds_def cpu_write_def)

lemma or_flag: "(x OR f) AND f = (f :: 'a :: len word)"
  by (rule bit_word_eqI) (auto simp: bit_and_iff bit_or_iff)

lemma enable_processor_features_holds:
  assumes "holds px (MSR IA32_EFER_MSR)" and "holds px CR0"
  obtains c' where "enable_processor_features px c = (PAGING_STATUS_OK, c')"
proof -
  have "EFER_NO_EXECUTE_ENABLE \<noteq> 0" "CR0_WRITE_PROTECT \<noteq> 0" by (simp_all add: EFER_NO_EXECUTE_ENABLE_def CR0_WRITE_PROTECT_def)
  then show thesis
    using that unfolding enable_processor_features_def Let_def holds_write [OF assms(1)] holds_write [OF assms(2)]
    by (simp add: or_flag)
qed

lemma allocate_root_room:
  assumes pool: "frame_pool_inv (pw_frames w)" and cap: "h_arena_capacity h = 0" "h_table_frames h = 0"
    and room: "Suc n \<le> card (free_set (pw_frames w))"
  obtains root h1 w1 where "allocate_table h w = (PAGING_STATUS_OK, Some root, h1, w1)"
    "hier_inv (h1\<lparr>h_root := root\<rparr>) w1" "empty_table (pw_tables w1) root"
    "h_arena_capacity h1 = 0" "n \<le> card (free_set (pw_frames w1))"
proof -
  have "free_set (pw_frames w) \<noteq> {}" using room by auto
  then obtain root h1 w1 where a: "allocate_table h w = (PAGING_STATUS_OK, Some root, h1, w1)"
    using allocate_table_frames [OF cap(1) pool] by blast
  have p: "table_pool_inv (h, w)" using pool cap by (simp add: table_pool_inv_def)
  note r = allocated_root [OF p cap(2) a]
  have s: "h_arena_capacity h1 = 0" using r(3) cap(1) by (simp add: same_hierarchy_def)
  have "table_free (h1, w1) = table_free (h, w) - {root}"
    using allocate_table_OK [OF p a] by auto
  then have "frame_addresses (free_set (pw_frames w1)) = frame_addresses (free_set (pw_frames w)) - {root}"
    using s cap(1) by (simp add: table_free_def)
  then have "card (frame_addresses (free_set (pw_frames w))) - 1 \<le> card (frame_addresses (free_set (pw_frames w1)))"
    using diff_card_le_card_Diff [of "{root}" "frame_addresses (free_set (pw_frames w))"] by simp
  then have "n \<le> card (free_set (pw_frames w1))"
    using room by (simp add: frame_addresses_card [OF frame_set_bounds(1)])
  then show thesis using that [OF a] r(1,4) s by simp
qed

lemma build_hierarchy_completes:
  assumes px: "holds px (MSR IA32_EFER_MSR)" "holds px CR0" and pool: "frame_pool_inv (pw_frames (pk_world k))" and pat: "pat_ok pat"
    and windows: "\<forall>v \<in> set windows. validate_device_window_entry v = PAGING_STATUS_OK"
    and room: "6 + length (filter (needs_table ki windows) identity_bases) \<le> card (free_set (pw_frames (pk_world k)))"
  obtains k' where "build_hierarchy px ki windows pat k = (PAGING_STATUS_OK, k')"
proof -
  let ?live = "(pk_live_hierarchy k)\<lparr>h_arena_base := 0, h_arena_capacity := 0, h_arena_used := 0, h_table_frames := 0, h_live := False\<rparr>"
  let ?S = "collect_kernel_sections ki"
  have z: "h_arena_capacity ?live = 0" "h_table_frames ?live = 0" by simp_all
  obtain c where c: "enable_processor_features px (pk_cpu k) = (PAGING_STATUS_OK, c)"
    by (rule enable_processor_features_holds [OF px])
  have "Suc (5 + length (filter (needs_table ki windows) identity_bases)) \<le> card (free_set (pw_frames (pk_world k)))" using room by simp
  from allocate_root_room [OF pool z this] obtain root h1 w1 where r: "allocate_table ?live (pk_world k) = (PAGING_STATUS_OK, Some root, h1, w1)"
    "hier_inv (h1\<lparr>h_root := root\<rparr>) w1" "empty_table (pw_tables w1) root"
    "h_arena_capacity h1 = 0" "5 + length (filter (needs_table ki windows) identity_bases) \<le> card (free_set (pw_frames w1))"
    by blast
  have a: "allocate_table ?live (pk_world k) = (PAGING_STATUS_OK, Some root, h1, w1)"
    "hier_inv (h1\<lparr>h_root := root\<rparr>) w1" "empty_table (pw_tables w1) (h_root (h1\<lparr>h_root := root\<rparr>))"
    "h_arena_capacity (h1\<lparr>h_root := root\<rparr>) = 0" "5 + length (filter (needs_table ki windows) identity_bases) \<le> card (free_set (pw_frames w1))"
    using r by simp_all
  from build_identity_map_succeeds [OF a(2-4) windows a(5)] obtain n h2 w2 where
    b: "build_identity_map ki ?S windows (h1\<lparr>h_root := root\<rparr>) w1 = (n, PAGING_STATUS_OK, h2, w2)" by blast
  note t = build_identity_map_translations [OF a(2,3) pat b]
  have v: "validate_identity_map ki ?S windows h2 pat w2 = PAGING_STATUS_OK"
    using t(4) low_canonical by (intro validate_identity_map_built [OF windows]) blast
  have "\<not> tr_user tr \<and> \<not> (bit (tr_permissions tr) 0 \<and> bit (tr_permissions tr) 1)"
    if tr: "translate_address h2 x pat w2 = (PAGING_STATUS_OK, tr)" for x tr
  proof -
    have "address_is_canonical x" using tr by (auto simp: translate_address_def split: if_split_asm)
    then show ?thesis using identity_guarded [OF windows] t(4) tr by metis
  qed
  then have "write_execute_leaves (audit_hierarchy h2 w2) = 0" "user_leaves (audit_hierarchy h2 w2) = 0"
    unfolding audit_wx_iff [of _ _ pat] audit_user_iff [of _ _ pat] by blast+
  then show thesis using c a(1) b v by (intro that) (simp add: build_hierarchy_def Let_def)
qed

lemma frame_root_masked: "frame_address_ok a \<Longrightarrow> a AND PAGE_FRAME_MASK = a"
  by (rule bit_word_eqI) (auto simp: bit_and_iff bit_frame_mask dest: frame_address_ok_bits)

lemma processor_status_pat:
  assumes "processor_status px c = (PAGING_STATUS_OK, before)"
  shows "pat_ok (pat_replace_entry before PAT_WRITE_COMBINING_ENTRY PAT_TYPE_WRITE_COMBINING)"
  using assms unfolding processor_status_def Let_def by (auto intro: decode_processor_support_pat)

text \<open>The three symbols \<open>paging_verify\<close> looks up have the rights of their sections.\<close>

lemma identity_symbols:
  assumes "\<forall>v \<in> set windows. validate_device_window_entry v = PAGING_STATUS_OK"
    and "validate_kernel_layout (ki_kernel_start ki) (ki_kernel_end ki) = PAGING_STATUS_OK"
    and "reject_kernel_device_overlap ki windows = PAGING_STATUS_OK" and "image_layout ki"
    and t: "\<And>a. address_is_canonical a \<Longrightarrow> kernel_translate k a = identity_translation ki (collect_kernel_sections ki) windows a"
  shows "verify_symbol k (ki_text_start ki) PAGING_EXECUTE" and "verify_symbol k (ki_rodata_start ki) PAGING_READ"
    and "verify_symbol k (ki_data_start ki) PAGING_WRITE"
proof -
  note l = assms(4) [unfolded image_layout_def] and s = kernel_sections_at [OF assms(4)]
  have k: "ki_kernel_end ki \<le> PAGING_KERNEL_IMAGE_LIMIT" "0 < ki_kernel_start ki"
    using assms(2) l by (auto simp: validate_kernel_layout_def split: if_split_asm)
  have sym: "verify_symbol k a (ps_permissions s)"
    if a: "ki_kernel_start ki \<le> a" "a < ki_kernel_end ki" "4096 dvd unat a"
      and s: "find (\<lambda>s. a \<ge> ps_start s \<and> a < ps_end s) (collect_kernel_sections ki) = Some s" for a s
  proof -
    note i = kernel_page_translation [OF assms(1-3) a k(2) s]
    have "unat a < 2 ^ 32" using a(2) k(1) by (simp add: word_less_nat_alt word_le_nat_alt PAGING_KERNEL_IMAGE_LIMIT_def)
    from t [OF low_canonical [OF this]] show ?thesis unfolding i by (simp add: verify_symbol_def mapping_def)
  qed
  have "ki_text_start ki < ki_kernel_end ki" "ki_rodata_start ki < ki_kernel_end ki" "ki_kernel_start ki \<le> ki_rodata_start ki"
    "ki_kernel_start ki \<le> ki_data_start ki" using l by - (elim conjE, order)+
  then show "verify_symbol k (ki_text_start ki) PAGING_EXECUTE" "verify_symbol k (ki_rodata_start ki) PAGING_READ"
    "verify_symbol k (ki_data_start ki) PAGING_WRITE"
    using sym [OF _ _ _ s(1)] sym [OF _ _ _ s(2)] sym [OF _ _ _ s(3)] l by simp_all
qed

lemma install_hierarchy_completes:
  assumes px: "holds px (MSR IA32_PAT_MSR)" "holds px CR3"
    and h: "hier_inv (pk_live_hierarchy k) (pk_world k)" "h_arena_capacity (pk_live_hierarchy k) = 0"
      "frame_address_ok (h_root (pk_live_hierarchy k))"
    and pat: "pat_ok pat" "pat_entry pat PAT_WRITE_COMBINING_ENTRY = PAT_TYPE_WRITE_COMBINING"
    and n: "length (pk_supervisor_intents k) \<le> PAGING_SUPERVISOR_INTENT_CAPACITY"
    and features: "cpu_registers (pk_cpu k) (MSR IA32_EFER_MSR) AND EFER_NO_EXECUTE_ENABLE \<noteq> 0"
      "cpu_registers (pk_cpu k) CR0 AND CR0_WRITE_PROTECT \<noteq> 0"
    and windows: "\<forall>v \<in> set windows. validate_device_window_entry v = PAGING_STATUS_OK" "needs_table ki windows 0"
    and image: "validate_kernel_layout (ki_kernel_start ki) (ki_kernel_end ki) = PAGING_STATUS_OK"
      "reject_kernel_device_overlap ki windows = PAGING_STATUS_OK" "image_layout ki"
    and t: "\<And>a. address_is_canonical a \<Longrightarrow> translate_address (pk_live_hierarchy k) a pat (pk_world k)
           = identity_translation ki (collect_kernel_sections ki) windows a"
  obtains k' where "install_hierarchy px ki windows before pat k = (PAGING_STATUS_OK, k')"
proof -
  let ?c = "cpu_write_back_and_invalidate_cache (cpu_write px CR3 (h_root (pk_live_hierarchy k))
      (cpu_write_back_and_invalidate_cache (cpu_write px (MSR IA32_PAT_MSR) pat (pk_cpu k))))"
  let ?k = "k\<lparr>pk_state := \<lparr>st_root_physical_address = h_root (pk_live_hierarchy k), st_table_frames = h_table_frames (pk_live_hierarchy k),
        st_fine_regions = pk_fine_region_count k, st_pat_before = before, st_pat_after = pat,
        st_write_combining_pat_entry = PAT_WRITE_COMBINING_ENTRY, st_no_execute_active = True,
        st_write_protect_active = True, st_active = True\<rparr>,
      pk_installed_device_windows := windows, pk_live_hierarchy := (pk_live_hierarchy k)\<lparr>h_live := True\<rparr>, pk_cpu := ?c\<rparr>"
  have inv: "kernel_inv ?k" using h pat(1) n by (simp add: kernel_inv_def hier_inv_live)
  have tr: "kernel_translate ?k a = identity_translation ki (collect_kernel_sections ki) windows a" if "address_is_canonical a" for a
    using t [OF that] by (simp add: translate_live)
  note sym = identity_symbols [OF windows(1) image tr]
  have g: "guarded ?k" unfolding guarded_def
  proof (intro allI impI)
    fix a w assume tr': "kernel_translate ?k a = (PAGING_STATUS_OK, w)"
    have "address_is_canonical a" using tr' by (auto simp: translate_address_def split: if_split_asm)
    then show "\<not> tr_user w \<and> \<not> (bit (tr_permissions w) 0 \<and> bit (tr_permissions w) 1)"
      using identity_guarded [OF windows(1)] tr tr' by metis
  qed
  have "kernel_translate ?k 0 = unmapped"
    using tr [OF low_canonical [of 0]] windows(2) below_limit [of 0]
    by (simp add: identity_translation_def page_size_mask PAGING_PAGE_SIZE_def)
  then have null: "fst (kernel_translate ?k 0) = PAGING_STATUS_NOT_MAPPED" by simp
  have regs: "cpu_registers ?c CR3 = h_root (pk_live_hierarchy k)" "cpu_registers ?c (MSR IA32_PAT_MSR) = pat"
    "cpu_registers ?c (MSR IA32_EFER_MSR) = cpu_registers (pk_cpu k) (MSR IA32_EFER_MSR)"
    "cpu_registers ?c CR0 = cpu_registers (pk_cpu k) CR0"
    unfolding holds_write [OF px(1)] holds_write [OF px(2)] cpu_write_back_and_invalidate_cache_def
    by (simp_all add: IA32_EFER_MSR_def IA32_PAT_MSR_def)
  have settled: "cpu_registers (cpu_write px (MSR IA32_PAT_MSR) pat (pk_cpu k)) (MSR IA32_PAT_MSR) = pat"
    by (simp add: holds_write [OF px(1)])
  have "paging_verify ki ?k = PAGING_STATUS_OK"
    unfolding paging_verify_OK [OF inv]
    by (intro conjI g sym null) (simp_all add: regs frame_root_masked [OF h(3)] pat(2) features)
  then have "install_hierarchy px ki windows before pat k = (PAGING_STATUS_OK, ?k)"
    by (simp add: install_hierarchy_def Let_def settled)
  then show thesis by (rule that)
qed

text \<open>The machine and the image on which \<open>paging_initialize\<close> is bound to succeed.\<close>

definition initializable :: "processor \<Rightarrow> kernel_image \<Rightarrow> paging_device_windows \<Rightarrow> paging_kernel \<Rightarrow> bool" where
  "initializable px ki ws k \<longleftrightarrow> \<not> st_active (pk_state k) \<and> \<not> cpu_interrupt_flag (pk_cpu k)
     \<and> frame_pool_inv (pw_frames (pk_world k)) \<and> length (pk_supervisor_intents k) \<le> PAGING_SUPERVISOR_INTENT_CAPACITY
     \<and> fst (processor_status px (pk_cpu k)) = PAGING_STATUS_OK
     \<and> fst (paging_device_windows_validate (Some ws) (Some [])) = PAGING_STATUS_OK
     \<and> validate_kernel_layout (ki_kernel_start ki) (ki_kernel_end ki) = PAGING_STATUS_OK
     \<and> reject_kernel_device_overlap ki (sort_key window_key ws) = PAGING_STATUS_OK \<and> image_layout ki
     \<and> 6 + length (filter (needs_table ki (sort_key window_key ws)) identity_bases) \<le> card (free_set (pw_frames (pk_world k)))"

lemma initializable_build:
  assumes ok: "initializable px ki ws k" and px: "holds px (MSR IA32_EFER_MSR)" "holds px CR0"
  obtains before k1 where "pat_ok (pat_replace_entry before PAT_WRITE_COMBINING_ENTRY PAT_TYPE_WRITE_COMBINING)"
    "build_hierarchy px ki (sort_key window_key ws) (pat_replace_entry before PAT_WRITE_COMBINING_ENTRY PAT_TYPE_WRITE_COMBINING) k
       = (PAGING_STATUS_OK, k1)"
    "\<forall>v \<in> set (sort_key window_key ws). validate_device_window_entry v = PAGING_STATUS_OK"
    "needs_table ki (sort_key window_key ws) 0"
    "paging_initialize px ki (Some ws) k = install_hierarchy px ki (sort_key window_key ws) before
       (pat_replace_entry before PAT_WRITE_COMBINING_ENTRY PAT_TYPE_WRITE_COMBINING) k1"
proof -
  note i = ok [unfolded initializable_def]
  from i obtain before where b: "processor_status px (pk_cpu k) = (PAGING_STATUS_OK, before)"
    by (metis prod.collapse)
  from i obtain vs where vs: "paging_device_windows_validate (Some ws) (Some []) = (PAGING_STATUS_OK, vs)"
    by (metis prod.collapse)
  note v = validated_windows [OF vs] and pat = processor_status_pat [OF b]
  from i have pool: "frame_pool_inv (pw_frames (pk_world k))"
    "6 + length (filter (needs_table ki (sort_key window_key ws)) identity_bases) \<le> card (free_set (pw_frames (pk_world k)))" by blast+
  obtain k1 where k1: "build_hierarchy px ki (sort_key window_key ws)
      (pat_replace_entry before PAT_WRITE_COMBINING_ENTRY PAT_TYPE_WRITE_COMBINING) k = (PAGING_STATUS_OK, k1)"
    by (rule build_hierarchy_completes [OF px pool(1) pat v(2) pool(2)])
  have "paging_initialize px ki (Some ws) k = install_hierarchy px ki (sort_key window_key ws) before
       (pat_replace_entry before PAT_WRITE_COMBINING_ENTRY PAT_TYPE_WRITE_COMBINING) k1"
    using i k1 v(1) by (subst paging_initialize_eq [OF _ vs _ _ _ b]) simp_all
  then show thesis using that [OF pat k1 v(2,3)] by blast
qed

lemma paging_initialize_succeeds:
  assumes ok: "initializable px ki ws k"
    and px: "holds px (MSR IA32_EFER_MSR)" "holds px CR0" "holds px (MSR IA32_PAT_MSR)" "holds px CR3"
  obtains k' where "paging_initialize px ki (Some ws) k = (PAGING_STATUS_OK, k')"
proof -
  let ?vs = "sort_key window_key ws"
  from initializable_build [OF ok px(1,2)] obtain before k1 where
    pat: "pat_ok (pat_replace_entry before PAT_WRITE_COMBINING_ENTRY PAT_TYPE_WRITE_COMBINING)"
    and b: "build_hierarchy px ki ?vs (pat_replace_entry before PAT_WRITE_COMBINING_ENTRY PAT_TYPE_WRITE_COMBINING) k = (PAGING_STATUS_OK, k1)"
    and v: "\<forall>v \<in> set ?vs. validate_device_window_entry v = PAGING_STATUS_OK" "needs_table ki ?vs 0"
    and eq: "paging_initialize px ki (Some ws) k = install_hierarchy px ki ?vs before
       (pat_replace_entry before PAT_WRITE_COMBINING_ENTRY PAT_TYPE_WRITE_COMBINING) k1" by blast
  note i = ok [unfolded initializable_def]
  from i have pool: "frame_pool_inv (pw_frames (pk_world k))" by blast
  note bh = build_hierarchy_OK [OF pool pat v(1) b] 
  note e = enable_processor_features_OK [OF bh(5)]
  have wc: "pat_entry (pat_replace_entry before PAT_WRITE_COMBINING_ENTRY PAT_TYPE_WRITE_COMBINING) PAT_WRITE_COMBINING_ENTRY
      = PAT_TYPE_WRITE_COMBINING" by (simp add: pat_entry_replace PAT_WRITE_COMBINING_ENTRY_def)
  from i bh(6) have n: "length (pk_supervisor_intents k1) \<le> PAGING_SUPERVISOR_INTENT_CAPACITY" by simp
  from i have image: "validate_kernel_layout (ki_kernel_start ki) (ki_kernel_end ki) = PAGING_STATUS_OK"
      "reject_kernel_device_overlap ki ?vs = PAGING_STATUS_OK" "image_layout ki" by blast+
  show thesis
    by (rule install_hierarchy_completes [OF px(3,4) bh(1-3) pat wc n e(1,2) v image bh(4)], assumption)
      (rule that, unfold eq)
qed

subsection \<open>A refused initialisation\<close>

text \<open>A register that can be set back to what it holds now.\<close>

definition restorable :: "processor \<Rightarrow> cpu \<Rightarrow> cpu_register \<Rightarrow> bool" where
  "restorable px c r \<longleftrightarrow> (\<forall>before. px_settle px r before (cpu_registers c r) = cpu_registers c r)"

definition same_translation_registers :: "cpu \<Rightarrow> cpu \<Rightarrow> bool" where
  "same_translation_registers c c' \<longleftrightarrow> cpu_registers c' CR3 = cpu_registers c CR3
     \<and> cpu_registers c' (MSR IA32_PAT_MSR) = cpu_registers c (MSR IA32_PAT_MSR)"

lemma reset_state_simps [simp]: "pk_cpu (reset_state k) = pk_cpu k" "\<not> st_active (pk_state (reset_state k))"
  by (simp_all add: reset_state_def)

lemma enable_processor_features_same:
  "enable_processor_features px c = (st, c') \<Longrightarrow> same_translation_registers c c'"
  unfolding enable_processor_features_def Let_def
  by (auto simp: cpu_write_def same_translation_registers_def IA32_EFER_MSR_def IA32_PAT_MSR_def split: if_split_asm)

lemma build_hierarchy_same:
  assumes "build_hierarchy px ki windows pat k = (st, k')"
  shows "same_translation_registers (pk_cpu k) (pk_cpu k')"
    and "st \<noteq> PAGING_STATUS_OK \<Longrightarrow> \<not> st_active (pk_state k')"
  using assms unfolding build_hierarchy_def
  by (auto simp: Let_def dest: enable_processor_features_same split: prod.split_asm if_split_asm)

lemma install_hierarchy_refused:
  assumes "install_hierarchy px ki windows before pat k = (st, k')" and "st \<noteq> PAGING_STATUS_OK"
    and "restorable px (pk_cpu k) CR3" and "restorable px (pk_cpu k) (MSR IA32_PAT_MSR)"
    and "before = cpu_registers (pk_cpu k) (MSR IA32_PAT_MSR)"
  shows "same_translation_registers (pk_cpu k) (pk_cpu k')" and "\<not> st_active (pk_state k')"
  using assms unfolding install_hierarchy_def Let_def
  by (auto simp: same_translation_registers_def cpu_write_def cpu_write_back_and_invalidate_cache_def
      restorable_def split: if_split_asm)

lemma processor_status_before:
  "processor_status px c = (PAGING_STATUS_OK, before) \<Longrightarrow> before = cpu_registers c (MSR IA32_PAT_MSR)"
  unfolding processor_status_def Let_def decode_processor_support_def by (auto split: if_split_asm)

lemma paging_initialize_refused_cases:
  assumes "paging_initialize px ki windows k = (st, k')"
  obtains (early) "pk_cpu k' = pk_cpu k" "\<not> st_active (pk_state k) \<longrightarrow> \<not> st_active (pk_state k')"
  | (late) ws vs before where "windows = Some ws" "\<not> st_active (pk_state k)"
    "paging_device_windows_validate (Some ws) (Some []) = (PAGING_STATUS_OK, vs)"
    "validate_kernel_layout (ki_kernel_start ki) (ki_kernel_end ki) = PAGING_STATUS_OK"
    "reject_kernel_device_overlap ki (the vs) = PAGING_STATUS_OK"
    "\<not> cpu_interrupt_flag (pk_cpu k)" "processor_status px (pk_cpu k) = (PAGING_STATUS_OK, before)"
proof (cases windows)
  case None
  then show ?thesis using assms early by (auto simp: paging_initialize_def)
next
  case (Some ws)
  show ?thesis
  proof (cases "\<not> st_active (pk_state k) \<and> fst (paging_device_windows_validate (Some ws) (Some [])) = PAGING_STATUS_OK
      \<and> validate_kernel_layout (ki_kernel_start ki) (ki_kernel_end ki) = PAGING_STATUS_OK
      \<and> reject_kernel_device_overlap ki (the (snd (paging_device_windows_validate (Some ws) (Some [])))) = PAGING_STATUS_OK
      \<and> \<not> cpu_interrupt_flag (pk_cpu k) \<and> fst (processor_status px (pk_cpu k)) = PAGING_STATUS_OK")
    case True
    then show ?thesis using late Some by (metis prod.collapse)
  next
    case False
    then have "pk_cpu k' = pk_cpu k \<and> (\<not> st_active (pk_state k) \<longrightarrow> \<not> st_active (pk_state k'))"
      using assms unfolding Some paging_initialize_def processor_status_def Let_def
      by (auto split: prod.split_asm if_split_asm)
    then show ?thesis using early by blast
  qed
qed

lemma paging_initialize_restores:
  assumes "\<not> st_active (pk_state k)" and "restorable px (pk_cpu k) CR3" and "restorable px (pk_cpu k) (MSR IA32_PAT_MSR)"
    and call: "paging_initialize px ki windows k = (st, k')" and "st \<noteq> PAGING_STATUS_OK"
  shows "\<not> st_active (pk_state k') \<and> same_translation_registers (pk_cpu k) (pk_cpu k')"
  using call
proof (cases rule: paging_initialize_refused_cases)
  case early
  then show ?thesis using assms(1) by (simp add: same_translation_registers_def)
next
  case (late ws vs before)
  let ?pat = "pat_replace_entry before PAT_WRITE_COMBINING_ENTRY PAT_TYPE_WRITE_COMBINING"
  obtain st1 k1 where b: "build_hierarchy px ki (the vs) ?pat k = (st1, k1)" by fastforce
  note same = build_hierarchy_same [OF b]
  show ?thesis
  proof (cases "st1 = PAGING_STATUS_OK")
    case True
    then have i: "install_hierarchy px ki (the vs) before ?pat k1 = (st, k')"
      using call b unfolding late(1) paging_initialize_eq [OF late(2-)] by simp
    have r: "restorable px (pk_cpu k1) CR3" "restorable px (pk_cpu k1) (MSR IA32_PAT_MSR)"
      "before = cpu_registers (pk_cpu k1) (MSR IA32_PAT_MSR)"
      using same(1) assms(2,3) processor_status_before [OF late(7)]
      by (simp_all add: restorable_def same_translation_registers_def)
    from install_hierarchy_refused [OF i assms(5) r] same(1) show ?thesis
      by (simp add: same_translation_registers_def)
  next
    case False
    then show ?thesis using call b same unfolding late(1) paging_initialize_eq [OF late(2-)] by auto
  qed
qed

subsection \<open>A machine\<close>

text \<open>A processor with the features asked for and the PAT it has after reset, and a kernel before its call.\<close>

definition sample_processor :: processor where
  "sample_processor = \<lparr>px_cpuid = (\<lambda>leaf _. if leaf = CPUID_BASIC_FEATURES then (0, 0, 0, CPUID_PAT)
       else if leaf = CPUID_EXTENDED_ROOT then (CPUID_EXTENDED_FEATURES, 0, 0, 0) else (0, 0, 0, CPUID_NO_EXECUTE)),
     px_settle = (\<lambda>_ _ v. v)\<rparr>"

definition sample_cpu :: cpu where
  "sample_cpu = \<lparr>cpu_registers = (\<lambda>r. if r = MSR IA32_PAT_MSR then 0x0007040600070406
       else if r = CR4 then CR4_PHYSICAL_ADDRESS_EXTENSION else if r = CR3 then 0x110000 else 0),
     cpu_interrupt_flag = False, cpu_cache_flushes = 0\<rparr>"

definition sample_kernel :: paging_kernel where
  "sample_kernel = reset_state \<lparr>pk_state = undefined, pk_live_hierarchy = bare_hierarchy, pk_kernel_sections = [],
     pk_installed_device_windows = [], pk_fine_region_count = 0, pk_supervisor_intents = [],
     pk_world = framed_world, pk_cpu = sample_cpu\<rparr>"

text \<open>The same processor with a PAT that keeps its reset value whatever is written.\<close>

definition stuck_processor :: processor where
  "stuck_processor = sample_processor\<lparr>px_settle := (\<lambda>r _ v. if r = MSR IA32_PAT_MSR then 0x0007040600070406 else v)\<rparr>"

lemma sample_room: "6 + length (filter P identity_bases) \<le> card (free_set sample_frames)"
  using length_filter_le [of P identity_bases] sample_free by (simp add: identity_bases_length)

lemma sample_processor_status:
  "processor_status sample_processor sample_cpu = (PAGING_STATUS_OK, 0x0007040600070406)"
  "processor_status stuck_processor sample_cpu = (PAGING_STATUS_OK, 0x0007040600070406)"
  by code_simp+

lemma sample_overlap: "reject_kernel_device_overlap sample_image (sort_key window_key sample_windows) = PAGING_STATUS_OK"
proof -
  have "reject_kernel_device_overlap sample_image sample_windows = PAGING_STATUS_OK" by code_simp
  then show ?thesis by (simp add: reject_kernel_device_overlap_def list_ex_iff split: if_split_asm)
qed

lemma sample_layout: "image_layout sample_image"
  "validate_kernel_layout (ki_kernel_start sample_image) (ki_kernel_end sample_image) = PAGING_STATUS_OK"
  by (simp add: image_layout_def sample_image_def) code_simp

lemma sample_initializable:
  assumes "processor_status px sample_cpu = (PAGING_STATUS_OK, before)"
  shows "initializable px sample_image sample_windows sample_kernel"
proof -
  have "frame_pool_inv sample_frames" using sample_frames_facts(4,6) by (simp add: frame_pool_inv_def)
  moreover have "pw_frames (pk_world sample_kernel) = sample_frames" "pk_cpu sample_kernel = sample_cpu"
    "\<not> st_active (pk_state sample_kernel)" "pk_supervisor_intents sample_kernel = []"
    by (simp_all add: sample_kernel_def framed_world_def reset_state_def)
  moreover have "\<not> cpu_interrupt_flag sample_cpu" by (simp add: sample_cpu_def)
  ultimately show ?thesis
    unfolding initializable_def using assms sample_windows_OK sample_overlap sample_layout sample_room by simp
qed

lemma sample_processor_holds: "holds sample_processor r"
  by (simp add: holds_def sample_processor_def)

lemma sample_initialized:
  obtains k where "paging_initialize sample_processor sample_image (Some sample_windows) sample_kernel = (PAGING_STATUS_OK, k)"
  by (rule paging_initialize_succeeds [OF sample_initializable [OF sample_processor_status(1)]
        sample_processor_holds sample_processor_holds sample_processor_holds sample_processor_holds])

lemma sample_kernel_facts: "frame_pool_inv (pw_frames (pk_world sample_kernel))" "\<not> st_active (pk_state sample_kernel)"
  "length (pk_supervisor_intents sample_kernel) \<le> PAGING_SUPERVISOR_INTENT_CAPACITY"
  using sample_initializable [OF sample_processor_status(1)] by (simp_all add: initializable_def)

subsection \<open>Properties\<close>

text \<open> C13. A call of \<open>paging_map\<close> on the live kernel keeps the invariant of its state and changes
  the translations as the caller was told: on success exactly the addresses of the range, all of them
  unmapped before, translate to the physical range with the rights asked for and the mapping is entered
  in the supervisor intents; on every refusal, the full intent table after a successful mapping
  included, every address translates as before and the intents are as they were.\<close>

theorem paging_map_refines:
  assumes "kernel_inv k" and "paging_map va pa len p k = (st, k')"
  shows "kernel_inv k'
     \<and> (\<forall>a. translate_address (pk_live_hierarchy k') a (st_pat_after (pk_state k')) (pk_world k') =
          (if st = PAGING_STATUS_OK \<and> in_range va len a then (PAGING_STATUS_OK, mapping (pa + (a - va)) p 1)
           else translate_address (pk_live_hierarchy k) a (st_pat_after (pk_state k)) (pk_world k)))
     \<and> pk_supervisor_intents k' = (if st = PAGING_STATUS_OK then pk_supervisor_intents k @
          [\<lparr>si_virtual_address = va, si_physical_address = pa, si_length = len, si_permissions = p\<rparr>]
        else pk_supervisor_intents k)
     \<and> (st = PAGING_STATUS_OK \<longrightarrow> (\<forall>a. in_range va len a \<longrightarrow>
          translate_address (pk_live_hierarchy k) a (st_pat_after (pk_state k)) (pk_world k) = unmapped))"
proof -
  note s = paging_map_spec [OF assms]
  have "\<forall>a. kernel_translate k' a = (if st = PAGING_STATUS_OK \<and> in_range va len a
      then (PAGING_STATUS_OK, mapping (pa + (a - va)) p 1) else kernel_translate k a)" using s(3) by (rule allI)
  then show ?thesis using s(1,4,6) by blast
qed

theorem paging_map_refines_witness:
  "\<exists>k st k'. paging_map 0x400000000 0x1000000 0x1000 PAGING_WRITE k = (st, k') \<and> kernel_inv k \<and> kernel_inv k'"
proof -
  obtain k where k: "paging_initialize sample_processor sample_image (Some sample_windows) sample_kernel = (PAGING_STATUS_OK, k)"
    by (rule sample_initialized)
  have i: "kernel_inv k" by (rule initialized_kernel(1) [OF sample_kernel_facts(1,3) k])
  obtain st k' where m: "paging_map 0x400000000 0x1000000 0x1000 PAGING_WRITE k = (st, k')" by fastforce
  from paging_map_refines [OF i m] i m show ?thesis by blast
qed

text \<open> C3. Once \<open>paging_verify\<close> accepts the running kernel it goes on accepting it: no sequence
  of mappings, unmappings and protection changes, whatever their arguments and outcomes, makes it fail,
  as long as they leave alone the three section symbols and the null page it reads back. So a kernel
  that starts with no writable and executable leaf and no user leaf never gets one through this interface.\<close>

theorem paging_verify_stable:
  assumes "(kernel_call (watched ki))\<^sup>*\<^sup>* k k'" and "kernel_inv k" and "paging_verify ki k = PAGING_STATUS_OK"
  shows "kernel_inv k' \<and> paging_verify ki k' = PAGING_STATUS_OK"
  using assms
proof (induction rule: rtranclp_induct)
  case (step k1 k2)
  then show ?case using kernel_call_verify by blast
qed simp

theorem paging_verify_stable_witness:
  "\<exists>k st k'. (kernel_call (watched sample_image))\<^sup>*\<^sup>* k k'
     \<and> paging_map 0x400000000 0x1000000 0x1000 PAGING_WRITE k = (st, k')
     \<and> paging_verify sample_image k' = PAGING_STATUS_OK"
proof -
  obtain k where k: "paging_initialize sample_processor sample_image (Some sample_windows) sample_kernel = (PAGING_STATUS_OK, k)"
    by (rule sample_initialized)
  note i = initialized_kernel(1,2) [OF sample_kernel_facts(1,3) k]
  obtain st k' where m: "paging_map 0x400000000 0x1000000 0x1000 PAGING_WRITE k = (st, k')" by fastforce
  have "\<forall>a \<in> watched sample_image. \<not> in_range 0x400000000 0x1000 a"
    by (simp add: watched_def sample_image_def in_range_def)
  then have c: "(kernel_call (watched sample_image))\<^sup>*\<^sup>* k k'" using m by (blast intro: call_map)
  from paging_verify_stable [OF this i] c m show ?thesis by blast
qed

text \<open> C4. A successful \<open>paging_initialize\<close> leaves the kernel on a hierarchy that satisfies the
  invariant, that \<open>paging_verify\<close> accepts and that holds the validated windows in their canonical
  order; every canonical address translates as the identity intent says, and no address of the first
  page translates at all.\<close>

theorem paging_initialize_installs:
  assumes "frame_pool_inv (pw_frames (pk_world k))" and "length (pk_supervisor_intents k) \<le> PAGING_SUPERVISOR_INTENT_CAPACITY"
    and "paging_initialize px ki (Some ws) k = (PAGING_STATUS_OK, k')"
  shows "kernel_inv k' \<and> paging_verify ki k' = PAGING_STATUS_OK
     \<and> pk_installed_device_windows k' = sort_key window_key ws
     \<and> (\<forall>a. address_is_canonical a \<longrightarrow>
          translate_address (pk_live_hierarchy k') a (st_pat_after (pk_state k')) (pk_world k')
            = identity_translation ki (collect_kernel_sections ki) (sort_key window_key ws) a)
     \<and> (\<forall>a. unat a < 4096 \<longrightarrow>
          translate_address (pk_live_hierarchy k') a (st_pat_after (pk_state k')) (pk_world k') = unmapped)"
  using initialized_kernel [OF assms] by blast

theorem paging_initialize_installs_witness:
  "\<exists>k. paging_initialize sample_processor sample_image (Some sample_windows) sample_kernel = (PAGING_STATUS_OK, k)
     \<and> paging_verify sample_image k = PAGING_STATUS_OK"
proof -
  obtain k where k: "paging_initialize sample_processor sample_image (Some sample_windows) sample_kernel = (PAGING_STATUS_OK, k)"
    by (rule sample_initialized)
  from paging_initialize_installs [OF sample_kernel_facts(1,3) k] k show ?thesis by blast
qed

text \<open> C14. On a supported processor whose EFER, CR0, PAT and CR3 hold what is written, with interrupts
  off, valid windows clear of a well laid out image, and a free frame for every table the identity map
  needs (the root, five upper tables and one per fine region), \<open>paging_initialize\<close> succeeds.\<close>

theorem paging_initialize_completes:
  assumes "initializable px ki ws k"
    and "holds px (MSR IA32_EFER_MSR)" and "holds px CR0" and "holds px (MSR IA32_PAT_MSR)" and "holds px CR3"
  shows "\<exists>k'. paging_initialize px ki (Some ws) k = (PAGING_STATUS_OK, k')"
  by (rule paging_initialize_succeeds [OF assms]) blast

theorem paging_initialize_completes_witness:
  "\<exists>k. paging_initialize sample_processor sample_image (Some sample_windows) sample_kernel = (PAGING_STATUS_OK, k)"
  by (rule paging_initialize_completes [OF sample_initializable [OF sample_processor_status(1)]
        sample_processor_holds sample_processor_holds sample_processor_holds sample_processor_holds])

text \<open> C15. A \<open>paging_initialize\<close> that refuses, at whatever step, does not change whether paging is active, and
  changes nothing at all when it was active already; the processor stays on the page tables and the PAT it had: CR3
  and IA32_PAT read as before the call, on every processor that lets the two be set back to their own values, even one
  that does not hold the new ones.\<close>

theorem paging_initialize_refused:
  assumes "restorable px (pk_cpu k) CR3" and "restorable px (pk_cpu k) (MSR IA32_PAT_MSR)"
    and "paging_initialize px ki windows k = (st, k')" and "st \<noteq> PAGING_STATUS_OK"
  shows "paging_is_active k' = paging_is_active k \<and> (paging_is_active k \<longrightarrow> k' = k)
     \<and> cpu_registers (pk_cpu k') CR3 = cpu_registers (pk_cpu k) CR3
     \<and> cpu_registers (pk_cpu k') (MSR IA32_PAT_MSR) = cpu_registers (pk_cpu k) (MSR IA32_PAT_MSR)"
proof (cases "st_active (pk_state k)")
  case True
  then have "k' = k" using assms(3) by (auto simp: paging_initialize_def split: option.split_asm)
  then show ?thesis by simp
next
  case False
  from paging_initialize_restores [OF False assms] False show ?thesis
    by (simp add: paging_is_active_def same_translation_registers_def)
qed

lemma stuck_refused:
  obtains k where "paging_initialize stuck_processor sample_image (Some sample_windows) sample_kernel
      = (PAGING_STATUS_PAT_READBACK_MISMATCH, k)"
proof -
  have h: "holds stuck_processor (MSR IA32_EFER_MSR)" "holds stuck_processor CR0"
    by (simp_all add: holds_def stuck_processor_def sample_processor_def IA32_EFER_MSR_def IA32_PAT_MSR_def)
  let ?P = "0x0007040600070406" and ?pat = "\<lambda>before. pat_replace_entry before PAT_WRITE_COMBINING_ENTRY PAT_TYPE_WRITE_COMBINING"
  note i = sample_initializable [OF sample_processor_status(2)]
  from initializable_build [OF i h] obtain before k1 where
    b: "pat_ok (?pat before)" "build_hierarchy stuck_processor sample_image (sort_key window_key sample_windows) (?pat before) sample_kernel = (PAGING_STATUS_OK, k1)"
    and e: "paging_initialize stuck_processor sample_image (Some sample_windows) sample_kernel
       = install_hierarchy stuck_processor sample_image (sort_key window_key sample_windows) before (?pat before) k1" by blast
  have "\<not> pat_ok ?P" by (simp add: pat_ok_def) code_simp
  then have "?pat before \<noteq> ?P" using b(1) by metis
  moreover have "cpu_registers (cpu_write stuck_processor (MSR IA32_PAT_MSR) (?pat before) (pk_cpu k1)) (MSR IA32_PAT_MSR) = ?P"
    by (simp add: cpu_write_def stuck_processor_def)
  ultimately show thesis using that e by (simp add: install_hierarchy_def)
qed

theorem paging_initialize_refused_witness:
  "\<exists>k. paging_initialize stuck_processor sample_image (Some sample_windows) sample_kernel
       = (PAGING_STATUS_PAT_READBACK_MISMATCH, k)
     \<and> cpu_registers (pk_cpu k) CR3 = 0x110000 \<and> cpu_registers (pk_cpu k) (MSR IA32_PAT_MSR) = 0x0007040600070406"
proof -
  obtain k where k: "paging_initialize stuck_processor sample_image (Some sample_windows) sample_kernel
      = (PAGING_STATUS_PAT_READBACK_MISMATCH, k)" by (rule stuck_refused)
  have c: "pk_cpu sample_kernel = sample_cpu" by (simp add: sample_kernel_def)
  have r: "restorable stuck_processor (pk_cpu sample_kernel) CR3" "restorable stuck_processor (pk_cpu sample_kernel) (MSR IA32_PAT_MSR)"
    by (simp_all add: c restorable_def stuck_processor_def sample_processor_def sample_cpu_def)
  from paging_initialize_refused [OF r k] k show ?thesis by (simp add: c sample_cpu_def)
qed

text \<open> C38. After a successful initialisation of an image laid out as the linker script does, the rights are
  those of the sections and of the windows as registered: the bytes before the text and the read-only
  data can only be read, the text is executable and not writable, the data up to the end of the image is
  writable and not executable; an address of a window has the memory type of the window, is never
  executable, and is writable exactly when the window asks for it; any other address of the low 4 GiB
  beyond the first page is plain writable memory. All of them translate to themselves.\<close>

theorem installed_rights:
  assumes "frame_pool_inv (pw_frames (pk_world k))" and "length (pk_supervisor_intents k) \<le> PAGING_SUPERVISOR_INTENT_CAPACITY"
    and "paging_initialize px ki (Some ws) k = (PAGING_STATUS_OK, k')" and "image_layout ki"
  defines "T a \<equiv> translate_address (pk_live_hierarchy k') a (st_pat_after (pk_state k')) (pk_world k')"
  shows "(\<forall>a. ki_kernel_start ki \<le> a \<and> a < ki_text_start ki \<longrightarrow> T a = (PAGING_STATUS_OK, mapping a PAGING_READ 1))
     \<and> (\<forall>a. ki_text_start ki \<le> a \<and> a < ki_text_end ki \<longrightarrow> T a = (PAGING_STATUS_OK, mapping a PAGING_EXECUTE 1))
     \<and> (\<forall>a. ki_rodata_start ki \<le> a \<and> a < ki_rodata_end ki \<longrightarrow> T a = (PAGING_STATUS_OK, mapping a PAGING_READ 1))
     \<and> (\<forall>a. ki_data_start ki \<le> a \<and> a < ki_kernel_end ki \<longrightarrow> T a = (PAGING_STATUS_OK, mapping a PAGING_WRITE 1))
     \<and> (\<forall>v \<in> set ws. \<forall>a. dw_physical_base v \<le> a \<and> a < dw_physical_base v + dw_length v \<longrightarrow>
          (\<exists>t. T a = (PAGING_STATUS_OK, t) \<and> tr_physical_address t = a \<and> tr_memory_type t = dw_memory_type v
             \<and> tr_permissions t AND PAGING_EXECUTE = 0
             \<and> (tr_permissions t AND PAGING_WRITE \<noteq> 0 \<longleftrightarrow> dw_permissions v AND PAGING_DEVICE_WINDOW_WRITE \<noteq> 0)))
     \<and> (\<forall>a. 4096 \<le> unat a \<and> unat a < 2 ^ 32 \<and> \<not> (ki_kernel_start ki \<le> a \<and> a < ki_kernel_end ki)
          \<and> (\<forall>v \<in> set ws. \<not> (dw_physical_base v \<le> a \<and> a < dw_physical_base v + dw_length v)) \<longrightarrow>
          (\<exists>l. T a = (PAGING_STATUS_OK, mapping a PAGING_WRITE l)))"
proof -
  obtain vs before where c: "paging_device_windows_validate (Some ws) (Some []) = (PAGING_STATUS_OK, vs)"
    "validate_kernel_layout (ki_kernel_start ki) (ki_kernel_end ki) = PAGING_STATUS_OK"
    "reject_kernel_device_overlap ki (the vs) = PAGING_STATUS_OK"
    by (rule paging_initialize_checks [OF assms(3)])
  let ?vs = "sort_key window_key ws" and ?s = "collect_kernel_sections ki"
  note v = validated_windows [OF c(1)] and l = assms(4) [unfolded image_layout_def] and p = section_at_page [OF assms(4) c(2)]
  have T: "T a = identity_translation ki ?s ?vs a" if "unat a < 2 ^ 32" for a
    unfolding T_def by (rule initialized_kernel(4) [OF assms(1-3) low_canonical [OF that]])
  have apart: "\<not> some_pair ranges_overlap ?vs"
    using validate_OK(5) [OF c(1)] some_pair_perm [OF ranges_overlap_sym, of ?vs ws] by simp
  have kernel: "T a = (PAGING_STATUS_OK, mapping a q 1)" if a: "ki_kernel_start ki \<le> a" "a < ki_kernel_end ki"
      and q: "map_option ps_permissions (find (\<lambda>s. a AND NOT (mask 12) \<ge> ps_start s \<and> a AND NOT (mask 12) < ps_end s) ?s) = Some q" for a q
    unfolding T [OF kernel_address_bounds(2) [OF c(2) conjunct1 [OF l] a]]
    by (rule identity_translation_kernel [OF v(2) c(2) conjunct1 [OF l] c(3) [unfolded v(1) option.sel] a q])
  have order: "ki_kernel_start ki \<le> ki_text_start ki" "ki_text_start ki < ki_kernel_end ki" "ki_text_end ki < ki_kernel_end ki"
    "ki_kernel_start ki \<le> ki_rodata_start ki" "ki_rodata_end ki < ki_kernel_end ki" "ki_kernel_start ki \<le> ki_data_start ki"
    using l by auto
  have "T a = (PAGING_STATUS_OK, mapping a PAGING_READ 1)" if "ki_kernel_start ki \<le> a \<and> a < ki_text_start ki" for a
    using that order by (intro kernel p(5)) auto
  moreover have "T a = (PAGING_STATUS_OK, mapping a PAGING_EXECUTE 1)" if "ki_text_start ki \<le> a \<and> a < ki_text_end ki" for a
    using that order by (intro kernel p(1)) auto
  moreover have "T a = (PAGING_STATUS_OK, mapping a PAGING_READ 1)" if "ki_rodata_start ki \<le> a \<and> a < ki_rodata_end ki" for a
    using that order by (intro kernel p(2)) auto
  moreover have "T a = (PAGING_STATUS_OK, mapping a PAGING_WRITE 1)" if "ki_data_start ki \<le> a \<and> a < ki_kernel_end ki" for a
    using that order by (intro kernel p(3)) auto
  moreover have "\<exists>t. T a = (PAGING_STATUS_OK, t) \<and> tr_physical_address t = a \<and> tr_memory_type t = dw_memory_type x
       \<and> tr_permissions t AND PAGING_EXECUTE = 0
       \<and> (tr_permissions t AND PAGING_WRITE \<noteq> 0 \<longleftrightarrow> dw_permissions x AND PAGING_DEVICE_WINDOW_WRITE \<noteq> 0)"
    if x: "x \<in> set ws" and a: "dw_physical_base x \<le> a \<and> a < dw_physical_base x + dw_length x" for x a
  proof -
    have ok: "validate_device_window_entry x = PAGING_STATUS_OK" using v(2) x by simp
    then have "T a = (PAGING_STATUS_OK, mapping a (device_window_mapping_permissions x) 1)"
      using identity_translation_window [OF v(2) apart, of x a] T window_address_bounds(2) [of x a] x a by simp
    then show ?thesis using window_translation [OF ok] by blast
  qed
  moreover have "\<exists>l. T a = (PAGING_STATUS_OK, mapping a PAGING_WRITE l)"
    if "4096 \<le> unat a \<and> unat a < 2 ^ 32 \<and> \<not> (ki_kernel_start ki \<le> a \<and> a < ki_kernel_end ki)
      \<and> (\<forall>v \<in> set ws. \<not> (dw_physical_base v \<le> a \<and> a < dw_physical_base v + dw_length v))" for a
    using identity_translation_elsewhere [OF v(2) assms(4) c(2), of a] T [of a] that by simp
  ultimately show ?thesis by blast
qed

theorem installed_rights_witness:
  "\<exists>k. paging_initialize sample_processor sample_image (Some sample_windows) sample_kernel = (PAGING_STATUS_OK, k)
     \<and> translate_address (pk_live_hierarchy k) 0x201040 (st_pat_after (pk_state k)) (pk_world k)
         = (PAGING_STATUS_OK, mapping 0x201040 PAGING_EXECUTE 1)"
proof -
  obtain k where k: "paging_initialize sample_processor sample_image (Some sample_windows) sample_kernel = (PAGING_STATUS_OK, k)"
    by (rule sample_initialized)
  have "ki_text_start sample_image \<le> 0x201040 \<and> 0x201040 < ki_text_end sample_image" by (simp add: sample_image_def)
  with installed_rights [OF sample_kernel_facts(1,3) k sample_layout(1)] k show ?thesis by blast
qed

end
