(* ===== verification/Heap_Blocks.thy ===== *)
theory Heap_Blocks
  imports Prelude
begin

text \<open>
  The block table of the kernel heap, the first part of \<open>src/src/kernel/heap.c\<close>: the first-fit search,
  the lookup by offset, splitting, merging and the check of the table. The table with its count is a list. The
  lemmas show that splitting and merging keep a table that tiles the committed region without two free
  neighbours, what they do to the set of live allocations, and that the check accepts every such table.
\<close>

subsection \<open>The table\<close>

definition HEAP_ALIGNMENT :: u64 where "HEAP_ALIGNMENT = 16"
definition HEAP_MAX_BLOCKS :: nat where "HEAP_MAX_BLOCKS = 256"

record heap_block =
  hb_offset :: u64
  hb_size :: u64
  hb_used :: bool

definition align_up :: "u64 \<Rightarrow> u64 \<Rightarrow> u64" where
  "align_up value alignment = (value + alignment - 1) AND NOT (alignment - 1)"

text \<open>The searches, with the position the loop has reached.\<close>

fun find_fit_from :: "nat \<Rightarrow> heap_block list \<Rightarrow> u64 \<Rightarrow> nat option" where
  "find_fit_from position [] len = None"
| "find_fit_from position (b # table) len =
     (if \<not> hb_used b \<and> hb_size b \<ge> len then Some position else find_fit_from (Suc position) table len)"

definition find_fit :: "heap_block list \<Rightarrow> u64 \<Rightarrow> nat option" where
  "find_fit table len = find_fit_from 0 table len"

fun block_index_from :: "nat \<Rightarrow> heap_block list \<Rightarrow> u64 \<Rightarrow> nat option" where
  "block_index_from position [] offset = None"
| "block_index_from position (b # table) offset =
     (if hb_offset b = offset then Some position else block_index_from (Suc position) table offset)"

definition block_index_for_offset :: "heap_block list \<Rightarrow> u64 \<Rightarrow> nat option" where
  "block_index_for_offset table offset = block_index_from 0 table offset"

definition remove_block :: "heap_block list \<Rightarrow> nat \<Rightarrow> heap_block list" where
  "remove_block table index = take index table @ drop (index + 1) table"

definition split_block :: "heap_block list \<Rightarrow> nat \<Rightarrow> u64 \<Rightarrow> bool \<times> heap_block list" where
  "split_block table index len =
     (let remainder = hb_size (table ! index) - len in
      if remainder \<ge> HEAP_ALIGNMENT then
        if length table = HEAP_MAX_BLOCKS then (False, table)
        else
          let rest = \<lparr>hb_offset = hb_offset (table ! index) + len, hb_size = remainder, hb_used = False\<rparr>;
              table = take (index + 1) table @ [rest] @ drop (index + 1) table;
              table = table[index := (table ! index)\<lparr>hb_size := len\<rparr>]
          in (True, table[index := (table ! index)\<lparr>hb_used := True\<rparr>])
      else (True, table[index := (table ! index)\<lparr>hb_used := True\<rparr>]))"

definition merge_free_neighbours :: "heap_block list \<Rightarrow> nat \<Rightarrow> heap_block list" where
  "merge_free_neighbours table index =
     (let table =
        (if index + 1 < length table \<and> \<not> hb_used (table ! (index + 1)) then
           remove_block (table[index := (table ! index)\<lparr>hb_size := hb_size (table ! index) + hb_size (table ! (index + 1))\<rparr>])
             (index + 1)
         else table)
      in if index > 0 \<and> \<not> hb_used (table ! (index - 1)) then
           remove_block (table[index - 1 := (table ! (index - 1))
             \<lparr>hb_size := hb_size (table ! (index - 1)) + hb_size (table ! index)\<rparr>]) index
         else table)"

text \<open>The loop of \<open>validate_table\<close>; \<open>previous\<close> is the block before, if there is one.\<close>

fun validate_blocks :: "u64 \<Rightarrow> heap_block option \<Rightarrow> heap_block list \<Rightarrow> u64 \<Rightarrow> bool" where
  "validate_blocks expected_offset previous [] committed = (expected_offset = committed)"
| "validate_blocks expected_offset previous (b # table) committed =
     (if hb_offset b \<noteq> expected_offset \<or> hb_size b = 0 \<or> hb_size b mod HEAP_ALIGNMENT \<noteq> 0 then False
      else if (case previous of None \<Rightarrow> False | Some p \<Rightarrow> \<not> hb_used p \<and> \<not> hb_used b) then False
      else validate_blocks (expected_offset + hb_size b) (Some b) table committed)"

definition validate_table :: "heap_block list \<Rightarrow> u64 \<Rightarrow> bool" where
  "validate_table table committed =
     (if length table > HEAP_MAX_BLOCKS then False
      else if length table = 0 then committed = 0
      else validate_blocks 0 None table committed)"

subsection \<open>Tilings\<close>

text \<open>The blocks cover the bytes from \<open>e\<close> to \<open>c\<close> one after the other, in whole units.\<close>

fun tiles :: "nat \<Rightarrow> heap_block list \<Rightarrow> nat \<Rightarrow> bool" where
  "tiles e [] c \<longleftrightarrow> e = c"
| "tiles e (b # bs) c \<longleftrightarrow> unat (hb_offset b) = e \<and> 0 < unat (hb_size b) \<and> 16 dvd unat (hb_size b)
     \<and> tiles (e + unat (hb_size b)) bs c"

abbreviation coalesced :: "heap_block list \<Rightarrow> bool" where
  "coalesced \<equiv> successively (\<lambda>a b. hb_used a \<or> hb_used b)"

lemma tiles_append: "tiles e (xs @ ys) c \<longleftrightarrow> (\<exists>m. tiles e xs m \<and> tiles m ys c)"
  by (induction xs arbitrary: e) auto

lemma tiles_le: "tiles e bs c \<Longrightarrow> e \<le> c"
proof (induction bs arbitrary: e)
  case (Cons b bs)
  from Cons.IH [of "e + unat (hb_size b)"] Cons.prems show ?case by simp
qed simp

lemma tiles_member:
  "tiles e bs c \<Longrightarrow> b \<in> set bs \<Longrightarrow> e \<le> unat (hb_offset b) \<and> unat (hb_offset b) + unat (hb_size b) \<le> c
     \<and> 0 < unat (hb_size b) \<and> 16 dvd unat (hb_size b)"
proof (induction bs arbitrary: e)
  case (Cons x xs)
  from Cons.prems(1) have x: "unat (hb_offset x) = e" "0 < unat (hb_size x)" "16 dvd unat (hb_size x)"
    and t: "tiles (e + unat (hb_size x)) xs c" by auto
  show ?case
  proof (cases "b = x")
    case True
    then show ?thesis using x tiles_le [OF t] by simp
  next
    case False
    then have "b \<in> set xs" using Cons.prems(2) by simp
    from Cons.IH [OF t this] show ?thesis by auto
  qed
qed simp

lemma tiles_offset_aligned: "tiles e bs c \<Longrightarrow> 16 dvd e \<Longrightarrow> b \<in> set bs \<Longrightarrow> 16 dvd unat (hb_offset b)"
proof (induction bs arbitrary: e)
  case (Cons x xs)
  then have "tiles (e + unat (hb_size x)) xs c" "16 dvd e + unat (hb_size x)" "16 dvd unat (hb_offset x)" by auto
  then show ?case using Cons.IH Cons.prems(3) by auto
qed simp

text \<open>Two blocks of a tiling at different positions have no byte in common.\<close>

lemma tiles_apart:
  assumes "tiles e bs c" and "i < j" and "j < length bs"
  shows "unat (hb_offset (bs ! i)) + unat (hb_size (bs ! i)) \<le> unat (hb_offset (bs ! j))"
proof -
  have "bs = take (Suc i) bs @ drop (Suc i) bs" by simp
  then obtain m where m: "tiles e (take (Suc i) bs) m" "tiles m (drop (Suc i) bs) c"
    using assms(1) tiles_append by metis
  have "bs ! i \<in> set (take (Suc i) bs)" using assms(2,3) by (simp add: take_Suc_conv_app_nth)
  from tiles_member [OF m(1) this] have "unat (hb_offset (bs ! i)) + unat (hb_size (bs ! i)) \<le> m" by blast
  moreover have "drop (Suc i) bs ! (j - Suc i) \<in> set (drop (Suc i) bs)" using assms(2,3) by (intro nth_mem) simp
  then have "bs ! j \<in> set (drop (Suc i) bs)" using assms(2,3) by simp
  from tiles_member [OF m(2) this] have "m \<le> unat (hb_offset (bs ! j))" by blast
  ultimately show ?thesis by simp
qed

lemma validate_blocks_tiles:
  assumes "tiles (unat e) bs (unat c)" and "coalesced (case p of None \<Rightarrow> bs | Some b \<Rightarrow> b # bs)"
  shows "validate_blocks e p bs c"
  using assms
proof (induction bs arbitrary: e p)
  case Nil
  then show ?case by (simp add: word_unat_eq_iff)
next
  case (Cons b bs)
  from Cons.prems(1) have b: "unat (hb_offset b) = unat e" "0 < unat (hb_size b)" "16 dvd unat (hb_size b)"
    and t: "tiles (unat e + unat (hb_size b)) bs (unat c)" by auto
  have "unat e + unat (hb_size b) < 2 ^ LENGTH(64)" using tiles_le [OF t] unat_less_size [of c] by simp
  then have u: "unat (e + hb_size b) = unat e + unat (hb_size b)" by (simp add: unat_plus_bounded)
  have "hb_size b mod HEAP_ALIGNMENT = 0"
    using b(3) by (simp add: word_unat_eq_iff unat_mod HEAP_ALIGNMENT_def dvd_eq_mod_eq_0)
  moreover have "hb_size b \<noteq> 0" using b(2) by (simp add: unat_gt_0)
  moreover have "hb_offset b = e" using b(1) by (simp add: word_unat_eq_iff)
  moreover have "coalesced (b # bs)" "case p of None \<Rightarrow> True | Some q \<Rightarrow> hb_used q \<or> hb_used b"
    using Cons.prems(2) by (auto split: option.splits)
  ultimately show ?case using Cons.IH [of "e + hb_size b" "Some b"] t u by (auto split: option.split)
qed

text \<open>The allocations a table holds: where they start and how long they are.\<close>

definition live :: "heap_block list \<Rightarrow> (nat \<times> nat) set" where
  "live bs = {(unat (hb_offset b), unat (hb_size b)) | b. b \<in> set bs \<and> hb_used b}"

lemma live_simps [simp]: "live [] = {}"
  "live (b # bs) = (if hb_used b then insert (unat (hb_offset b), unat (hb_size b)) (live bs) else live bs)"
  "live (xs @ ys) = live xs \<union> live ys"
  by (auto simp: live_def)

lemma live_bounds: "tiles e bs c \<Longrightarrow> (off, n) \<in> live bs \<Longrightarrow> e \<le> off \<and> off + n \<le> c \<and> 0 < n \<and> 16 dvd n"
  using tiles_member [of e bs c] by (auto simp: live_def)

lemma live_apart:
  assumes t: "tiles e bs c" and "(o1, n1) \<in> live bs" "(o2, n2) \<in> live bs" and ne: "(o1, n1) \<noteq> (o2, n2)"
  shows "o1 + n1 \<le> o2 \<or> o2 + n2 \<le> o1"
proof -
  obtain i where i: "i < length bs" "o1 = unat (hb_offset (bs ! i))" "n1 = unat (hb_size (bs ! i))"
    using assms(2) by (auto simp: live_def in_set_conv_nth)
  obtain j where j: "j < length bs" "o2 = unat (hb_offset (bs ! j))" "n2 = unat (hb_size (bs ! j))"
    using assms(3) by (auto simp: live_def in_set_conv_nth)
  have "i \<noteq> j" using ne i j by blast
  then have "i < j \<or> j < i" by arith
  then show ?thesis using tiles_apart [OF t, of i j] tiles_apart [OF t, of j i] i j by auto
qed

lemma find_fit_from_Some: "find_fit_from n bs len = Some i \<Longrightarrow> n \<le> i \<and> i < n + length bs
    \<and> \<not> hb_used (bs ! (i - n)) \<and> len \<le> hb_size (bs ! (i - n))"
proof (induction bs arbitrary: n)
  case (Cons b bs)
  show ?case
  proof (cases "\<not> hb_used b \<and> len \<le> hb_size b")
    case False
    then have "find_fit_from (Suc n) bs len = Some i" using Cons.prems by auto
    from Cons.IH [OF this] have "Suc n \<le> i" "i < Suc n + length bs" "\<not> hb_used (bs ! (i - Suc n))"
      "len \<le> hb_size (bs ! (i - Suc n))" by blast+
    moreover from this have "(b # bs) ! (i - n) = bs ! (i - Suc n)" by (simp add: nth_Cons')
    ultimately show ?thesis by auto
  qed (use Cons.prems in auto)
qed simp

lemma find_fit_from_None: "find_fit_from n bs len = None \<longleftrightarrow> (\<forall>b \<in> set bs. \<not> hb_used b \<longrightarrow> hb_size b < len)"
  by (induction bs arbitrary: n) (auto simp: not_le)

lemma find_fit_Some: "find_fit bs len = Some i \<Longrightarrow> i < length bs \<and> \<not> hb_used (bs ! i) \<and> len \<le> hb_size (bs ! i)"
  and find_fit_None: "find_fit bs len = None \<longleftrightarrow> (\<forall>b \<in> set bs. \<not> hb_used b \<longrightarrow> hb_size b < len)"
  using find_fit_from_Some [of 0 bs len i] find_fit_from_None [of 0 bs len] by (auto simp: find_fit_def)

lemma block_index_from_Some: "block_index_from n bs off = Some i \<Longrightarrow> n \<le> i \<and> i < n + length bs \<and> hb_offset (bs ! (i - n)) = off"
proof (induction bs arbitrary: n)
  case (Cons b bs)
  show ?case
  proof (cases "hb_offset b = off")
    case False
    then have "block_index_from (Suc n) bs off = Some i" using Cons.prems by auto
    from Cons.IH [OF this] have "Suc n \<le> i" "i < Suc n + length bs" "hb_offset (bs ! (i - Suc n)) = off" by blast+
    moreover from this have "(b # bs) ! (i - n) = bs ! (i - Suc n)" by (simp add: nth_Cons')
    ultimately show ?thesis by auto
  qed (use Cons.prems in auto)
qed simp

lemma block_index_from_None: "block_index_from n bs off = None \<longleftrightarrow> (\<forall>b \<in> set bs. hb_offset b \<noteq> off)"
  by (induction bs arbitrary: n) auto

lemma block_index_Some: "block_index_for_offset bs off = Some i \<Longrightarrow> i < length bs \<and> hb_offset (bs ! i) = off"
  and block_index_None: "block_index_for_offset bs off = None \<longleftrightarrow> (\<forall>b \<in> set bs. hb_offset b \<noteq> off)"
  using block_index_from_Some [of 0 bs off i] block_index_from_None [of 0 bs off] by (auto simp: block_index_for_offset_def)

lemma at_position: "i < length bs \<Longrightarrow> \<exists>xs ys. bs = xs @ bs ! i # ys \<and> length xs = i"
  by (intro exI [of _ "take i bs"] exI [of _ "drop (Suc i) bs"]) (simp add: id_take_nth_drop)

lemma split_block_at:
  "split_block (xs @ b # ys) (length xs) len =
     (if hb_size b - len \<ge> HEAP_ALIGNMENT then
        if length (xs @ b # ys) = HEAP_MAX_BLOCKS then (False, xs @ b # ys)
        else (True, xs @ b\<lparr>hb_size := len, hb_used := True\<rparr>
               # \<lparr>hb_offset = hb_offset b + len, hb_size = hb_size b - len, hb_used = False\<rparr> # ys)
      else (True, xs @ b\<lparr>hb_used := True\<rparr> # ys))"
  by (simp add: split_block_def Let_def nth_append list_update_append)

lemma split_block_spec:
  assumes t: "tiles e bs c" and co: "coalesced bs" and i: "i < length bs" "\<not> hb_used (bs ! i)"
    and len: "0 < unat len" "16 dvd unat len" "len \<le> hb_size (bs ! i)" and c: "c < 2 ^ 64"
    and call: "split_block bs i len = (ok, bs')"
  shows "ok \<longleftrightarrow> hb_size (bs ! i) = len \<or> length bs \<noteq> HEAP_MAX_BLOCKS" and "\<not> ok \<Longrightarrow> bs' = bs"
    and "ok \<Longrightarrow> tiles e bs' c" and "ok \<Longrightarrow> coalesced bs'"
    and "ok \<Longrightarrow> live bs' = insert (unat (hb_offset (bs ! i)), unat len) (live bs)"
    and "ok \<Longrightarrow> i < length bs' \<and> hb_offset (bs' ! i) = hb_offset (bs ! i)"
    and "length bs \<le> HEAP_MAX_BLOCKS \<Longrightarrow> length bs' \<le> HEAP_MAX_BLOCKS"
proof -
  obtain xs b ys where bs: "bs = xs @ b # ys" "length xs = i" "bs ! i = b" using at_position [OF i(1)] by blast
  obtain m where m: "tiles e xs m" "unat (hb_offset b) = m" "0 < unat (hb_size b)" "16 dvd unat (hb_size b)"
    "tiles (m + unat (hb_size b)) ys c" using t bs(1) by (auto simp: tiles_append)
  let ?r = "hb_size b - len"
  have r: "unat ?r = unat (hb_size b) - unat len" using len(3) bs(3) by (simp add: unat_sub word_le_nat_alt)
  then have d: "16 dvd unat ?r" using len(2) m(4) by simp
  have small: "\<not> ?r \<ge> HEAP_ALIGNMENT \<longleftrightarrow> hb_size b = len"
  proof
    assume "\<not> ?r \<ge> HEAP_ALIGNMENT"
    then have "unat ?r < 16" by (simp add: word_le_nat_alt HEAP_ALIGNMENT_def)
    then have "unat ?r = 0" using d by (meson dvd_imp_le not_le zero_less_iff_neq_zero)
    then show "hb_size b = len" using r len(3) bs(3) by (simp add: word_le_nat_alt word_unat_eq_iff)
  qed (simp add: HEAP_ALIGNMENT_def)
  note s = split_block_at [of xs b ys len, folded bs(1), unfolded bs(2)]
  have le: "unat len \<le> unat (hb_size b)" using len(3) bs(3) by (simp add: word_le_nat_alt)
  have end_le: "m + unat (hb_size b) \<le> c" using tiles_le [OF m(5)] .
  have fits: "unat (hb_offset b + len) = m + unat len"
    using m(2) le end_le c by (simp add: unat_plus_bounded)
  have u: "\<not> hb_used b" using i(2) bs(3) by simp
  have used: "ys = [] \<or> hb_used (hd ys)"
    using co u unfolding bs(1) by (cases ys) (auto simp: successively_append_iff)
  show "ok \<longleftrightarrow> hb_size (bs ! i) = len \<or> length bs \<noteq> HEAP_MAX_BLOCKS" "\<not> ok \<Longrightarrow> bs' = bs"
    using call s small bs(3) by (auto split: if_split_asm)
  have form: "ok \<Longrightarrow> bs' = xs @ b\<lparr>hb_used := True\<rparr> # ys \<and> hb_size b = len
      \<or> bs' = xs @ b\<lparr>hb_size := len, hb_used := True\<rparr> # \<lparr>hb_offset = hb_offset b + len, hb_size = ?r, hb_used = False\<rparr> # ys
        \<and> hb_size b \<noteq> len \<and> length bs \<noteq> HEAP_MAX_BLOCKS"
    using call s small bs(1) by (auto split: if_split_asm)
  have pos: "hb_size b \<noteq> len \<Longrightarrow> 0 < unat ?r" using r le by (auto simp: word_unat_eq_iff)
  show "ok \<Longrightarrow> tiles e bs' c"
    using form m len(1,2) fits d pos r le by (auto simp: tiles_append)
  show "ok \<Longrightarrow> coalesced bs'"
    using form co used unfolding bs(1) by (cases ys) (auto simp: successively_append_iff)
  show "ok \<Longrightarrow> live bs' = insert (unat (hb_offset (bs ! i)), unat len) (live bs)"
    using form u unfolding bs(3) by (auto simp: bs(1))
  show "ok \<Longrightarrow> i < length bs' \<and> hb_offset (bs' ! i) = hb_offset (bs ! i)"
    using form bs(2,3) by (auto simp: nth_append)
  show "length bs \<le> HEAP_MAX_BLOCKS \<Longrightarrow> length bs' \<le> HEAP_MAX_BLOCKS"
    using call s bs(1) by (auto split: if_split_asm)
qed

definition absorb :: "heap_block \<Rightarrow> heap_block \<Rightarrow> heap_block" where
  "absorb a b = a\<lparr>hb_size := hb_size a + hb_size b\<rparr>"

fun merge_forward :: "heap_block \<Rightarrow> heap_block list \<Rightarrow> heap_block list" where
  "merge_forward b [] = [b]"
| "merge_forward b (y # ys) = (if hb_used y then b # y # ys else absorb b y # ys)"

lemma merge_forward_eq: "merge_forward b ys = hd (merge_forward b ys) # tl (merge_forward b ys)"
  by (cases ys) auto

lemma merge_block_at:
  "merge_free_neighbours (xs @ b # ys) (length xs) =
     (if xs = [] \<or> hb_used (last xs) then xs @ merge_forward b ys
      else butlast xs @ absorb (last xs) (hd (merge_forward b ys)) # tl (merge_forward b ys))"
proof -
  have fwd: "(if length xs + 1 < length (xs @ b # ys) \<and> \<not> hb_used ((xs @ b # ys) ! (length xs + 1)) then
       remove_block ((xs @ b # ys)[length xs := ((xs @ b # ys) ! length xs)
         \<lparr>hb_size := hb_size ((xs @ b # ys) ! length xs) + hb_size ((xs @ b # ys) ! (length xs + 1))\<rparr>]) (length xs + 1)
     else xs @ b # ys) = xs @ merge_forward b ys"
    by (cases ys) (auto simp: remove_block_def absorb_def nth_append list_update_append)
  show ?thesis
  proof (cases xs rule: rev_cases)
    case Nil
    then show ?thesis using fwd unfolding merge_free_neighbours_def Let_def by simp
  next
    case (snoc ws w)
    obtain b' ys' where m: "merge_forward b ys = b' # ys'" using merge_forward_eq by blast
    show ?thesis
      unfolding merge_free_neighbours_def fwd unfolding Let_def m snoc
      by (simp add: remove_block_def absorb_def nth_append list_update_append)
  qed
qed

lemma absorb_tiles:
  assumes "tiles e (a # b # bs) c" and "c < 2 ^ 64"
  shows "tiles e (absorb a b # bs) c" and "unat (hb_size (absorb a b)) = unat (hb_size a) + unat (hb_size b)"
proof -
  have t: "tiles (e + unat (hb_size a) + unat (hb_size b)) bs c" using assms(1) by simp
  show u: "unat (hb_size (absorb a b)) = unat (hb_size a) + unat (hb_size b)"
    using tiles_le [OF t] assms(2) by (simp add: absorb_def unat_plus_bounded)
  then show "tiles e (absorb a b # bs) c" using assms(1) by (simp add: absorb_def ac_simps)
qed

lemma merge_forward_spec:
  assumes t: "tiles e (b # ys) c" and c: "c < 2 ^ 64" and co: "coalesced ys" and u: "\<not> hb_used b"
  shows "tiles e (merge_forward b ys) c" and "coalesced (merge_forward b ys)" and "live (merge_forward b ys) = live ys"
    and "\<not> hb_used (hd (merge_forward b ys))" and "length (merge_forward b ys) \<le> Suc (length ys)"
proof -
  show "tiles e (merge_forward b ys) c"
    using t absorb_tiles(1) [OF _ c] by (cases ys) auto
  show "coalesced (merge_forward b ys)"
  proof (cases ys)
    case (Cons y zs)
    then show ?thesis using co u by (cases zs) (auto simp: absorb_def)
  qed simp
  show "live (merge_forward b ys) = live ys" using u by (cases ys) (auto simp: absorb_def)
  show "\<not> hb_used (hd (merge_forward b ys))" using u by (cases ys) (auto simp: absorb_def)
  show "length (merge_forward b ys) \<le> Suc (length ys)" by (cases ys) auto
qed

text \<open>Freeing the block at a position of a tiled, coalesced table gives such a table without it.\<close>

lemma free_block_spec:
  assumes t: "tiles e bs c" and co: "coalesced bs" and i: "i < length bs" "hb_used (bs ! i)" and c: "c < 2 ^ 64"
  defines "bs' \<equiv> merge_free_neighbours (bs[i := (bs ! i)\<lparr>hb_used := False\<rparr>]) i"
  shows "tiles e bs' c" and "coalesced bs'"
    and "live bs' = live bs - {(unat (hb_offset (bs ! i)), unat (hb_size (bs ! i)))}" and "length bs' \<le> length bs"
proof -
  obtain xs b ys where bs: "bs = xs @ b # ys" "length xs = i" "bs ! i = b" using at_position [OF i(1)] by blast
  let ?b = "b\<lparr>hb_used := False\<rparr>" and ?m = "merge_forward (b\<lparr>hb_used := False\<rparr>) ys"
  have "bs[i := (bs ! i)\<lparr>hb_used := False\<rparr>] = xs @ ?b # ys"
    using bs(2) unfolding bs(3) by (simp add: bs(1) list_update_append)
  then have eq: "bs' = (if xs = [] \<or> hb_used (last xs) then xs @ ?m else butlast xs @ absorb (last xs) (hd ?m) # tl ?m)"
    unfolding bs'_def using merge_block_at [of xs ?b ys] bs(2) by simp
  obtain m where m: "tiles e xs m" "tiles m (?b # ys) c" using t bs(1) by (auto simp: tiles_append)
  have cy: "coalesced ys" "coalesced xs" using co unfolding bs(1) by (auto simp: successively_append_iff successively_Cons)
  have nu: "\<not> hb_used ?b" by simp
  note f = merge_forward_spec [OF m(2) c cy(1) nu]
  obtain b' zs where z: "?m = b' # zs" using merge_forward_eq by blast
  have "live bs = insert (unat (hb_offset b), unat (hb_size b)) (live xs \<union> live ys)"
    using i(2) unfolding bs(3) by (auto simp: bs(1))
  moreover have "(unat (hb_offset b), unat (hb_size b)) \<notin> live xs"
    using live_bounds [OF m(1), of "unat (hb_offset b)" "unat (hb_size b)"] m(2) by auto
  moreover have "tiles (m + unat (hb_size b)) ys c" "unat (hb_offset b) = m" "0 < unat (hb_size b)" using m(2) by auto
  then have "(unat (hb_offset b), unat (hb_size b)) \<notin> live ys"
    using live_bounds [of "m + unat (hb_size b)" ys c "unat (hb_offset b)" "unat (hb_size b)"] by auto
  ultimately have l: "live bs - {(unat (hb_offset (bs ! i)), unat (hb_size (bs ! i)))} = live xs \<union> live ys"
    unfolding bs(3) by blast
  have "tiles e bs' c \<and> coalesced bs' \<and> live bs' = live xs \<union> live ys \<and> length bs' \<le> length bs"
  proof (cases "xs = [] \<or> hb_used (last xs)")
    case True
    then have "bs' = xs @ ?m" using eq by simp
    moreover have "coalesced (xs @ ?m)" using True cy f(2) by (auto simp: successively_append_iff)
    ultimately show ?thesis using f(1,3,5) m(1) by (auto simp: tiles_append bs(1))
  next
    case False
    then obtain ws w where w: "xs = ws @ [w]" "\<not> hb_used w" by (cases xs rule: rev_cases) auto
    then have b': "bs' = ws @ absorb w b' # zs" using eq z by simp
    obtain n where n: "tiles e ws n" "tiles n [w] m" using m(1) w(1) by (auto simp: tiles_append)
    have "tiles n (w # b' # zs) c" using n(2) f(1) unfolding z by auto
    note a = absorb_tiles [OF this c]
    have "coalesced (absorb w b' # zs)" using f(2,4) unfolding z by (cases zs) (auto simp: absorb_def)
    moreover have "ws = [] \<or> hb_used (last ws)" using cy(2) w by (cases ws rule: rev_cases) (auto simp: successively_append_iff)
    moreover have "coalesced ws" using cy(2) w(1) by (simp add: successively_append_iff)
    ultimately have "coalesced bs'" unfolding b' by (auto simp: successively_append_iff)
    moreover have "live bs' = live xs \<union> live ys" using f(3,4) w unfolding b' z by (auto simp: absorb_def)
    moreover have "length bs' \<le> length bs" using f(5) w(1) unfolding b' z by (simp add: bs(1))
    ultimately show ?thesis using a(1) n(1) unfolding b' by (auto simp: tiles_append)
  qed
  then show "tiles e bs' c" "coalesced bs'" "length bs' \<le> length bs"
    "live bs' = live bs - {(unat (hb_offset (bs ! i)), unat (hb_size (bs ! i)))}" unfolding l by blast+
qed

end
