(* ===== verification/Kernel_Heap.thy ===== *)
theory Kernel_Heap
  imports Paging_Install Heap_Blocks
begin

text \<open>
  The kernel heap, the second part of \<open>src/src/kernel/heap.c\<close>, on top of the page tables and the frame
  allocator it calls: growth page by page with its undoing, allocation, freeing, the state and its
  verification. The invariant ties the table to the pages mapped in the window and to the frames behind them;
  every operation is shown to keep it.
\<close>

subsection \<open>The operations\<close>

definition HEAP_BASE :: u64 where "HEAP_BASE = 0x400000000"
definition HEAP_SIZE :: u64 where "HEAP_SIZE = 16 * 1024 * 1024"
definition HEAP_GUARD_BELOW :: u64 where "HEAP_GUARD_BELOW = HEAP_BASE - 4096"
definition HEAP_GUARD_ABOVE :: u64 where "HEAP_GUARD_ABOVE = HEAP_BASE + HEAP_SIZE"

datatype heap_status = HEAP_STATUS_OK | HEAP_STATUS_NULL_ARGUMENT | HEAP_STATUS_ALREADY_INITIALIZED
  | HEAP_STATUS_NOT_INITIALIZED | HEAP_STATUS_INTERRUPTS_ENABLED | HEAP_STATUS_PAGING_INACTIVE
  | HEAP_STATUS_GUARD_MAPPED | HEAP_STATUS_ZERO_SIZE | HEAP_STATUS_TOO_LARGE | HEAP_STATUS_OUT_OF_MEMORY
  | HEAP_STATUS_OUT_OF_BLOCKS | HEAP_STATUS_MAPPING_FAILURE | HEAP_STATUS_BAD_POINTER
  | HEAP_STATUS_DOUBLE_FREE | HEAP_STATUS_VALIDATION_FAILURE

record heap_state =
  hs_base_address :: u64
  hs_size :: u64
  hs_committed_bytes :: u64
  hs_allocated_bytes :: u64
  hs_block_count :: nat
  hs_live_allocations :: nat
  hs_mapped_pages :: u64
  hs_active :: bool

text \<open>
  The file-scope state of \<open>heap.c\<close>, the block table with its count as a list, and the kernel
  whose page tables and frame allocator it calls.
\<close>

record heap =
  hp_blocks :: "heap_block list"
  hp_state :: heap_state
  hp_kernel :: paging_kernel

definition kernel_frames :: "paging_kernel \<Rightarrow> frame_state" where
  "kernel_frames k = pw_frames (pk_world k)"

definition set_frames :: "frame_state \<Rightarrow> paging_kernel \<Rightarrow> paging_kernel" where
  "set_frames fs k = k\<lparr>pk_world := (pk_world k)\<lparr>pw_frames := fs\<rparr>\<rparr>"

text \<open>The offsets of the loops \<open>for (offset = from; offset < to; offset += PAGING_PAGE_SIZE)\<close>.\<close>

definition page_offsets :: "u64 \<Rightarrow> u64 \<Rightarrow> u64 list" where
  "page_offsets from to = (if from < to then map (\<lambda>x. from + x) (range_offsets (to - from) PAGING_PAGE_SIZE) else [])"

definition release_page :: "u64 \<Rightarrow> heap \<Rightarrow> heap" where
  "release_page offset hp =
     (let address = HEAP_BASE + offset in
      case paging_translate address (Some no_translation) (hp_kernel hp) of
        (status, translation) \<Rightarrow>
          if status \<noteq> PAGING_STATUS_OK then hp
          else
            (case paging_unmap address PAGING_PAGE_SIZE (hp_kernel hp) of
               (status, k) \<Rightarrow>
                 if status \<noteq> PAGING_STATUS_OK then hp\<lparr>hp_kernel := k\<rparr>
                 else
                   hp\<lparr>hp_kernel := set_frames (snd (frame_release (tr_physical_address (the translation)) (kernel_frames k))) k,
                      hp_state := (hp_state hp)\<lparr>hs_mapped_pages := hs_mapped_pages (hp_state hp) - 1\<rparr>\<rparr>))"

definition release_pages :: "u64 \<Rightarrow> u64 \<Rightarrow> heap \<Rightarrow> heap" where
  "release_pages from to hp = fold release_page (page_offsets from to) hp"

primrec commit_loop :: "u64 \<Rightarrow> u64 list \<Rightarrow> heap \<Rightarrow> heap_status \<times> heap" where
  "commit_loop from [] hp = (HEAP_STATUS_OK, hp)"
| "commit_loop from (offset # offsets) hp =
     (case frame_allocate (Some 0) (kernel_frames (hp_kernel hp)) of
        (status, frame, fs) \<Rightarrow>
          let hp = hp\<lparr>hp_kernel := set_frames fs (hp_kernel hp)\<rparr> in
          if status \<noteq> FRAME_STATUS_OK then (HEAP_STATUS_OUT_OF_MEMORY, release_pages from offset hp)
          else
            (case paging_map (HEAP_BASE + offset) (the frame) PAGING_PAGE_SIZE PAGING_WRITE (hp_kernel hp) of
               (status, k) \<Rightarrow>
                 if status \<noteq> PAGING_STATUS_OK then
                   (HEAP_STATUS_MAPPING_FAILURE,
                    release_pages from offset
                      (hp\<lparr>hp_kernel := set_frames (snd (frame_release (the frame) (kernel_frames k))) k\<rparr>))
                 else
                   commit_loop from offsets
                     (hp\<lparr>hp_kernel := k,
                         hp_state := (hp_state hp)\<lparr>hs_mapped_pages := hs_mapped_pages (hp_state hp) + 1\<rparr>\<rparr>)))"

definition commit_pages :: "u64 \<Rightarrow> u64 \<Rightarrow> heap \<Rightarrow> heap_status \<times> heap" where
  "commit_pages from to hp = commit_loop from (page_offsets from to) hp"

definition grow_for :: "u64 \<Rightarrow> heap \<Rightarrow> heap_status \<times> nat \<times> heap" where
  "grow_for len hp =
     (let blocks = hp_blocks hp;
          state = hp_state hp;
          extend_last = (length blocks > 0 \<and> \<not> hb_used (blocks ! (length blocks - 1)));
          trailing = (if extend_last then hb_size (blocks ! (length blocks - 1)) else 0);
          growth = align_up (len - trailing) PAGING_PAGE_SIZE
      in if growth > HEAP_SIZE - hs_committed_bytes state then (HEAP_STATUS_OUT_OF_MEMORY, 0, hp)
         else if \<not> extend_last \<and> length blocks = HEAP_MAX_BLOCKS then (HEAP_STATUS_OUT_OF_BLOCKS, 0, hp)
         else
           (case commit_pages (hs_committed_bytes state) (hs_committed_bytes state + growth) hp of
              (status, hp) \<Rightarrow>
                if status \<noteq> HEAP_STATUS_OK then (status, 0, hp)
                else
                  let blocks = hp_blocks hp;
                      last = length blocks - 1;
                      blocks = (if extend_last then blocks[last := (blocks ! last)\<lparr>hb_size := hb_size (blocks ! last) + growth\<rparr>]
                                else blocks @ [\<lparr>hb_offset = hs_committed_bytes (hp_state hp), hb_size = growth, hb_used = False\<rparr>])
                  in (HEAP_STATUS_OK, length blocks - 1,
                      hp\<lparr>hp_blocks := blocks,
                         hp_state := (hp_state hp)\<lparr>hs_committed_bytes := hs_committed_bytes (hp_state hp) + growth\<rparr>\<rparr>)))"

definition allocated_bytes :: "heap_block list \<Rightarrow> u64" where
  "allocated_bytes blocks = fold (\<lambda>b n. if hb_used b then n + hb_size b else n) blocks 0"

definition live_allocations :: "heap_block list \<Rightarrow> nat" where
  "live_allocations blocks = fold (\<lambda>b n. if hb_used b then n + 1 else n) blocks 0"

definition refresh_state :: "heap \<Rightarrow> heap" where
  "refresh_state hp = hp\<lparr>hp_state := (hp_state hp)
     \<lparr>hs_block_count := length (hp_blocks hp), hs_allocated_bytes := allocated_bytes (hp_blocks hp),
      hs_live_allocations := live_allocations (hp_blocks hp)\<rparr>\<rparr>"

text \<open>Both guard pages are absent.\<close>

definition guards_absent :: "paging_kernel \<Rightarrow> bool" where
  "guards_absent k \<longleftrightarrow>
     \<not> (fst (paging_translate HEAP_GUARD_BELOW (Some no_translation) k) \<noteq> PAGING_STATUS_NOT_MAPPED
        \<or> fst (paging_translate HEAP_GUARD_ABOVE (Some no_translation) k) \<noteq> PAGING_STATUS_NOT_MAPPED)"

definition heap_initialize :: "heap \<Rightarrow> heap_status \<times> heap" where
  "heap_initialize hp =
     (if hs_active (hp_state hp) then (HEAP_STATUS_ALREADY_INITIALIZED, hp)
      else if \<not> paging_is_active (hp_kernel hp) then (HEAP_STATUS_PAGING_INACTIVE, hp)
      else if cpu_interrupt_flag (pk_cpu (hp_kernel hp)) then (HEAP_STATUS_INTERRUPTS_ENABLED, hp)
      else if \<not> guards_absent (hp_kernel hp) then (HEAP_STATUS_GUARD_MAPPED, hp)
      else
        (HEAP_STATUS_OK,
         refresh_state (hp\<lparr>hp_blocks := [], hp_state := (hp_state hp)
           \<lparr>hs_base_address := HEAP_BASE, hs_size := HEAP_SIZE, hs_committed_bytes := 0, hs_mapped_pages := 0,
            hs_active := True\<rparr>\<rparr>)))"

text \<open>The output pointer: \<open>None\<close> for a null argument, otherwise what is stored through it.\<close>

definition heap_allocate :: "u64 \<Rightarrow> u64 option \<Rightarrow> heap \<Rightarrow> heap_status \<times> u64 option \<times> heap" where
  "heap_allocate len pointer hp =
     (case pointer of
        None \<Rightarrow> (HEAP_STATUS_NULL_ARGUMENT, None, hp)
      | Some _ \<Rightarrow>
          if \<not> hs_active (hp_state hp) then (HEAP_STATUS_NOT_INITIALIZED, Some 0, hp)
          else if len = 0 then (HEAP_STATUS_ZERO_SIZE, Some 0, hp)
          else if len > HEAP_SIZE then (HEAP_STATUS_TOO_LARGE, Some 0, hp)
          else
            let requested = align_up len HEAP_ALIGNMENT in
            if requested > HEAP_SIZE then (HEAP_STATUS_TOO_LARGE, Some 0, hp)
            else
              (case (case find_fit (hp_blocks hp) requested of
                       Some index \<Rightarrow> (HEAP_STATUS_OK, index, hp)
                     | None \<Rightarrow> grow_for requested hp) of
                 (status, index, hp) \<Rightarrow>
                   if status \<noteq> HEAP_STATUS_OK then (status, Some 0, hp)
                   else
                     (case split_block (hp_blocks hp) index requested of
                        (ok, blocks) \<Rightarrow>
                          let hp = hp\<lparr>hp_blocks := blocks\<rparr> in
                          if \<not> ok then (HEAP_STATUS_OUT_OF_BLOCKS, Some 0, hp)
                          else (HEAP_STATUS_OK, Some (HEAP_BASE + hb_offset (blocks ! index)), refresh_state hp))))"

definition heap_free :: "u64 \<Rightarrow> heap \<Rightarrow> heap_status \<times> heap" where
  "heap_free pointer hp =
     (if \<not> hs_active (hp_state hp) then (HEAP_STATUS_NOT_INITIALIZED, hp)
      else if pointer = 0 then (HEAP_STATUS_NULL_ARGUMENT, hp)
      else if pointer < HEAP_BASE \<or> pointer \<ge> HEAP_BASE + hs_committed_bytes (hp_state hp)
      then (HEAP_STATUS_BAD_POINTER, hp)
      else
        (case block_index_for_offset (hp_blocks hp) (pointer - HEAP_BASE) of
           None \<Rightarrow> (HEAP_STATUS_BAD_POINTER, hp)
         | Some index \<Rightarrow>
             let blocks = hp_blocks hp in
             if \<not> hb_used (blocks ! index) then (HEAP_STATUS_DOUBLE_FREE, hp)
             else (HEAP_STATUS_OK,
                   refresh_state (hp\<lparr>hp_blocks :=
                     merge_free_neighbours (blocks[index := (blocks ! index)\<lparr>hb_used := False\<rparr>]) index\<rparr>))))"

definition heap_page_ok :: "paging_kernel \<Rightarrow> u64 \<Rightarrow> bool" where
  "heap_page_ok k offset =
     (case paging_translate (HEAP_BASE + offset) (Some no_translation) k of
        (status, translation) \<Rightarrow>
          \<not> (status \<noteq> PAGING_STATUS_OK \<or> tr_permissions (the translation) \<noteq> PAGING_WRITE
             \<or> tr_level (the translation) \<noteq> 1))"

definition heap_verify :: "heap \<Rightarrow> heap_status" where
  "heap_verify hp =
     (let state = hp_state hp; k = hp_kernel hp; blocks = hp_blocks hp in
      if \<not> hs_active state then HEAP_STATUS_NOT_INITIALIZED
      else if hs_committed_bytes state > HEAP_SIZE \<or> hs_committed_bytes state mod PAGING_PAGE_SIZE \<noteq> 0
           \<or> hs_mapped_pages state \<noteq> hs_committed_bytes state div PAGING_PAGE_SIZE
      then HEAP_STATUS_VALIDATION_FAILURE
      else if \<not> validate_table blocks (hs_committed_bytes state) then HEAP_STATUS_VALIDATION_FAILURE
      else if \<not> guards_absent k then HEAP_STATUS_GUARD_MAPPED
      else if \<not> list_all (heap_page_ok k) (page_offsets 0 (hs_committed_bytes state))
      then HEAP_STATUS_VALIDATION_FAILURE
      else if allocated_bytes blocks \<noteq> hs_allocated_bytes state \<or> live_allocations blocks \<noteq> hs_live_allocations state
           \<or> length blocks \<noteq> hs_block_count state
      then HEAP_STATUS_VALIDATION_FAILURE
      else HEAP_STATUS_OK)"

definition heap_get_state :: "heap \<Rightarrow> heap_state" where
  "heap_get_state hp = hp_state hp"

definition heap_is_active :: "heap \<Rightarrow> bool" where
  "heap_is_active hp = hs_active (hp_state hp)"

subsection \<open>Frames the kernel holds\<close>

text \<open>The frames taken from the allocator that are not page tables of the live hierarchy.\<close>

abbreviation kernel_owned :: "paging_kernel \<Rightarrow> u64 set" where
  "kernel_owned k \<equiv> others (pk_live_hierarchy k) (pk_world k)"

lemma set_frames_simps [simp]:
  "pk_live_hierarchy (set_frames fs k) = pk_live_hierarchy k" "pk_state (set_frames fs k) = pk_state k"
  "pk_cpu (set_frames fs k) = pk_cpu k" "pk_supervisor_intents (set_frames fs k) = pk_supervisor_intents k"
  "pw_tables (pk_world (set_frames fs k)) = pw_tables (pk_world k)" "kernel_frames (set_frames fs k) = fs"
  by (simp_all add: set_frames_def kernel_frames_def)

lemma set_frames_same: "set_frames (kernel_frames k) k = k"
  by (simp add: set_frames_def kernel_frames_def)

lemma set_frames_translate [simp]: "translate_address h a pat (pk_world (set_frames fs k)) = translate_address h a pat (pk_world k)"
  by (simp add: translate_address_def)

lemma set_frames_inv:
  assumes inv: "kernel_inv k" and fs: "frame_pool_inv fs" "frame_addresses (single_set fs) = S"
    and sub: "reach (pw_tables (pk_world k)) (h_root (pk_live_hierarchy k)) \<subseteq> S"
  shows "kernel_inv (set_frames fs k)" and "kernel_owned (set_frames fs k) = S - reach (pw_tables (pk_world k)) (h_root (pk_live_hierarchy k))"
proof -
  let ?h = "pk_live_hierarchy k" and ?w = "pk_world k" and ?w' = "pk_world (set_frames fs k)"
  have i: "hier_inv ?h ?w" "h_arena_capacity ?h = 0" using inv by (simp_all add: kernel_inv_def)
  have w': "pw_frames ?w' = fs" "pw_tables ?w' = pw_tables ?w" by (simp_all add: set_frames_def)
  have "hier_inv ?h ?w'"
    using i fs sub unfolding hier_inv_def table_pool_inv_def table_taken_def prod.case w' by simp
  then show "kernel_inv (set_frames fs k)" using inv by (simp add: kernel_inv_def)
  show "kernel_owned (set_frames fs k) = S - reach (pw_tables ?w) (h_root ?h)"
    using i(2) fs(2) by (simp add: others_def table_taken_def w')
qed

lemma kernel_pool:
  assumes "kernel_inv k"
  shows "frame_pool_inv (kernel_frames k)"
    and "kernel_owned k = frame_addresses (single_set (kernel_frames k)) - reach (pw_tables (pk_world k)) (h_root (pk_live_hierarchy k))"
    and "reach (pw_tables (pk_world k)) (h_root (pk_live_hierarchy k)) \<subseteq> frame_addresses (single_set (kernel_frames k))"
  using assms unfolding kernel_inv_def hier_inv_def table_pool_inv_def others_def table_taken_def kernel_frames_def by auto

lemma kernel_take:
  assumes inv: "kernel_inv k" and call: "frame_allocate (Some 0) (kernel_frames k) = (FRAME_STATUS_OK, fr, fs)"
  obtains f where "fr = Some f" "kernel_inv (set_frames fs k)" "kernel_owned (set_frames fs k) = insert f (kernel_owned k)"
    "f \<notin> kernel_owned k" "4096 dvd unat f" "unat f < 2 ^ 32"
proof -
  note p = kernel_pool [OF inv]
  have fi: "frame_inv (kernel_frames k)" "allocator_initialized (kernel_frames k)" using p(1) by (simp_all add: frame_pool_inv_def)
  have "free_set (kernel_frames k) \<noteq> {}"
  proof
    assume "free_set (kernel_frames k) = {}"
    from frame_allocate_cases(1) [OF fi this, of 0] call show False by simp
  qed
  then obtain f where f: "fr = Some f" using frame_allocate_cases(2) [OF fi, of 0] call by auto
  then have "frame_take (kernel_frames k) = Some (f, fs)" using call by (simp add: frame_take_def)
  note t = frames.take_Some [OF p(1) this]
  have nr: "f \<notin> frame_addresses (single_set (kernel_frames k))" using t frames.disjoint [OF p(1)] by blast
  have s: "frame_pool_inv fs" "frame_addresses (single_set fs) = insert f (frame_addresses (single_set (kernel_frames k)))"
    "reach (pw_tables (pk_world k)) (h_root (pk_live_hierarchy k)) \<subseteq> insert f (frame_addresses (single_set (kernel_frames k)))"
    using t p(3) by auto
  note i = set_frames_inv [OF inv s]
  have "f \<in> table_free (pk_live_hierarchy k, pk_world k)" using t inv by (simp add: table_free_def kernel_inv_def kernel_frames_def)
  moreover have "table_pool_inv (pk_live_hierarchy k, pk_world k)" using inv by (simp add: kernel_inv_def hier_inv_def)
  ultimately have "frame_address_ok f" "unat f < 2 ^ 32" using table_taken_ok by blast+
  then show thesis using that [OF f i(1)] i(2) p(2,3) nr by (auto simp: frame_address_ok_def)
qed

lemma kernel_give:
  assumes inv: "kernel_inv k" and f: "f \<in> kernel_owned k"
  obtains fs where "frame_release f (kernel_frames k) = (FRAME_STATUS_OK, fs)" "kernel_inv (set_frames fs k)"
    "kernel_owned (set_frames fs k) = kernel_owned k - {f}"
proof -
  note p = kernel_pool [OF inv]
  have "f \<in> frame_addresses (single_set (kernel_frames k))" using f p(2) by blast
  from frames.give_taken [OF p(1) this] obtain fs where g: "frame_give f (kernel_frames k) = Some fs"
    and s: "frame_addresses (single_set fs) = frame_addresses (single_set (kernel_frames k)) - {f}" "frame_pool_inv fs" by blast
  have "frame_release f (kernel_frames k) = (FRAME_STATUS_OK, fs)"
    using g by (auto simp: frame_give_def split: prod.split_asm frame_status.split_asm)
  moreover have "reach (pw_tables (pk_world k)) (h_root (pk_live_hierarchy k)) \<subseteq> frame_addresses (single_set (kernel_frames k)) - {f}"
    using p(2,3) f by blast
  note set_frames_inv [OF inv s(2,1) this]
  ultimately show thesis using that p(2) by blast
qed

lemma frame_refused:
  assumes "kernel_inv k" and "frame_allocate (Some 0) (kernel_frames k) = (st, fr, fs)" and "st \<noteq> FRAME_STATUS_OK"
  shows "set_frames fs k = k"
proof -
  have fi: "frame_inv (kernel_frames k)" "allocator_initialized (kernel_frames k)"
    using kernel_pool(1) [OF assms(1)] by (simp_all add: frame_pool_inv_def)
  have "fs = kernel_frames k"
    using frame_allocate_cases [OF fi, of 0] assms(2,3) by (cases "free_set (kernel_frames k) = {}") auto
  then show ?thesis by (simp add: set_frames_same)
qed

subsection \<open>Pages of the window\<close>

definition heap_page :: "nat \<Rightarrow> u64" where
  "heap_page i = HEAP_BASE + of_nat i * PAGING_PAGE_SIZE"

definition in_page :: "nat \<Rightarrow> u64 \<Rightarrow> bool" where
  "in_page i a = in_range (heap_page i) PAGING_PAGE_SIZE a"

lemma unat_heap_offset: "i \<le> 4096 \<Longrightarrow> unat (of_nat i * PAGING_PAGE_SIZE) = i * 4096"
  by (simp add: unat_word_ariths unat_of_nat PAGING_PAGE_SIZE_def)

lemma unat_heap_page: "i \<le> 4096 \<Longrightarrow> unat (heap_page i) = 0x400000000 + i * 4096"
  using unat_heap_offset [of i] unfolding heap_page_def by (subst unat_plus_bounded) (simp_all add: HEAP_BASE_def)

lemma in_heap_page_iff: "i < 4096 \<Longrightarrow> in_page i a \<longleftrightarrow> 0x400000000 + i * 4096 \<le> unat a \<and> unat a < 0x400000000 + i * 4096 + 4096"
  using unat_heap_page [of i] by (simp add: in_page_def in_range_def PAGING_PAGE_SIZE_def)

lemma in_page_unique: "i < 4096 \<Longrightarrow> j < 4096 \<Longrightarrow> in_page i a \<Longrightarrow> in_page j a \<Longrightarrow> i = j"
  by (simp add: in_heap_page_iff)

lemma page_in_window: "i < 4096 \<Longrightarrow> in_page i a \<Longrightarrow> in_range HEAP_BASE HEAP_SIZE a"
  by (simp add: in_heap_page_iff in_range_def HEAP_BASE_def HEAP_SIZE_def)

lemma window_page:
  assumes "in_range HEAP_BASE HEAP_SIZE a"
  obtains i where "i < 4096" "in_page i a"
proof -
  let ?i = "(unat a - 0x400000000) div 4096"
  have a: "0x400000000 \<le> unat a" "unat a < 0x400000000 + 4096 * 4096"
    using assms by (simp_all add: in_range_def HEAP_BASE_def HEAP_SIZE_def)
  then have "?i < 4096" by (simp add: div_less_iff_less_mult)
  moreover have "?i * 4096 \<le> unat a - 0x400000000" "unat a - 0x400000000 < ?i * 4096 + 4096"
    using dividend_less_div_times [of 4096 "unat a - 0x400000000"] by simp_all
  then have "in_page ?i a" using a calculation by (simp only: in_heap_page_iff) linarith
  ultimately show thesis by (rule that)
qed

lemma page_self: "i < 4096 \<Longrightarrow> in_page i (heap_page i)"
  by (simp add: in_heap_page_iff unat_heap_page)

lemma heap_page_range:
  assumes "i < 4096"
  shows "validate_virtual_range (heap_page i) PAGING_PAGE_SIZE PAGING_PAGE_SIZE = PAGING_STATUS_OK"
proof -
  have u: "unat (heap_page i) = 0x400000000 + i * 4096" using assms by (simp add: unat_heap_page)
  have m: "PAGING_PAGE_SIZE - 1 = mask 12" by (rule page_size_mask)
  have "unat (heap_page i AND mask 12) = 0" unfolding unat_and_mask u by simp
  then have al: "heap_page i AND mask 12 = 0" by (simp only: unat_eq_0)
  have e: "unat (heap_page i + PAGING_PAGE_SIZE - 1) = unat (heap_page i) + 4095"
  proof -
    have eq: "heap_page i + PAGING_PAGE_SIZE - 1 = heap_page i + 4095" by (simp add: PAGING_PAGE_SIZE_def)
    show ?thesis unfolding eq using u assms by (simp add: unat_plus_bounded)
  qed
  have "address_is_canonical (heap_page i)" "address_is_canonical (heap_page i + PAGING_PAGE_SIZE - 1)"
    using u e assms by (simp_all add: canonical_iff)
  moreover have "\<not> PAGING_PAGE_SIZE > 0xFFFFFFFFFFFFFFFF - heap_page i"
    using u assms by (simp add: word_less_nat_alt unat_sub word_le_nat_alt PAGING_PAGE_SIZE_def)
  moreover have "PAGING_PAGE_SIZE AND mask 12 = 0" "PAGING_PAGE_SIZE \<noteq> 0" by (simp_all add: PAGING_PAGE_SIZE_def mask_eq_exp_minus_1)
  ultimately show ?thesis unfolding validate_virtual_range_def m using al by simp
qed

text \<open>
  What the window holds: the pages \<open>P\<close> names are mapped writable to frames of the kernel's, all different,
  and no other page of the window is mapped.
\<close>

definition backed :: "(nat \<rightharpoonup> u64) \<Rightarrow> paging_kernel \<Rightarrow> bool" where
  "backed P k \<longleftrightarrow> kernel_inv k \<and> dom P \<subseteq> {..<4096} \<and> inj_on P (dom P) \<and> ran P \<subseteq> kernel_owned k
     \<and> (\<forall>i < 4096. \<forall>a. in_page i a \<longrightarrow> kernel_translate k a = (case P i of
          None \<Rightarrow> unmapped | Some f \<Rightarrow> (PAGING_STATUS_OK, mapping (f + (a - heap_page i)) PAGING_WRITE 1)))"

text \<open>A step that leaves everything outside the window alone.\<close>

definition same_outside :: "paging_kernel \<Rightarrow> paging_kernel \<Rightarrow> bool" where
  "same_outside k k' \<longleftrightarrow> pk_cpu k' = pk_cpu k \<and> (pk_state k')\<lparr>st_table_frames := 0\<rparr> = (pk_state k)\<lparr>st_table_frames := 0\<rparr>
     \<and> h_root (pk_live_hierarchy k') = h_root (pk_live_hierarchy k)
     \<and> (\<forall>a. \<not> in_range HEAP_BASE HEAP_SIZE a \<longrightarrow> kernel_translate k' a = kernel_translate k a)"

lemma same_outside_refl: "same_outside k k"
  and same_outside_trans: "same_outside k k1 \<Longrightarrow> same_outside k1 k2 \<Longrightarrow> same_outside k k2"
  by (simp_all add: same_outside_def)

lemma same_outside_frames: "same_outside k (set_frames fs k)"
  by (simp add: same_outside_def)

lemma same_kernel_outside:
  assumes "same_kernel k k'" and "\<And>a. \<not> in_range HEAP_BASE HEAP_SIZE a \<Longrightarrow> kernel_translate k' a = kernel_translate k a"
  shows "same_outside k k'"
  using assms by (simp add: same_outside_def same_kernel_def same_hierarchy_def)

lemma page_mapped:
  assumes b: "backed P k" and i: "i < 4096" "P i = None" and f: "f \<in> kernel_owned k" "f \<notin> ran P"
    and m: "paging_map (heap_page i) f PAGING_PAGE_SIZE PAGING_WRITE k = (PAGING_STATUS_OK, k')"
  shows "backed (P(i \<mapsto> f)) k'" and "kernel_owned k' = kernel_owned k" and "same_outside k k'"
proof -
  note bd = b [unfolded backed_def]
  from bd have inv: "kernel_inv k" by blast
  note s = paging_map_spec [OF inv m]
  have t: "kernel_translate k' a = (if in_page i a then (PAGING_STATUS_OK, mapping (f + (a - heap_page i)) PAGING_WRITE 1)
      else kernel_translate k a)" for a using s(3) [of a] by (simp add: in_page_def)
  show o: "kernel_owned k' = kernel_owned k" using s(2) by (simp add: same_kernel_def)
  show "same_outside k k'" using s(2) t page_in_window [OF i(1)] by (intro same_kernel_outside) auto
  have "inj_on (P(i \<mapsto> f)) (dom (P(i \<mapsto> f)))"
    using bd f(2) by (auto simp: inj_on_def ran_def)
  moreover have "ran (P(i \<mapsto> f)) \<subseteq> kernel_owned k'" using bd f(1) i(2) by (simp add: o)
  moreover have "\<forall>j < 4096. \<forall>a. in_page j a \<longrightarrow> kernel_translate k' a = (case (P(i \<mapsto> f)) j of
      None \<Rightarrow> unmapped | Some f \<Rightarrow> (PAGING_STATUS_OK, mapping (f + (a - heap_page j)) PAGING_WRITE 1))"
  proof (intro allI impI)
    fix j a assume j: "j < 4096" "in_page j a"
    show "kernel_translate k' a = (case (P(i \<mapsto> f)) j of
      None \<Rightarrow> unmapped | Some f \<Rightarrow> (PAGING_STATUS_OK, mapping (f + (a - heap_page j)) PAGING_WRITE 1))"
    proof (cases "j = i")
      case True
      then show ?thesis using t j by simp
    next
      case False
      then have "\<not> in_page i a" using in_page_unique i(1) j by blast
      then show ?thesis using False t bd j by simp
    qed
  qed
  ultimately show "backed (P(i \<mapsto> f)) k'" using bd s(1) i(1) unfolding backed_def by auto
qed

lemma page_refused:
  assumes b: "backed P k" and m: "paging_map va f len p k = (st, k')" and "st \<noteq> PAGING_STATUS_OK"
  shows "backed P k'" and "kernel_owned k' = kernel_owned k" and "same_outside k k'" and "kernel_translate k' a = kernel_translate k a"
proof -
  from b have inv: "kernel_inv k" by (simp add: backed_def)
  note s = paging_map_spec [OF inv m]
  have t: "kernel_translate k' a = kernel_translate k a" for a using s(3) [of a] assms(3) by simp
  then show "kernel_translate k' a = kernel_translate k a" by blast
  show o: "kernel_owned k' = kernel_owned k" using s(2) by (simp add: same_kernel_def)
  show "same_outside k k'" using s(2) t by (intro same_kernel_outside)
  show "backed P k'" using b s(1) unfolding backed_def o t by blast
qed

lemma backed_translate:
  assumes "backed P k" and "i < 4096" and "in_page i a"
  shows "kernel_translate k a = (case P i of
      None \<Rightarrow> unmapped | Some f \<Rightarrow> (PAGING_STATUS_OK, mapping (f + (a - heap_page i)) PAGING_WRITE 1))"
  using assms unfolding backed_def by blast

lemma backed_frames:
  assumes "backed P k" and "kernel_inv (set_frames fs k)" and "ran P \<subseteq> kernel_owned (set_frames fs k)"
  shows "backed P (set_frames fs k)"
  using assms unfolding backed_def set_frames_simps set_frames_translate by blast

lemma paging_translate_kernel: "kernel_inv k \<Longrightarrow> paging_translate a (Some x) k
    = (fst (kernel_translate k a), Some (snd (kernel_translate k a)))"
  by (auto simp: paging_translate_def kernel_inv_def split: prod.split)

lemma page_unmapped:
  assumes b: "backed P k" and i: "i < 4096" "P i = Some f"
  obtains k' where "paging_unmap (heap_page i) PAGING_PAGE_SIZE k = (PAGING_STATUS_OK, k')"
    "backed (P(i := None)) k'" "kernel_owned k' = kernel_owned k" "same_outside k k'"
proof -
  note bd = b [unfolded backed_def]
  from bd have inv: "kernel_inv k" by blast
  obtain st k' where u: "paging_unmap (heap_page i) PAGING_PAGE_SIZE k = (st, k')" by fastforce
  have len: "unat PAGING_PAGE_SIZE \<le> 2 ^ 63" by (simp add: PAGING_PAGE_SIZE_def)
  note s = paging_unmap_spec [OF inv len u]
  have "\<forall>a. in_range (heap_page i) PAGING_PAGE_SIZE a \<longrightarrow> (\<exists>tr. kernel_translate k a = (PAGING_STATUS_OK, tr) \<and> tr_level tr = 1)"
    using backed_translate [OF b i(1)] i(2) by (auto simp: in_page_def mapping_def)
  then have st: "st = PAGING_STATUS_OK" using s(4) heap_page_range [OF i(1)] by blast
  have t: "kernel_translate k' a = (if in_page i a then unmapped else kernel_translate k a)" for a
    using s(3) [of a] st by (simp add: in_page_def)
  have o: "kernel_owned k' = kernel_owned k" using s(2) by (simp add: same_kernel_def)
  have out: "same_outside k k'" using s(2) t page_in_window [OF i(1)] by (intro same_kernel_outside) auto
  have "kernel_translate k' a = (case (P(i := None)) j of
      None \<Rightarrow> unmapped | Some f \<Rightarrow> (PAGING_STATUS_OK, mapping (f + (a - heap_page j)) PAGING_WRITE 1))"
    if j: "j < 4096" "in_page j a" for j a
  proof (cases "j = i")
    case True
    then show ?thesis using t j by simp
  next
    case False
    then have "\<not> in_page i a" using in_page_unique i(1) j by blast
    then show ?thesis using False t backed_translate [OF b j] by simp
  qed
  moreover have "inj_on (P(i := None)) (dom (P(i := None)))" using bd by (auto simp: inj_on_def)
  moreover have "ran (P(i := None)) \<subseteq> ran P" by (auto simp: ran_def)
  ultimately have "backed (P(i := None)) k'" using bd s(1) unfolding backed_def o by auto
  then show thesis using that u o out unfolding st by blast
qed

lemma page_offsets_pages:
  assumes "n0 \<le> n1" and "n1 \<le> 4096"
  shows "page_offsets (of_nat n0 * PAGING_PAGE_SIZE) (of_nat n1 * PAGING_PAGE_SIZE)
     = map (\<lambda>i. of_nat i * PAGING_PAGE_SIZE) [n0..<n1]"
proof (cases "n0 = n1")
  case False
  let ?d = "n1 - n0"
  have d: "?d \<le> 4096" "n1 = ?d + n0" using assms by simp_all
  have "of_nat n1 * PAGING_PAGE_SIZE - of_nat n0 * PAGING_PAGE_SIZE = of_nat ?d * PAGING_PAGE_SIZE"
    using assms(1) by (simp add: of_nat_diff left_diff_distrib)
  moreover have "unat (of_nat ?d * PAGING_PAGE_SIZE) = ?d * 4096" using d(1) by (rule unat_heap_offset)
  moreover have "(?d * 4096 + 4095) div 4096 = ?d" by simp
  ultimately have "range_offsets (of_nat n1 * PAGING_PAGE_SIZE - of_nat n0 * PAGING_PAGE_SIZE) PAGING_PAGE_SIZE
      = map (\<lambda>i. of_nat i * PAGING_PAGE_SIZE) [0..<?d]"
    unfolding range_offsets_def by (simp add: PAGING_PAGE_SIZE_def)
  moreover have "of_nat n0 * PAGING_PAGE_SIZE < of_nat n1 * PAGING_PAGE_SIZE"
    using assms False unat_heap_offset [of n0] unat_heap_offset [of n1] by (simp add: word_less_nat_alt)
  moreover have "map (\<lambda>i. of_nat i * PAGING_PAGE_SIZE) [n0..<n1] = map (\<lambda>i. of_nat (i + n0) * PAGING_PAGE_SIZE) [0..<?d]"
    by (rule nth_equalityI) (simp_all add: add.commute)
  ultimately show ?thesis by (simp add: page_offsets_def distrib_right add.commute)
qed (simp add: page_offsets_def)

text \<open>A step after which every empty table was an empty table before.\<close>

definition tidy :: "paging_kernel \<Rightarrow> paging_kernel \<Rightarrow> bool" where
  "tidy k k' \<longleftrightarrow> (\<forall>E. packed_over E (pw_tables (pk_world k)) (h_root (pk_live_hierarchy k))
     \<longrightarrow> packed_over E (pw_tables (pk_world k')) (h_root (pk_live_hierarchy k')))"

lemma tidy_refl: "tidy k k"
  and tidy_trans: "tidy k k1 \<Longrightarrow> tidy k1 k2 \<Longrightarrow> tidy k k2"
  by (simp_all add: tidy_def)

lemma tidy_frames: "tidy k (set_frames fs k)"
  by (simp add: tidy_def)

lemma paging_map_tidy:
  assumes inv: "kernel_inv k" and call: "paging_map va pa len p k = (PAGING_STATUS_OK, k')"
  shows "tidy k k'"
proof -
  obtain st h w where m: "map_range (pk_live_hierarchy k) va pa len p 1 (pk_world k) = (st, h, w)"
    by (cases "map_range (pk_live_hierarchy k) va pa len p 1 (pk_world k)")
  have st: "st = PAGING_STATUS_OK" and k': "pk_world k' = w" "pk_live_hierarchy k' = h"
    using call inv m by (auto simp: paging_map_def kernel_inv_def Let_def supervisor_intent_add_def
        split: if_split_asm prod.split_asm)
  have "packed_over E (pw_tables w) (h_root h)"
    if "packed_over E (pw_tables (pk_world k)) (h_root (pk_live_hierarchy k))" for E
    by (rule map_range_packed [OF _ _ _ that m [unfolded st]]) (use inv in \<open>simp_all add: kernel_inv_def\<close>)
  then show ?thesis by (simp add: tidy_def k')
qed

lemma paging_unmap_tidy:
  assumes inv: "kernel_inv k" and len: "unat len \<le> 2 ^ 63" and call: "paging_unmap va len k = (st, k')"
  shows "tidy k k'"
proof -
  obtain s h w where m: "unmap_range (pk_live_hierarchy k) va len (pk_world k) = (s, h, w)"
    by (cases "unmap_range (pk_live_hierarchy k) va len (pk_world k)")
  have k': "pk_world k' = w" "pk_live_hierarchy k' = h"
    using call inv m by (auto simp: paging_unmap_def kernel_inv_def Let_def split: option.split_asm if_split_asm)
  have "packed_over E (pw_tables w) (h_root h)"
    if "packed_over E (pw_tables (pk_world k)) (h_root (pk_live_hierarchy k))" for E
    by (rule unmap_range_packed [OF _ len m that]) (use inv in \<open>simp add: kernel_inv_def\<close>)
  then show ?thesis by (simp add: tidy_def k')
qed

lemma release_page_tidy:
  assumes "kernel_inv (hp_kernel hp)"
  shows "tidy (hp_kernel hp) (hp_kernel (release_page offset hp))"
proof -
  obtain st k' where u: "paging_unmap (HEAP_BASE + offset) PAGING_PAGE_SIZE (hp_kernel hp) = (st, k')" by fastforce
  have "tidy (hp_kernel hp) k'" by (rule paging_unmap_tidy [OF assms _ u]) (simp add: PAGING_PAGE_SIZE_def)
  then show ?thesis
    using u tidy_trans [OF _ tidy_frames] by (auto simp: release_page_def Let_def tidy_refl split: prod.split)
qed

abbreviation add_mapped :: "u64 \<Rightarrow> heap \<Rightarrow> heap_state" where
  "add_mapped n hp \<equiv> (hp_state hp)\<lparr>hs_mapped_pages := hs_mapped_pages (hp_state hp) + n\<rparr>"

lemma release_page_spec:
  assumes b: "backed P (hp_kernel hp)" and i: "i < 4096" "P i = Some f"
  defines "hp' \<equiv> release_page (of_nat i * PAGING_PAGE_SIZE) hp"
  shows "backed (P(i := None)) (hp_kernel hp')" and "kernel_owned (hp_kernel hp') = kernel_owned (hp_kernel hp) - {f}"
    and "same_outside (hp_kernel hp) (hp_kernel hp')" and "hp_blocks hp' = hp_blocks hp" and "hp_state hp' = add_mapped (- 1) hp"
proof -
  let ?k = "hp_kernel hp"
  from b have inv: "kernel_inv ?k" and inj: "inj_on P (dom P)" and own: "ran P \<subseteq> kernel_owned ?k" by (simp_all add: backed_def)
  obtain k' where u: "paging_unmap (heap_page i) PAGING_PAGE_SIZE ?k = (PAGING_STATUS_OK, k')"
    and k': "backed (P(i := None)) k'" "kernel_owned k' = kernel_owned ?k" "same_outside ?k k'"
    by (rule page_unmapped [OF b i])
  have "kernel_translate ?k (heap_page i) = (PAGING_STATUS_OK, mapping f PAGING_WRITE 1)"
    using backed_translate [OF b i(1) page_self [OF i(1)]] i(2) by simp
  then have t: "paging_translate (heap_page i) (Some no_translation) ?k = (PAGING_STATUS_OK, Some (mapping f PAGING_WRITE 1))"
    using paging_translate_kernel [OF inv] by simp
  have "f \<in> kernel_owned k'" using own i(2) k'(2) by (auto simp: ran_def)
  moreover have inv': "kernel_inv k'" using k'(1) by (simp add: backed_def)
  ultimately obtain fs where g: "frame_release f (kernel_frames k') = (FRAME_STATUS_OK, fs)" "kernel_inv (set_frames fs k')"
    "kernel_owned (set_frames fs k') = kernel_owned k' - {f}" using kernel_give by blast
  have hp': "hp' = hp\<lparr>hp_kernel := set_frames fs k', hp_state := add_mapped (- 1) hp\<rparr>"
    unfolding hp'_def release_page_def Let_def heap_page_def [symmetric] t u using g(1) by (simp add: mapping_def)
  have "f \<notin> ran (P(i := None))"
  proof
    assume "f \<in> ran (P(i := None))"
    then obtain j where "j \<noteq> i" "P j = Some f" by (auto simp: ran_def split: if_split_asm)
    then show False using inj_onD [OF inj, of j i] i(2) by auto
  qed
  then have "ran (P(i := None)) \<subseteq> kernel_owned (set_frames fs k')" using k'(1) g(3) by (auto simp: backed_def)
  from backed_frames [OF k'(1) g(2) this] show "backed (P(i := None)) (hp_kernel hp')" by (simp add: hp')
  show "kernel_owned (hp_kernel hp') = kernel_owned ?k - {f}" using g(3) k'(2) by (simp add: hp')
  show "same_outside ?k (hp_kernel hp')" using same_outside_trans [OF k'(3) same_outside_frames] by (simp add: hp')
  show "hp_blocks hp' = hp_blocks hp" "hp_state hp' = add_mapped (- 1) hp" by (simp_all add: hp')
qed

lemma release_fold:
  assumes "backed P (hp_kernel hp)" and "n1 \<le> 4096" and "\<forall>i \<in> {n0..<n1}. P i \<noteq> None"
  defines "hp' \<equiv> fold release_page (map (\<lambda>i. of_nat i * PAGING_PAGE_SIZE) [n0..<n1]) hp"
  shows "backed (\<lambda>i. if n0 \<le> i \<and> i < n1 then None else P i) (hp_kernel hp')
     \<and> kernel_owned (hp_kernel hp') = kernel_owned (hp_kernel hp) - (\<lambda>i. the (P i)) ` {n0..<n1}
     \<and> same_outside (hp_kernel hp) (hp_kernel hp') \<and> hp_blocks hp' = hp_blocks hp
     \<and> hp_state hp' = add_mapped (- of_nat (n1 - n0)) hp"
  using assms(1,3) unfolding hp'_def
proof (induction "n1 - n0" arbitrary: n0 P hp)
  case 0
  then have e: "[n0..<n1] = []" "(\<lambda>i. if n0 \<le> i \<and> i < n1 then None else P i) = P" "{n0..<n1} = {}" by (auto simp: fun_eq_iff)
  show ?case using 0 by (simp add: e same_outside_refl)
next
  case (Suc d)
  then have n: "n0 < n1" "[n0..<n1] = n0 # [Suc n0..<n1]" "d = n1 - Suc n0" "n0 < 4096" using assms(2) by (auto simp: upt_conv_Cons)
  then obtain f where f: "P n0 = Some f" using Suc.prems(2) by fastforce
  note r = release_page_spec [OF Suc.prems(1) n(4) f]
  let ?hp = "release_page (of_nat n0 * PAGING_PAGE_SIZE) hp"
  have "\<forall>i \<in> {Suc n0..<n1}. (P(n0 := None)) i \<noteq> None" using Suc.prems(2) by auto
  note ih = Suc.hyps(1) [OF n(3) r(1) this]
  have P: "(\<lambda>i. if Suc n0 \<le> i \<and> i < n1 then None else (P(n0 := None)) i) = (\<lambda>i. if n0 \<le> i \<and> i < n1 then None else P i)"
    using n(1) by (auto simp: fun_eq_iff)
  have S: "{n0..<n1} = insert n0 {Suc n0..<n1}" using n(1) by auto
  have "(\<lambda>i. the ((P(n0 := None)) i)) ` {Suc n0..<n1} = (\<lambda>i. the (P i)) ` {Suc n0..<n1}" by (intro image_cong) auto
  then have own: "kernel_owned (hp_kernel ?hp) - (\<lambda>i. the ((P(n0 := None)) i)) ` {Suc n0..<n1}
      = kernel_owned (hp_kernel hp) - (\<lambda>i. the (P i)) ` {n0..<n1}"
    unfolding S r(2) using f by auto
  have "n1 - n0 = Suc (n1 - Suc n0)" using n(1) by simp
  then have "of_nat (n1 - n0) = (1 + of_nat (n1 - Suc n0) :: u64)" by (simp only: of_nat_Suc)
  then have "add_mapped (- of_nat (n1 - Suc n0)) ?hp = add_mapped (- of_nat (n1 - n0)) hp" using r(5) by simp
  moreover have "same_outside (hp_kernel ?hp) k \<Longrightarrow> same_outside (hp_kernel hp) k" for k
    by (rule same_outside_trans [OF r(3)])
  ultimately show ?case using ih r(4) unfolding n(2) P own by simp
qed

lemma release_pages_spec:
  assumes "backed P (hp_kernel hp)" and "n0 \<le> n1" "n1 \<le> 4096" and "\<forall>i \<in> {n0..<n1}. P i \<noteq> None"
  defines "hp' \<equiv> release_pages (of_nat n0 * PAGING_PAGE_SIZE) (of_nat n1 * PAGING_PAGE_SIZE) hp"
  shows "backed (\<lambda>i. if n0 \<le> i \<and> i < n1 then None else P i) (hp_kernel hp')"
    and "kernel_owned (hp_kernel hp') = kernel_owned (hp_kernel hp) - (\<lambda>i. the (P i)) ` {n0..<n1}"
    and "same_outside (hp_kernel hp) (hp_kernel hp')" and "hp_blocks hp' = hp_blocks hp"
    and "hp_state hp' = add_mapped (- of_nat (n1 - n0)) hp"
  using release_fold [OF assms(1,3,4)] unfolding hp'_def release_pages_def page_offsets_pages [OF assms(2,3)] by blast+

lemma release_pages_tidy:
  assumes "backed P (hp_kernel hp)" and "n0 \<le> n1" "n1 \<le> 4096" and "\<forall>i \<in> {n0..<n1}. P i \<noteq> None"
  shows "tidy (hp_kernel hp) (hp_kernel (release_pages (of_nat n0 * PAGING_PAGE_SIZE) (of_nat n1 * PAGING_PAGE_SIZE) hp))"
  using assms(1,2,4) unfolding release_pages_def page_offsets_pages [OF assms(2,3)]
proof (induction "n1 - n0" arbitrary: n0 P hp)
  case 0
  then show ?case by (simp add: tidy_refl)
next
  case (Suc d)
  then have n: "n0 < n1" "[n0..<n1] = n0 # [Suc n0..<n1]" "d = n1 - Suc n0" "n0 < 4096" using assms(3) by (auto simp: upt_conv_Cons)
  then obtain f where f: "P n0 = Some f" using Suc.prems(3) by fastforce
  let ?hp = "release_page (of_nat n0 * PAGING_PAGE_SIZE) hp"
  have "backed (P(n0 := None)) (hp_kernel ?hp)" by (rule release_page_spec(1) [OF Suc.prems(1) n(4) f])
  moreover have "tidy (hp_kernel hp) (hp_kernel ?hp)"
    using Suc.prems(1) by (intro release_page_tidy) (simp add: backed_def)
  moreover have "\<forall>i \<in> {Suc n0..<n1}. (P(n0 := None)) i \<noteq> None" using Suc.prems(3) by auto
  ultimately show ?case using Suc.hyps(1) [OF n(3), of "P(n0 := None)" ?hp] n(1) tidy_trans unfolding n(2) by auto
qed

text \<open>
  The growth of the window, from page \<open>n0\<close>, with the pages up to \<open>n\<close> mapped: all of the pages up to
  \<open>n1\<close>, or none from \<open>n0\<close> on.
\<close>

definition grown :: "nat \<Rightarrow> nat \<Rightarrow> (nat \<rightharpoonup> u64) \<Rightarrow> heap \<Rightarrow> heap \<Rightarrow> bool" where
  "grown n n1 P hp hp' \<longleftrightarrow> (\<exists>P'. backed P' (hp_kernel hp') \<and> (\<forall>i < n. P' i = P i) \<and> (\<forall>i \<in> {n..<n1}. P' i \<noteq> None)
     \<and> (\<forall>i \<ge> n1. P' i = None) \<and> kernel_owned (hp_kernel hp') = kernel_owned (hp_kernel hp) \<union> (\<lambda>i. the (P' i)) ` {n..<n1})
     \<and> same_outside (hp_kernel hp) (hp_kernel hp') \<and> hp_blocks hp' = hp_blocks hp
     \<and> hp_state hp' = add_mapped (of_nat (n1 - n)) hp"

definition undone :: "nat \<Rightarrow> nat \<Rightarrow> (nat \<rightharpoonup> u64) \<Rightarrow> heap \<Rightarrow> heap \<Rightarrow> bool" where
  "undone n0 n P hp hp' \<longleftrightarrow> backed (\<lambda>i. if n0 \<le> i then None else P i) (hp_kernel hp')
     \<and> kernel_owned (hp_kernel hp') = kernel_owned (hp_kernel hp) - (\<lambda>i. the (P i)) ` {n0..<n}
     \<and> same_outside (hp_kernel hp) (hp_kernel hp') \<and> hp_blocks hp' = hp_blocks hp
     \<and> hp_state hp' = add_mapped (- of_nat (n - n0)) hp"

lemma undone_release:
  assumes "backed P (hp_kernel hp1)" and "n0 \<le> n" "n \<le> 4096" and "\<forall>i \<in> {n0..<n}. P i \<noteq> None" "\<forall>i \<ge> n. P i = None"
    and "kernel_owned (hp_kernel hp1) = kernel_owned (hp_kernel hp)" and "same_outside (hp_kernel hp) (hp_kernel hp1)"
    and "hp_blocks hp1 = hp_blocks hp" and "hp_state hp1 = hp_state hp"
  shows "undone n0 n P hp (release_pages (of_nat n0 * PAGING_PAGE_SIZE) (of_nat n * PAGING_PAGE_SIZE) hp1)"
proof -
  note r = release_pages_spec [OF assms(1-4)]
  have "(\<lambda>i. if n0 \<le> i \<and> i < n then None else P i) = (\<lambda>i. if n0 \<le> i then None else P i)"
    using assms(5) by (auto simp: fun_eq_iff)
  then show ?thesis using r assms(6,8,9) same_outside_trans [OF assms(7) r(3)] by (simp add: undone_def)
qed

text \<open>One page: either the frame or the mapping is refused and everything is put back, or the page is there.\<close>

lemma commit_step:
  assumes b: "backed P (hp_kernel hp)" and n: "n0 \<le> n" "n < 4096" and P: "\<forall>i \<in> {n0..<n}. P i \<noteq> None" "\<forall>i \<ge> n. P i = None"
  obtains (refused) st hp' where "st = HEAP_STATUS_OUT_OF_MEMORY \<or> st = HEAP_STATUS_MAPPING_FAILURE"
      "\<And>offsets. commit_loop (of_nat n0 * PAGING_PAGE_SIZE) (of_nat n * PAGING_PAGE_SIZE # offsets) hp = (st, hp')" "undone n0 n P hp hp'"
      "st = HEAP_STATUS_OUT_OF_MEMORY \<longrightarrow> tidy (hp_kernel hp) (hp_kernel hp')"
  | (mapped) f hp' where
      "\<And>offsets. commit_loop (of_nat n0 * PAGING_PAGE_SIZE) (of_nat n * PAGING_PAGE_SIZE # offsets) hp
         = commit_loop (of_nat n0 * PAGING_PAGE_SIZE) offsets hp'"
      "backed (P(n \<mapsto> f)) (hp_kernel hp')" "kernel_owned (hp_kernel hp') = insert f (kernel_owned (hp_kernel hp))"
      "f \<notin> kernel_owned (hp_kernel hp)" "same_outside (hp_kernel hp) (hp_kernel hp')" "hp_blocks hp' = hp_blocks hp" "hp_state hp' = add_mapped 1 hp"
      "tidy (hp_kernel hp) (hp_kernel hp')"
proof -
  let ?k = "hp_kernel hp" and ?from = "of_nat n0 * PAGING_PAGE_SIZE" and ?to = "of_nat n * PAGING_PAGE_SIZE"
  from b have inv: "kernel_inv ?k" and own: "ran P \<subseteq> kernel_owned ?k" by (simp_all add: backed_def)
  have n4: "n \<le> 4096" using n(2) by simp
  obtain st fr fs where a: "frame_allocate (Some 0) (kernel_frames ?k) = (st, fr, fs)" by (cases "frame_allocate (Some 0) (kernel_frames ?k)")
  show thesis
  proof (cases "st = FRAME_STATUS_OK")
    case False
    have k: "set_frames fs ?k = ?k" by (rule frame_refused [OF inv a False])
    have eq: "commit_loop ?from (?to # offsets) hp = (HEAP_STATUS_OUT_OF_MEMORY, release_pages ?from ?to hp)" for offsets
      using a False by (simp add: k)
    have "undone n0 n P hp (release_pages ?from ?to hp)"
      by (rule undone_release [OF b n(1) n4 P]) (simp_all add: same_outside_refl)
    then show thesis using refused [OF _ eq] release_pages_tidy [OF b n(1) n4 P(1)] by blast
  next
    case True
    obtain f where f: "fr = Some f" "kernel_inv (set_frames fs ?k)" "kernel_owned (set_frames fs ?k) = insert f (kernel_owned ?k)"
      "f \<notin> kernel_owned ?k" using kernel_take [OF inv a [unfolded True]] by metis
    let ?k1 = "set_frames fs ?k"
    have b1: "backed P ?k1" using own f(3) by (intro backed_frames [OF b f(2)]) auto
    obtain st2 k2 where m: "paging_map (heap_page n) f PAGING_PAGE_SIZE PAGING_WRITE ?k1 = (st2, k2)" by fastforce
    show thesis
    proof (cases "st2 = PAGING_STATUS_OK")
      case False
      note r = page_refused [OF b1 m False]
      have inv2: "kernel_inv k2" using r(1) by (simp add: backed_def)
      have "f \<in> kernel_owned k2" using r(2) f(3) by simp
      with inv2 obtain fs2 where g: "frame_release f (kernel_frames k2) = (FRAME_STATUS_OK, fs2)" "kernel_inv (set_frames fs2 k2)"
        "kernel_owned (set_frames fs2 k2) = kernel_owned k2 - {f}" using kernel_give by blast
      have own2: "kernel_owned (set_frames fs2 k2) = kernel_owned ?k" using g(3) r(2) f(3,4) by auto
      let ?hp = "hp\<lparr>hp_kernel := set_frames fs2 k2\<rparr>"
      have "commit_loop ?from (?to # offsets) hp = (HEAP_STATUS_MAPPING_FAILURE, release_pages ?from ?to ?hp)" for offsets
        using a True f(1) m g(1) False by (simp add: heap_page_def)
      moreover have "undone n0 n P hp (release_pages ?from ?to ?hp)"
      proof (rule undone_release [OF _ n(1) n4 P])
        show "backed P (hp_kernel ?hp)" using own own2 backed_frames [OF r(1) g(2)] by simp
        show "kernel_owned (hp_kernel ?hp) = kernel_owned ?k" using own2 by simp
        show "same_outside ?k (hp_kernel ?hp)"
          using same_outside_trans [OF same_outside_trans [OF same_outside_frames r(3)] same_outside_frames] by simp
      qed simp_all
      ultimately show thesis using refused [of HEAP_STATUS_MAPPING_FAILURE] by blast
    next
      case ok: True
      have fr: "f \<in> kernel_owned ?k1" "f \<notin> ran P" using f(3,4) own by auto
      have "P n = None" using P(2) by simp
      note r = page_mapped [OF b1 n(2) this fr m [unfolded ok]]
      let ?hp = "hp\<lparr>hp_kernel := k2, hp_state := add_mapped 1 hp\<rparr>"
      have "commit_loop ?from (?to # offsets) hp = commit_loop ?from offsets ?hp" for offsets
        using a True f(1) m ok by (simp add: heap_page_def)
      moreover have "same_outside ?k (hp_kernel ?hp)" using same_outside_trans [OF same_outside_frames r(3)] by simp
      moreover have "tidy ?k (hp_kernel ?hp)" using tidy_trans [OF tidy_frames paging_map_tidy [OF f(2) m [unfolded ok]]] by simp
      ultimately show thesis using mapped [of ?hp f] r(1,2) f(3,4) by simp
    qed
  qed
qed

lemma commit_loop_spec:
  assumes "backed P (hp_kernel hp)" and "n0 \<le> n" "n \<le> n1" "n1 \<le> 4096"
    and "\<forall>i \<in> {n0..<n}. P i \<noteq> None" "\<forall>i \<ge> n. P i = None"
    and "commit_loop (of_nat n0 * PAGING_PAGE_SIZE) (map (\<lambda>i. of_nat i * PAGING_PAGE_SIZE) [n..<n1]) hp = (st, hp')"
  shows "st = HEAP_STATUS_OK \<and> grown n n1 P hp hp'
     \<or> (st = HEAP_STATUS_OUT_OF_MEMORY \<or> st = HEAP_STATUS_MAPPING_FAILURE) \<and> undone n0 n P hp hp'"
  using assms
proof (induction "n1 - n" arbitrary: n P hp)
  case 0
  then have "n1 = n" "st = HEAP_STATUS_OK" "hp' = hp" by auto
  moreover have "grown n n P hp hp"
    unfolding grown_def using 0(2,7) by (intro conjI exI [of _ P]) (simp_all add: same_outside_refl)
  ultimately show ?case by blast
next
  case (Suc d)
  then have n: "n < n1" "d = n1 - Suc n" "n < 4096" "[n..<n1] = n # [Suc n..<n1]" by (auto simp: upt_conv_Cons)
  from Suc.prems(1,2) n(3) Suc.prems(5,6) show ?case
  proof (cases rule: commit_step)
    case (refused st1 hp1)
    then show ?thesis using Suc.prems(7) unfolding n(4) by auto
  next
    case (mapped f hp1)
    have c: "commit_loop (of_nat n0 * PAGING_PAGE_SIZE) (map (\<lambda>i. of_nat i * PAGING_PAGE_SIZE) [Suc n..<n1]) hp1 = (st, hp')"
      using Suc.prems(7) mapped(1) unfolding n(4) by simp
    have pre: "n0 \<le> Suc n" "Suc n \<le> n1" "\<forall>i \<in> {n0..<Suc n}. (P(n \<mapsto> f)) i \<noteq> None" "\<forall>i \<ge> Suc n. (P(n \<mapsto> f)) i = None"
      using Suc.prems(2,5,6) n(1) by (auto simp: less_Suc_eq)
    have s: "add_mapped (of_nat (n1 - Suc n)) hp1 = add_mapped (of_nat (n1 - n)) hp"
    proof -
      have "n1 - n = Suc (n1 - Suc n)" using n(1) by simp
      then have "of_nat (n1 - n) = (1 + of_nat (n1 - Suc n) :: u64)" by (simp only: of_nat_Suc)
      then show ?thesis using mapped(7) by simp
    qed
    have s': "add_mapped (- of_nat (Suc n - n0)) hp1 = add_mapped (- of_nat (n - n0)) hp"
      using mapped(7) Suc.prems(2) by (simp add: Suc_diff_le)
    from Suc.hyps(1) [OF n(2) mapped(2) pre(1,2) Suc.prems(4) pre(3,4) c] show ?thesis
    proof (elim disjE conjE)
      assume ok: "st = HEAP_STATUS_OK" and g: "grown (Suc n) n1 (P(n \<mapsto> f)) hp1 hp'"
      from g obtain P' where P': "backed P' (hp_kernel hp')" "\<forall>i < Suc n. P' i = (P(n \<mapsto> f)) i" "\<forall>i \<in> {Suc n..<n1}. P' i \<noteq> None"
        "\<forall>i \<ge> n1. P' i = None" "kernel_owned (hp_kernel hp') = kernel_owned (hp_kernel hp1) \<union> (\<lambda>i. the (P' i)) ` {Suc n..<n1}"
        unfolding grown_def by blast
      have Pn: "P' n = Some f" using P'(2) by simp
      have S: "{n..<n1} = insert n {Suc n..<n1}" using n(1) by auto
      have "kernel_owned (hp_kernel hp') = kernel_owned (hp_kernel hp) \<union> (\<lambda>i. the (P' i)) ` {n..<n1}"
        unfolding P'(5) mapped(3) S using Pn by auto
      moreover have "\<forall>i < n. P' i = P i" "\<forall>i \<in> {n..<n1}. P' i \<noteq> None" using P'(2,3) Pn S by auto
      ultimately have "grown n n1 P hp hp'"
        using g P'(1,4) same_outside_trans [OF mapped(5)] mapped(6) unfolding grown_def s by auto
      then show ?thesis using ok by blast
    next
      assume u: "undone n0 (Suc n) (P(n \<mapsto> f)) hp1 hp'"
      have P: "(\<lambda>i. if n0 \<le> i then None else (P(n \<mapsto> f)) i) = (\<lambda>i. if n0 \<le> i then None else P i)"
        using Suc.prems(2) by (auto simp: fun_eq_iff)
      have S: "{n0..<Suc n} = insert n {n0..<n}" using Suc.prems(2) by auto
      have "(\<lambda>i. the ((P(n \<mapsto> f)) i)) ` {n0..<n} = (\<lambda>i. the (P i)) ` {n0..<n}" by (intro image_cong) auto
      then have "kernel_owned (hp_kernel hp1) - (\<lambda>i. the ((P(n \<mapsto> f)) i)) ` {n0..<Suc n}
          = kernel_owned (hp_kernel hp) - (\<lambda>i. the (P i)) ` {n0..<n}"
        unfolding S mapped(3) using mapped(4) by auto
      then have "undone n0 n P hp hp'"
        using u same_outside_trans [OF mapped(5)] mapped(6) unfolding undone_def P s' by auto
      then show "st = HEAP_STATUS_OUT_OF_MEMORY \<Longrightarrow> ?thesis" "st = HEAP_STATUS_MAPPING_FAILURE \<Longrightarrow> ?thesis" by blast+
    qed
  qed
qed

lemma commit_loop_tidy:
  assumes "backed P (hp_kernel hp)" and "n0 \<le> n" "n \<le> n1" "n1 \<le> 4096"
    and "\<forall>i \<in> {n0..<n}. P i \<noteq> None" "\<forall>i \<ge> n. P i = None"
    and "commit_loop (of_nat n0 * PAGING_PAGE_SIZE) (map (\<lambda>i. of_nat i * PAGING_PAGE_SIZE) [n..<n1]) hp = (HEAP_STATUS_OUT_OF_MEMORY, hp')"
  shows "tidy (hp_kernel hp) (hp_kernel hp')"
  using assms
proof (induction "n1 - n" arbitrary: n P hp)
  case (Suc d)
  then have n: "n < n1" "d = n1 - Suc n" "n < 4096" "[n..<n1] = n # [Suc n..<n1]" by (auto simp: upt_conv_Cons)
  from Suc.prems(1,2) n(3) Suc.prems(5,6) show ?case
  proof (cases rule: commit_step)
    case (refused st1 hp1)
    then show ?thesis using Suc.prems(7) unfolding n(4) by auto
  next
    case (mapped f hp1)
    have "commit_loop (of_nat n0 * PAGING_PAGE_SIZE) (map (\<lambda>i. of_nat i * PAGING_PAGE_SIZE) [Suc n..<n1]) hp1 = (HEAP_STATUS_OUT_OF_MEMORY, hp')"
      using Suc.prems(7) mapped(1) unfolding n(4) by simp
    moreover have "n0 \<le> Suc n" "Suc n \<le> n1" "\<forall>i \<in> {n0..<Suc n}. (P(n \<mapsto> f)) i \<noteq> None" "\<forall>i \<ge> Suc n. (P(n \<mapsto> f)) i = None"
      using Suc.prems(2,5,6) n(1) by (auto simp: less_Suc_eq)
    ultimately show ?thesis using Suc.hyps(1) [OF n(2) mapped(2) _ _ Suc.prems(4)] tidy_trans [OF mapped(8)] by blast
  qed
qed simp

lemma commit_pages_tidy:
  assumes "backed P (hp_kernel hp)" and "n0 \<le> n1" "n1 \<le> 4096" and "\<forall>i \<ge> n0. P i = None"
    and "commit_pages (of_nat n0 * PAGING_PAGE_SIZE) (of_nat n1 * PAGING_PAGE_SIZE) hp = (HEAP_STATUS_OUT_OF_MEMORY, hp')"
  shows "tidy (hp_kernel hp) (hp_kernel hp')"
  using assms(5) unfolding commit_pages_def page_offsets_pages [OF assms(2,3)]
  by (intro commit_loop_tidy [OF assms(1) order_refl assms(2,3) _ assms(4)]) simp_all

lemma commit_pages_spec:
  assumes "backed P (hp_kernel hp)" and "n0 \<le> n1" "n1 \<le> 4096" and "\<forall>i \<ge> n0. P i = None"
    and "commit_pages (of_nat n0 * PAGING_PAGE_SIZE) (of_nat n1 * PAGING_PAGE_SIZE) hp = (st, hp')"
  shows "st = HEAP_STATUS_OK \<and> grown n0 n1 P hp hp'
     \<or> (st = HEAP_STATUS_OUT_OF_MEMORY \<or> st = HEAP_STATUS_MAPPING_FAILURE) \<and> undone n0 n0 P hp hp'"
  using assms(5) unfolding commit_pages_def page_offsets_pages [OF assms(2,3)]
  by (intro commit_loop_spec [OF assms(1) order_refl assms(2,3) _ assms(4)]) simp_all

subsection \<open>The invariant\<close>

text \<open>\<open>n\<close> pages are committed, the blocks tile them, and the guard pages are absent.\<close>

definition heap_at :: "nat \<Rightarrow> (nat \<rightharpoonup> u64) \<Rightarrow> heap \<Rightarrow> bool" where
  "heap_at n P hp \<longleftrightarrow> hs_active (hp_state hp) \<and> n \<le> 4096 \<and> hs_committed_bytes (hp_state hp) = of_nat n * PAGING_PAGE_SIZE
     \<and> hs_mapped_pages (hp_state hp) = of_nat n \<and> backed P (hp_kernel hp) \<and> dom P = {..<n}
     \<and> tiles 0 (hp_blocks hp) (n * 4096) \<and> coalesced (hp_blocks hp) \<and> length (hp_blocks hp) \<le> HEAP_MAX_BLOCKS
     \<and> guards_absent (hp_kernel hp)"

definition heap_inv :: "heap \<Rightarrow> bool" where
  "heap_inv hp \<longleftrightarrow> (\<exists>n P. heap_at n P hp)"

text \<open>The counters agree with the table.\<close>

definition refreshed :: "heap \<Rightarrow> bool" where
  "refreshed hp \<longleftrightarrow> hs_block_count (hp_state hp) = length (hp_blocks hp)
     \<and> hs_allocated_bytes (hp_state hp) = allocated_bytes (hp_blocks hp)
     \<and> hs_live_allocations (hp_state hp) = live_allocations (hp_blocks hp)"

lemma refresh_state_simps [simp]: "hp_blocks (refresh_state hp) = hp_blocks hp" "hp_kernel (refresh_state hp) = hp_kernel hp"
  "refreshed (refresh_state hp)" "heap_at n P (refresh_state hp) = heap_at n P hp"
  by (simp_all add: refresh_state_def refreshed_def heap_at_def)

lemma guards_outside:
  assumes "kernel_inv k" and "kernel_inv k'" and "same_outside k k'"
  shows "guards_absent k' = guards_absent k"
proof -
  have "\<not> in_range HEAP_BASE HEAP_SIZE HEAP_GUARD_BELOW" "\<not> in_range HEAP_BASE HEAP_SIZE HEAP_GUARD_ABOVE"
    by (simp_all add: in_range_def HEAP_BASE_def HEAP_SIZE_def HEAP_GUARD_BELOW_def HEAP_GUARD_ABOVE_def)
  then show ?thesis
    using assms(3) by (simp add: guards_absent_def paging_translate_kernel [OF assms(1)] paging_translate_kernel [OF assms(2)] same_outside_def)
qed

lemma heap_pages_ok:
  assumes "backed P k" and "dom P = {..<n}" and "n \<le> 4096"
  shows "list_all (heap_page_ok k) (page_offsets 0 (of_nat n * PAGING_PAGE_SIZE))"
proof -
  have inv: "kernel_inv k" using assms(1) by (simp add: backed_def)
  have "heap_page_ok k (of_nat i * PAGING_PAGE_SIZE)" if i: "i < n" for i
  proof -
    from i assms(2) obtain f where f: "P i = Some f" by blast
    have "kernel_translate k (heap_page i) = (PAGING_STATUS_OK, mapping f PAGING_WRITE 1)"
      using backed_translate [OF assms(1) _ page_self, of i] i assms(3) f by simp
    then show ?thesis unfolding heap_page_ok_def heap_page_def [symmetric] paging_translate_kernel [OF inv] by (simp add: mapping_def)
  qed
  moreover have "page_offsets 0 (of_nat n * PAGING_PAGE_SIZE) = map (\<lambda>i. of_nat i * PAGING_PAGE_SIZE) [0..<n]"
    using page_offsets_pages [of 0 n] assms(3) by simp
  ultimately show ?thesis by (simp add: list_all_iff)
qed

lemma heap_verify_eq:
  assumes "heap_inv hp"
  shows "heap_verify hp = (if refreshed hp then HEAP_STATUS_OK else HEAP_STATUS_VALIDATION_FAILURE)"
proof -
  obtain n P where h: "heap_at n P hp" using assms by (auto simp: heap_inv_def)
  note i = h [unfolded heap_at_def]
  have u: "unat (of_nat n * PAGING_PAGE_SIZE) = n * 4096" using i unat_heap_offset by blast
  have "\<not> of_nat n * PAGING_PAGE_SIZE > HEAP_SIZE" using i u by (simp add: word_less_nat_alt HEAP_SIZE_def)
  moreover have "of_nat n * PAGING_PAGE_SIZE mod PAGING_PAGE_SIZE = 0"
    using u by (simp add: word_unat_eq_iff unat_mod PAGING_PAGE_SIZE_def)
  moreover have "of_nat n * PAGING_PAGE_SIZE div PAGING_PAGE_SIZE = of_nat n"
    using u i by (simp add: word_unat_eq_iff unat_div PAGING_PAGE_SIZE_def unat_of_nat_small)
  moreover have "validate_table (hp_blocks hp) (of_nat n * PAGING_PAGE_SIZE)"
  proof (cases "hp_blocks hp = []")
    case True
    then have "n = 0" using i by simp
    then show ?thesis using True by (simp add: validate_table_def)
  next
    case False
    have "validate_blocks 0 None (hp_blocks hp) (of_nat n * PAGING_PAGE_SIZE)"
      by (rule validate_blocks_tiles) (use i u in simp_all)
    then show ?thesis using False i by (simp add: validate_table_def)
  qed
  moreover have "list_all (heap_page_ok (hp_kernel hp)) (page_offsets 0 (of_nat n * PAGING_PAGE_SIZE))"
    using i by (blast intro: heap_pages_ok)
  ultimately show ?thesis using i unfolding heap_verify_def refreshed_def Let_def by auto
qed

lemma heap_verify_iff: "heap_inv hp \<Longrightarrow> heap_verify hp = HEAP_STATUS_OK \<longleftrightarrow> refreshed hp"
  by (simp add: heap_verify_eq)

subsection \<open>Growth\<close>

lemma unat_align_up:
  assumes "unat v \<le> 2 ^ 24" and "a - 1 = mask k" "unat a = 2 ^ k" "k \<le> 12"
  shows "unat (align_up v a) = (unat v + (2 ^ k - 1)) div 2 ^ k * 2 ^ k"
proof -
  have k: "(2 :: nat) ^ k \<le> 2 ^ 12" using assms(4) by (intro power_increasing) simp_all
  have a: "unat (a - 1) = 2 ^ k - 1" using assms(3) by (subst unat_sub) (simp_all add: word_le_nat_alt)
  then have "unat v + unat (a - 1) < 2 ^ LENGTH(64)" using assms(1) k by simp
  from unat_plus_bounded [OF this] have "unat (v + a - 1) = unat v + (2 ^ k - 1)" unfolding a by (simp add: add_diff_eq)
  then show ?thesis unfolding align_up_def assms(2) unat_and_not_mask by (simp add: minus_mod_eq_div_mult)
qed

lemma align_up_pages:
  assumes "0 < unat v" "unat v \<le> 2 ^ 24"
  obtains m where "align_up v PAGING_PAGE_SIZE = of_nat m * PAGING_PAGE_SIZE" "0 < m" "m \<le> 4096" "unat v \<le> m * 4096" "m * 4096 < unat v + 4096"
proof -
  let ?m = "(unat v + 4095) div 4096"
  have m: "?m \<le> 4096" using assms(2) by (simp add: div_le_mono [of _ "2 ^ 24 + 4095" 4096, THEN order_trans])
  have "unat (align_up v PAGING_PAGE_SIZE) = ?m * 4096"
    using unat_align_up [OF assms(2) page_size_mask(1)] by (simp add: PAGING_PAGE_SIZE_def)
  then have "align_up v PAGING_PAGE_SIZE = of_nat ?m * PAGING_PAGE_SIZE"
    using unat_heap_offset [OF m] by (simp only: word_unat_eq_iff)
  moreover have "unat v \<le> ?m * 4096" "?m * 4096 < unat v + 4096" "0 < ?m" using assms(1) by linarith+
  ultimately show thesis using that m by blast
qed

lemma tiles_snoc: "tiles e (bs @ [b]) c \<longleftrightarrow> tiles e bs (unat (hb_offset b)) \<and> 0 < unat (hb_size b) \<and> 16 dvd unat (hb_size b)
    \<and> unat (hb_offset b) + unat (hb_size b) = c"
  by (auto simp: tiles_append)

lemma undone_nothing:
  assumes "heap_at n P hp" and "undone n n P hp hp'"
  shows "heap_at n P hp'" and "hp_blocks hp' = hp_blocks hp" "hp_state hp' = hp_state hp"
    and "kernel_owned (hp_kernel hp') = kernel_owned (hp_kernel hp)" and "same_outside (hp_kernel hp) (hp_kernel hp')"
    and "kernel_translate (hp_kernel hp') a = kernel_translate (hp_kernel hp) a"
proof -
  note i = assms(1) [unfolded heap_at_def] and u = assms(2) [unfolded undone_def]
  have "i \<notin> dom P" if "n \<le> i" for i using i that by auto
  then have P: "(\<lambda>i. if n \<le> i then None else P i) = P" by (auto simp: fun_eq_iff domIff)
  have b: "backed P (hp_kernel hp')" "backed P (hp_kernel hp)" using u i unfolding P by blast+
  show s: "hp_blocks hp' = hp_blocks hp" "hp_state hp' = hp_state hp" "same_outside (hp_kernel hp) (hp_kernel hp')"
    "kernel_owned (hp_kernel hp') = kernel_owned (hp_kernel hp)" using u by simp_all
  have "guards_absent (hp_kernel hp')"
    using guards_outside [OF _ _ s(3)] b i by (simp add: backed_def)
  then show "heap_at n P hp'" using i b(1) s unfolding heap_at_def by simp
  show "kernel_translate (hp_kernel hp') a = kernel_translate (hp_kernel hp) a"
  proof (cases "in_range HEAP_BASE HEAP_SIZE a")
    case True
    then obtain j where "j < 4096" "in_page j a" by (rule window_page)
    then show ?thesis using backed_translate [OF b(1)] backed_translate [OF b(2)] by simp
  next
    case False
    then show ?thesis using s(3) by (simp add: same_outside_def)
  qed
qed

text \<open>What a step may do to the frames: some more are the kernel's.\<close>

lemma grown_heap:
  assumes h: "heap_at n P hp" and g: "grown n n1 P hp hp1" and n: "n \<le> n1" "n1 \<le> 4096"
    and t: "tiles 0 bs (n1 * 4096)" "coalesced bs" "length bs \<le> HEAP_MAX_BLOCKS"
  defines "hp' \<equiv> hp1\<lparr>hp_blocks := bs, hp_state := (hp_state hp1)\<lparr>hs_committed_bytes := of_nat n1 * PAGING_PAGE_SIZE\<rparr>\<rparr>"
  shows "heap_inv hp'" and "same_outside (hp_kernel hp) (hp_kernel hp')"
proof -
  note i = h [unfolded heap_at_def]
  from g obtain P' where P': "backed P' (hp_kernel hp1)" "\<forall>i < n. P' i = P i" "\<forall>i \<in> {n..<n1}. P' i \<noteq> None" "\<forall>i \<ge> n1. P' i = None"
    and s: "same_outside (hp_kernel hp) (hp_kernel hp1)" "hp_state hp1 = add_mapped (of_nat (n1 - n)) hp"
    unfolding grown_def by blast
  have "i \<in> dom P' \<longleftrightarrow> i < n1" for i
  proof -
    have "i < n \<Longrightarrow> i \<in> dom P" using i by blast
    then show ?thesis using P'(2-4) n(1) by (cases "i < n"; cases "i < n1") (auto simp: domIff)
  qed
  then have d: "dom P' = {..<n1}" by auto
  have "guards_absent (hp_kernel hp1)" using guards_outside [OF _ _ s(1)] P'(1) i by (simp add: backed_def)
  moreover have "of_nat n + of_nat (n1 - n) = (of_nat n1 :: u64)" using n(1) by (simp flip: of_nat_add)
  ultimately have "heap_at n1 P' hp'" using i P'(1) d n(2) t s(2) unfolding heap_at_def hp'_def by simp
  then show "heap_inv hp'" unfolding heap_inv_def by blast
  show "same_outside (hp_kernel hp) (hp_kernel hp')" using s(1) by (simp add: hp'_def)
qed

text \<open>The table side of growth: the last free block grows, or a free block is added behind a used one.\<close>

lemma extended_table:
  assumes t: "tiles 0 bs (unat c)" and co: "coalesced bs" and g: "0 < unat g" "16 dvd unat g" "unat c + unat g < 2 ^ 64"
    and n: "length bs \<le> HEAP_MAX_BLOCKS"
  defines "ext \<equiv> length bs > 0 \<and> \<not> hb_used (bs ! (length bs - 1))"
  assumes room: "ext \<or> length bs \<noteq> HEAP_MAX_BLOCKS"
  defines "bs' \<equiv> if ext then bs[length bs - 1 := (bs ! (length bs - 1))\<lparr>hb_size := hb_size (bs ! (length bs - 1)) + g\<rparr>]
      else bs @ [\<lparr>hb_offset = c, hb_size = g, hb_used = False\<rparr>]"
  shows "tiles 0 bs' (unat c + unat g)" and "coalesced bs'" and "length bs' \<le> HEAP_MAX_BLOCKS" and "live bs' = live bs"
    and "length bs' - 1 < length bs'" and "\<not> hb_used (bs' ! (length bs' - 1))"
    and "unat (hb_size (bs' ! (length bs' - 1))) = (if ext then unat (hb_size (bs ! (length bs - 1))) else 0) + unat g"
proof -
  have "tiles 0 bs' (unat c + unat g) \<and> coalesced bs' \<and> length bs' \<le> HEAP_MAX_BLOCKS \<and> live bs' = live bs
    \<and> length bs' - 1 < length bs' \<and> \<not> hb_used (bs' ! (length bs' - 1))
    \<and> unat (hb_size (bs' ! (length bs' - 1))) = (if ext then unat (hb_size (bs ! (length bs - 1))) else 0) + unat g"
  proof (cases ext)
    case True
    then obtain xs b where bs: "bs = xs @ [b]" "\<not> hb_used b" unfolding ext_def by (cases bs rule: rev_cases) auto
    then have bs': "bs' = xs @ [b\<lparr>hb_size := hb_size b + g\<rparr>]" using True by (simp add: bs'_def nth_append)
    have b: "unat (hb_offset b) + unat (hb_size b) = unat c" "tiles 0 xs (unat (hb_offset b))" "0 < unat (hb_size b)" "16 dvd unat (hb_size b)"
      using t unfolding bs(1) tiles_snoc by blast+
    have u: "unat (hb_size b + g) = unat (hb_size b) + unat g" using b(1) g(3) by (simp add: unat_plus_bounded)
    show ?thesis
      using b g(2) co n bs(2) True unfolding bs' bs(1) tiles_snoc
      by (auto simp: u successively_append_iff)
  next
    case False
    then have bs': "bs' = bs @ [\<lparr>hb_offset = c, hb_size = g, hb_used = False\<rparr>]" by (simp add: bs'_def)
    have "bs = [] \<or> hb_used (last bs)" using False unfolding ext_def by (cases bs rule: rev_cases) auto
    then have "coalesced bs'" using co unfolding bs' by (auto simp: successively_append_iff)
    moreover have "length bs' \<le> HEAP_MAX_BLOCKS" using n room False unfolding bs' by simp
    ultimately show ?thesis using t g(1,2) False unfolding bs' tiles_snoc by simp
  qed
  then show "tiles 0 bs' (unat c + unat g)" "coalesced bs'" "length bs' \<le> HEAP_MAX_BLOCKS" "live bs' = live bs"
    "length bs' - 1 < length bs'" "\<not> hb_used (bs' ! (length bs' - 1))"
    "unat (hb_size (bs' ! (length bs' - 1))) = (if ext then unat (hb_size (bs ! (length bs - 1))) else 0) + unat g" by blast+
qed

text \<open>The size of the growth: a positive number of pages that makes up for what the last block lacks.\<close>

lemma growth_pages:
  assumes len: "0 < unat len" "unat len \<le> 2 ^ 24" and fit: "find_fit bs len = None"
  defines "trailing \<equiv> (if length bs > 0 \<and> \<not> hb_used (bs ! (length bs - 1)) then hb_size (bs ! (length bs - 1)) else 0)"
  obtains m where "align_up (len - trailing) PAGING_PAGE_SIZE = of_nat m * PAGING_PAGE_SIZE" "0 < m" "m \<le> 4096"
    "unat len \<le> unat trailing + m * 4096"
proof -
  have "trailing < len"
  proof (cases "length bs > 0 \<and> \<not> hb_used (bs ! (length bs - 1))")
    case True
    then have "bs ! (length bs - 1) \<in> set bs" by simp
    then show ?thesis using fit True by (simp add: find_fit_None trailing_def)
  next
    case False
    then have "trailing = 0" unfolding trailing_def by (simp only: if_False)
    then show ?thesis using len(1) by (simp add: word_less_nat_alt)
  qed
  then have v: "unat (len - trailing) = unat len - unat trailing" "unat trailing < unat len"
    by (simp_all add: unat_sub word_le_nat_alt word_less_nat_alt)
  then have v': "0 < unat (len - trailing)" "unat (len - trailing) \<le> 2 ^ 24" using len(2) by linarith+
  obtain m where "align_up (len - trailing) PAGING_PAGE_SIZE = of_nat m * PAGING_PAGE_SIZE" "0 < m" "m \<le> 4096"
    "unat (len - trailing) \<le> m * 4096" by (rule align_up_pages [OF v'])
  then show thesis using that v by auto
qed

lemma grow_for_spec:
  assumes h: "heap_at n P hp" and len: "0 < unat len" "unat len \<le> 2 ^ 24" and fit: "find_fit (hp_blocks hp) len = None"
    and call: "grow_for len hp = (st, index, hp')"
  obtains (refused) "st = HEAP_STATUS_OUT_OF_MEMORY \<or> st = HEAP_STATUS_OUT_OF_BLOCKS \<or> st = HEAP_STATUS_MAPPING_FAILURE"
      "hp' = hp \<or> undone n n P hp hp'" "st = HEAP_STATUS_OUT_OF_MEMORY \<longrightarrow> tidy (hp_kernel hp) (hp_kernel hp')"
  | (complete) "st = HEAP_STATUS_OK" "heap_inv hp'" "same_outside (hp_kernel hp) (hp_kernel hp')" "live (hp_blocks hp') = live (hp_blocks hp)"
      "index < length (hp_blocks hp')" "\<not> hb_used (hp_blocks hp' ! index)" "len \<le> hb_size (hp_blocks hp' ! index)"
proof -
  note i = h [unfolded heap_at_def]
  let ?bs = "hp_blocks hp" and ?c = "hs_committed_bytes (hp_state hp)"
  let ?e = "length ?bs > 0 \<and> \<not> hb_used (?bs ! (length ?bs - 1))"
  obtain m where m: "align_up (len - (if ?e then hb_size (?bs ! (length ?bs - 1)) else 0)) PAGING_PAGE_SIZE = of_nat m * PAGING_PAGE_SIZE"
    "0 < m" "m \<le> 4096" "unat len \<le> unat (if ?e then hb_size (?bs ! (length ?bs - 1)) else 0) + m * 4096"
    by (rule growth_pages [OF len fit])
  let ?g = "of_nat m * PAGING_PAGE_SIZE"
  have u: "unat ?g = m * 4096" "unat ?c = n * 4096" using unat_heap_offset m(3) i by simp_all
  have "unat (HEAP_SIZE - ?c) = 4096 * 4096 - n * 4096" using u(2) i by (subst unat_sub) (simp_all add: word_le_nat_alt HEAP_SIZE_def)
  then have room: "?g > HEAP_SIZE - ?c \<longleftrightarrow> \<not> n + m \<le> 4096" using u(1) i unfolding word_less_nat_alt by linarith
  have sum: "?c + ?g = of_nat (n + m) * PAGING_PAGE_SIZE" using i by (simp add: distrib_right)
  note eq = call [unfolded grow_for_def Let_def m(1)]
  show thesis
  proof (cases "n + m \<le> 4096 \<and> (?e \<or> length ?bs \<noteq> HEAP_MAX_BLOCKS)")
    case False
    then show thesis using eq room refused by (auto simp: tidy_refl split: if_split_asm)
  next
    case True
    then have big: "\<not> ?g > HEAP_SIZE - ?c" "\<not> (\<not> ?e \<and> length ?bs = HEAP_MAX_BLOCKS)" using room by blast+
    obtain st1 hp1 where c: "commit_pages ?c (?c + ?g) hp = (st1, hp1)" by fastforce
    have "j \<notin> dom P" if "n \<le> j" for j using i that by auto
    then have P: "\<forall>j \<ge> n. P j = None" by (simp add: domIff)
    have c': "commit_pages (of_nat n * PAGING_PAGE_SIZE) (of_nat (n + m) * PAGING_PAGE_SIZE) hp = (st1, hp1)" using c i sum by simp
    have ty: "tidy (hp_kernel hp) (hp_kernel hp1)" if "st1 = HEAP_STATUS_OUT_OF_MEMORY"
      using commit_pages_tidy [of P hp n "n + m" hp1] c' that True P i by auto
    from c' consider (ok) "st1 = HEAP_STATUS_OK" "grown n (n + m) P hp hp1"
      | (no) "st1 = HEAP_STATUS_OUT_OF_MEMORY \<or> st1 = HEAP_STATUS_MAPPING_FAILURE" "undone n n P hp hp1"
      using commit_pages_spec [of P hp n "n + m"] True P i by auto
    then show thesis
    proof cases
      case no
      then show thesis using eq big c refused ty by (auto split: if_split_asm)
    next
      case ok
      have same: "hp_blocks hp1 = ?bs" "hs_committed_bytes (hp_state hp1) = ?c" using ok(2) by (simp_all add: grown_def)
      let ?bs' = "if ?e then ?bs[length ?bs - 1 := (?bs ! (length ?bs - 1))\<lparr>hb_size := hb_size (?bs ! (length ?bs - 1)) + ?g\<rparr>]
        else ?bs @ [\<lparr>hb_offset = ?c, hb_size = ?g, hb_used = False\<rparr>]"
      have r: "st = HEAP_STATUS_OK" "index = length ?bs' - 1"
        "hp' = hp1\<lparr>hp_blocks := ?bs', hp_state := (hp_state hp1)\<lparr>hs_committed_bytes := of_nat (n + m) * PAGING_PAGE_SIZE\<rparr>\<rparr>"
        using eq big c ok(1) sum unfolding same by (auto simp: same)
      have t: "tiles 0 ?bs (unat ?c)" "coalesced ?bs" "0 < unat ?g" "16 dvd unat ?g" "unat ?c + unat ?g < 2 ^ 64" "length ?bs \<le> HEAP_MAX_BLOCKS"
        "?e \<or> length ?bs \<noteq> HEAP_MAX_BLOCKS" using i u m(2,3) True by auto
      note x = extended_table [OF t]
      have "unat ?c + unat ?g = (n + m) * 4096" using u by simp
      note g = grown_heap [OF h ok(2) _ _ x(1) [unfolded this] x(2,3)]
      have "len \<le> hb_size (?bs' ! (length ?bs' - 1))"
        using x(7) m(4) u(1) by (simp add: word_le_nat_alt split: if_split_asm)
      then show thesis using complete r g x(4-6) True by simp
    qed
  qed
qed

subsection \<open>The operations\<close>

lemma free_apart:
  assumes t: "tiles e bs c" and i: "i < length bs" "\<not> hb_used (bs ! i)" and l: "(o2, n2) \<in> live bs"
  shows "unat (hb_offset (bs ! i)) + unat (hb_size (bs ! i)) \<le> o2 \<or> o2 + n2 \<le> unat (hb_offset (bs ! i))"
proof -
  obtain j where j: "j < length bs" "hb_used (bs ! j)" "o2 = unat (hb_offset (bs ! j))" "n2 = unat (hb_size (bs ! j))"
    using l by (auto simp: live_def in_set_conv_nth)
  then have "i < j \<or> j < i" using i(2) by (metis linorder_neqE_nat)
  then show ?thesis using tiles_apart [OF t, of i j] tiles_apart [OF t, of j i] i(1) j by auto
qed

lemma align_up_units:
  assumes "0 < unat len" "unat len \<le> 2 ^ 24"
  shows "16 dvd unat (align_up len HEAP_ALIGNMENT)" and "unat len \<le> unat (align_up len HEAP_ALIGNMENT)"
    and "unat (align_up len HEAP_ALIGNMENT) < unat len + 16" and "unat (align_up len HEAP_ALIGNMENT) \<le> 2 ^ 24"
proof -
  have "HEAP_ALIGNMENT - 1 = mask 4" by (simp add: HEAP_ALIGNMENT_def mask_eq_exp_minus_1)
  from unat_align_up [OF assms(2) this] have u: "unat (align_up len HEAP_ALIGNMENT) = (unat len + 15) div 16 * 16"
    by (simp add: HEAP_ALIGNMENT_def)
  have "(unat len + 15) div 16 \<le> (2 ^ 24 + 15) div 16" using assms(2) by (intro div_le_mono) simp
  then show "unat (align_up len HEAP_ALIGNMENT) \<le> 2 ^ 24" unfolding u by simp
  show "16 dvd unat (align_up len HEAP_ALIGNMENT)" unfolding u by simp
  show "unat len \<le> unat (align_up len HEAP_ALIGNMENT)" "unat (align_up len HEAP_ALIGNMENT) < unat len + 16" unfolding u by linarith+
qed

lemma heap_at_blocks:
  assumes "heap_at n P hp" and "tiles 0 bs (n * 4096)" "coalesced bs" "length bs \<le> HEAP_MAX_BLOCKS"
  shows "heap_at n P (hp\<lparr>hp_blocks := bs\<rparr>)"
  using assms by (simp add: heap_at_def)

text \<open>Taking the front of a free block of a heap that satisfies the invariant.\<close>

lemma heap_split:
  assumes h: "heap_inv hp" and i: "i < length (hp_blocks hp)" "\<not> hb_used (hp_blocks hp ! i)"
    and len: "0 < unat len" "16 dvd unat len" "len \<le> hb_size (hp_blocks hp ! i)"
    and call: "split_block (hp_blocks hp) i len = (ok, bs)"
  shows "heap_inv (hp\<lparr>hp_blocks := bs\<rparr>)" and "\<not> ok \<Longrightarrow> bs = hp_blocks hp"
    and "ok \<Longrightarrow> live bs = insert (unat (hb_offset (bs ! i)), unat len) (live (hp_blocks hp))"
    and "ok \<Longrightarrow> \<forall>(o2, n2) \<in> live (hp_blocks hp). unat (hb_offset (bs ! i)) + unat len \<le> o2 \<or> o2 + n2 \<le> unat (hb_offset (bs ! i))"
proof -
  obtain n P where at: "heap_at n P hp" using h by (auto simp: heap_inv_def)
  then have t: "tiles 0 (hp_blocks hp) (n * 4096)" "coalesced (hp_blocks hp)" and n: "n * 4096 < 2 ^ 64" "length (hp_blocks hp) \<le> HEAP_MAX_BLOCKS"
    by (simp_all add: heap_at_def)
  note s = split_block_spec [OF t i len n(1) call]
  show "heap_inv (hp\<lparr>hp_blocks := bs\<rparr>)"
  proof (cases ok)
    case True
    from heap_at_blocks [OF at s(3) [OF True] s(4) [OF True] s(7) [OF n(2)]] show ?thesis unfolding heap_inv_def by blast
  next
    case False
    then show ?thesis using s(2) h by simp
  qed
  show "\<not> ok \<Longrightarrow> bs = hp_blocks hp" by (rule s(2))
  show "ok \<Longrightarrow> live bs = insert (unat (hb_offset (bs ! i)), unat len) (live (hp_blocks hp))" using s(5,6) by simp
  assume ok
  then have e: "hb_offset (bs ! i) = hb_offset (hp_blocks hp ! i)" using s(6) by blast
  show "\<forall>(o2, n2) \<in> live (hp_blocks hp). unat (hb_offset (bs ! i)) + unat len \<le> o2 \<or> o2 + n2 \<le> unat (hb_offset (bs ! i))"
    unfolding e using free_apart [OF t(1) i] len(3) by (fastforce simp: word_le_nat_alt)
qed

definition refusal :: "heap \<Rightarrow> heap \<Rightarrow> bool" where
  "refusal hp hp' \<longleftrightarrow> hp_blocks hp' = hp_blocks hp \<and> hp_state hp' = hp_state hp
     \<and> kernel_owned (hp_kernel hp') = kernel_owned (hp_kernel hp)
     \<and> (\<forall>a. kernel_translate (hp_kernel hp') a = kernel_translate (hp_kernel hp) a)"

lemma undone_refusal:
  assumes "heap_at n P hp" and "hp' = hp \<or> undone n n P hp hp'"
  shows "heap_inv hp'" "same_outside (hp_kernel hp) (hp_kernel hp')" "refusal hp hp'"
proof -
  have "heap_inv hp' \<and> same_outside (hp_kernel hp) (hp_kernel hp') \<and> refusal hp hp'"
  proof (cases "hp' = hp")
    case True
    then show ?thesis using assms(1) by (auto simp: heap_inv_def same_outside_refl refusal_def)
  next
    case False
    then have u: "undone n n P hp hp'" using assms(2) by blast
    note r = undone_nothing [OF assms(1) u]
    show ?thesis using r unfolding heap_inv_def refusal_def by blast
  qed
  then show "heap_inv hp'" "same_outside (hp_kernel hp) (hp_kernel hp')" "refusal hp hp'" by blast+
qed

text \<open>The block \<open>heap_allocate\<close> works on: one that fits, or one that growth made.\<close>

lemma allocate_block:
  assumes h: "heap_inv hp" and len: "0 < unat len" "unat len \<le> 2 ^ 24"
    and call: "(case find_fit (hp_blocks hp) len of Some index \<Rightarrow> (HEAP_STATUS_OK, index, hp) | None \<Rightarrow> grow_for len hp) = (st, index, hp')"
  shows "heap_inv hp'" and "same_outside (hp_kernel hp) (hp_kernel hp')" and "live (hp_blocks hp') = live (hp_blocks hp)"
    and "st \<noteq> HEAP_STATUS_OK \<Longrightarrow> refusal hp hp'"
    and "st = HEAP_STATUS_OK \<Longrightarrow> index < length (hp_blocks hp') \<and> \<not> hb_used (hp_blocks hp' ! index) \<and> len \<le> hb_size (hp_blocks hp' ! index)"
    and "st = HEAP_STATUS_OUT_OF_MEMORY \<Longrightarrow> tidy (hp_kernel hp) (hp_kernel hp')"
proof -
  obtain n P where at: "heap_at n P hp" using h by (auto simp: heap_inv_def)
  have "heap_inv hp' \<and> same_outside (hp_kernel hp) (hp_kernel hp') \<and> live (hp_blocks hp') = live (hp_blocks hp)
     \<and> (st \<noteq> HEAP_STATUS_OK \<longrightarrow> refusal hp hp') \<and> (st = HEAP_STATUS_OUT_OF_MEMORY \<longrightarrow> tidy (hp_kernel hp) (hp_kernel hp'))
     \<and> (st = HEAP_STATUS_OK \<longrightarrow> index < length (hp_blocks hp') \<and> \<not> hb_used (hp_blocks hp' ! index) \<and> len \<le> hb_size (hp_blocks hp' ! index))"
  proof (cases "find_fit (hp_blocks hp) len")
    case (Some i)
    then show ?thesis using call h find_fit_Some [OF Some] by (auto simp: same_outside_refl)
  next
    case None
    then have g: "grow_for len hp = (st, index, hp')" using call by simp
    from at len None g show ?thesis
    proof (cases rule: grow_for_spec)
      case refused
      note r = undone_refusal [OF at refused(2)]
      have "live (hp_blocks hp') = live (hp_blocks hp)" using r(3) by (simp add: refusal_def)
      then show ?thesis using refused(1,3) r by auto
    next
      case complete
      then show ?thesis by simp
    qed
  qed
  then show "heap_inv hp'" "same_outside (hp_kernel hp) (hp_kernel hp')" "live (hp_blocks hp') = live (hp_blocks hp)"
    "st \<noteq> HEAP_STATUS_OK \<Longrightarrow> refusal hp hp'"
    "st = HEAP_STATUS_OK \<Longrightarrow> index < length (hp_blocks hp') \<and> \<not> hb_used (hp_blocks hp' ! index) \<and> len \<le> hb_size (hp_blocks hp' ! index)"
    "st = HEAP_STATUS_OUT_OF_MEMORY \<Longrightarrow> tidy (hp_kernel hp) (hp_kernel hp')"
    by blast+
qed

lemma heap_allocate_spec:
  assumes h: "heap_inv hp" and call: "heap_allocate len (Some x) hp = (st, ptr, hp')"
  obtains (refused) "st \<noteq> HEAP_STATUS_OK" "ptr = Some 0" "heap_inv hp'" "same_outside (hp_kernel hp) (hp_kernel hp')"
      "live (hp_blocks hp') = live (hp_blocks hp)" "st \<noteq> HEAP_STATUS_OUT_OF_BLOCKS \<Longrightarrow> refusal hp hp'"
      "st = HEAP_STATUS_OUT_OF_MEMORY \<Longrightarrow> tidy (hp_kernel hp) (hp_kernel hp')"
  | (allocated) off n where "st = HEAP_STATUS_OK" "ptr = Some (HEAP_BASE + off)" "heap_inv hp'" "refreshed hp'"
      "same_outside (hp_kernel hp) (hp_kernel hp')" "live (hp_blocks hp') = insert (unat off, n) (live (hp_blocks hp))"
      "unat len \<le> n" "n < unat len + 16" "16 dvd n"
      "\<forall>(o2, n2) \<in> live (hp_blocks hp). unat off + n \<le> o2 \<or> o2 + n2 \<le> unat off"
proof (cases "len = 0 \<or> len > HEAP_SIZE \<or> align_up len HEAP_ALIGNMENT > HEAP_SIZE")
  case True
  have "hs_active (hp_state hp)" using h by (auto simp: heap_inv_def heap_at_def)
  then have "st \<noteq> HEAP_STATUS_OK \<and> ptr = Some 0 \<and> hp' = hp"
    using True call by (auto simp: heap_allocate_def Let_def split: if_split_asm)
  then show thesis using refused h by (simp add: same_outside_refl refusal_def tidy_refl)
next
  case False
  let ?r = "align_up len HEAP_ALIGNMENT"
  have act: "hs_active (hp_state hp)" using h by (auto simp: heap_inv_def heap_at_def)
  have l: "0 < unat len" "unat len \<le> 2 ^ 24"
    using False by (auto simp: unat_gt_0 word_less_nat_alt not_less HEAP_SIZE_def)
  note r = align_up_units [OF l]
  have r0: "0 < unat ?r" using l(1) r(2) by simp
  obtain st1 index hp1 where b: "(case find_fit (hp_blocks hp) ?r of Some index \<Rightarrow> (HEAP_STATUS_OK, index, hp) | None \<Rightarrow> grow_for ?r hp) = (st1, index, hp1)"
    by (cases "case find_fit (hp_blocks hp) ?r of Some index \<Rightarrow> (HEAP_STATUS_OK, index, hp) | None \<Rightarrow> grow_for ?r hp")
  note a = allocate_block [OF h r0 r(4) b]
  obtain ok bs where s: "split_block (hp_blocks hp1) index ?r = (ok, bs)" by fastforce
  have res: "(st, ptr, hp') = (if st1 \<noteq> HEAP_STATUS_OK then (st1, Some 0, hp1)
      else if \<not> ok then (HEAP_STATUS_OUT_OF_BLOCKS, Some 0, hp1\<lparr>hp_blocks := bs\<rparr>)
      else (HEAP_STATUS_OK, Some (HEAP_BASE + hb_offset (bs ! index)), refresh_state (hp1\<lparr>hp_blocks := bs\<rparr>)))"
    using call act False by (auto simp: heap_allocate_def Let_def b s)
  show thesis
  proof (cases "st1 = HEAP_STATUS_OK")
    case no: False
    then show thesis using refused res a by simp
  next
    case yes: True
    note ix = a(5) [OF yes]
    note sp = heap_split [OF a(1) _ _ r0 r(1) _ s]
    show thesis
    proof (cases ok)
      case False
      then have "bs = hp_blocks hp1" using sp(2) ix by blast
      then show thesis using refused res yes False a(1-3) by simp
    next
      case True
      then have e: "st = HEAP_STATUS_OK" "ptr = Some (HEAP_BASE + hb_offset (bs ! index))" "hp' = refresh_state (hp1\<lparr>hp_blocks := bs\<rparr>)"
        using res yes by simp_all
      have "heap_inv hp'" using sp(1) ix unfolding e(3) heap_inv_def by simp
      then show thesis
        using allocated [OF e(1,2)] sp(3,4) ix True a(2,3) r by (simp add: e(3))
    qed
  qed
qed

lemma block_of_live:
  assumes "(off, n) \<in> live bs"
  obtains b where "b \<in> set bs" "hb_used b" "unat (hb_offset b) = off" "unat (hb_size b) = n"
  using assms by (auto simp: live_def)

lemma heap_free_spec:
  assumes h: "heap_inv hp" and call: "heap_free ptr hp = (st, hp')"
  shows "st = HEAP_STATUS_OK \<longleftrightarrow> (\<exists>off n. (off, n) \<in> live (hp_blocks hp) \<and> ptr = HEAP_BASE + of_nat off)"
    and "st \<noteq> HEAP_STATUS_OK \<Longrightarrow> hp' = hp"
    and "st = HEAP_STATUS_OK \<Longrightarrow> heap_inv hp' \<and> refreshed hp' \<and> hp_kernel hp' = hp_kernel hp
       \<and> (\<exists>off n. (off, n) \<in> live (hp_blocks hp) \<and> ptr = HEAP_BASE + of_nat off \<and> live (hp_blocks hp') = live (hp_blocks hp) - {(off, n)})"
proof -
  obtain n P where at: "heap_at n P hp" using h by (auto simp: heap_inv_def)
  note i = at [unfolded heap_at_def]
  let ?bs = "hp_blocks hp" and ?c = "hs_committed_bytes (hp_state hp)"
  have t: "tiles 0 ?bs (n * 4096)" "coalesced ?bs" "n * 4096 < 2 ^ 64" "n * 4096 \<le> 2 ^ 24" "unat ?c = n * 4096"
    using i unat_heap_offset by auto
  have live_ptr: "ptr \<noteq> 0 \<and> \<not> (ptr < HEAP_BASE \<or> ptr \<ge> HEAP_BASE + ?c) \<and> ptr - HEAP_BASE = of_nat off"
    if "(off, k) \<in> live ?bs" "ptr = HEAP_BASE + of_nat off" for off k
  proof -
    have b: "off + k \<le> n * 4096" "0 < k" using live_bounds [OF t(1) that(1)] by auto
    then have u: "unat (of_nat off :: u64) = off" using t(4) by (intro unat_of_nat_small) simp
    then have p: "unat ptr = 0x400000000 + off" unfolding that(2) using b t(4) by (subst unat_plus_bounded) (simp_all add: HEAP_BASE_def)
    have e: "unat (HEAP_BASE + ?c) = 0x400000000 + n * 4096" using t(4,5) by (subst unat_plus_bounded) (simp_all add: HEAP_BASE_def)
    have "unat ptr \<noteq> 0" unfolding p by simp
    then show ?thesis using p e b that(2) by (auto simp: word_less_nat_alt word_le_nat_alt HEAP_BASE_def)
  qed
  have found: "\<exists>off k. (off, k) \<in> live ?bs \<and> ptr = HEAP_BASE + of_nat off \<and> off = unat (hb_offset (?bs ! index)) \<and> k = unat (hb_size (?bs ! index))"
    if "block_index_for_offset ?bs (ptr - HEAP_BASE) = Some index" "hb_used (?bs ! index)" for index
  proof -
    have x: "index < length ?bs" "hb_offset (?bs ! index) = ptr - HEAP_BASE" using block_index_Some [OF that(1)] by blast+
    have "ptr = HEAP_BASE + of_nat (unat (hb_offset (?bs ! index)))" unfolding x(2) by simp
    moreover have "(unat (hb_offset (?bs ! index)), unat (hb_size (?bs ! index))) \<in> live ?bs"
      unfolding live_def using x(1) that(2) nth_mem by blast
    ultimately show ?thesis by blast
  qed
  show iff: "st = HEAP_STATUS_OK \<longleftrightarrow> (\<exists>off n. (off, n) \<in> live ?bs \<and> ptr = HEAP_BASE + of_nat off)"
  proof
    assume "st = HEAP_STATUS_OK"
    then obtain index where "block_index_for_offset ?bs (ptr - HEAP_BASE) = Some index" "hb_used (?bs ! index)"
      using call by (auto simp: heap_free_def Let_def split: if_split_asm option.split_asm)
    then show "\<exists>off n. (off, n) \<in> live ?bs \<and> ptr = HEAP_BASE + of_nat off" using found by blast
  next
    assume "\<exists>off n. (off, n) \<in> live ?bs \<and> ptr = HEAP_BASE + of_nat off"
    then obtain off k where l: "(off, k) \<in> live ?bs" "ptr = HEAP_BASE + of_nat off" by blast
    note p = live_ptr [OF l]
    obtain b where b: "b \<in> set ?bs" "hb_used b" "unat (hb_offset b) = off" by (rule block_of_live [OF l(1)])
    have "hb_offset b = of_nat (unat (hb_offset b))" by simp
    then have off: "hb_offset b = ptr - HEAP_BASE" using p b(3) by simp
    obtain index where x: "block_index_for_offset ?bs (ptr - HEAP_BASE) = Some index"
      using block_index_None [of ?bs "ptr - HEAP_BASE"] b(1) off by (cases "block_index_for_offset ?bs (ptr - HEAP_BASE)") auto
    note ix = block_index_Some [OF x]
    obtain j where j: "j < length ?bs" "?bs ! j = b" using b(1) by (auto simp: in_set_conv_nth)
    have "0 < unat (hb_size (?bs ! m))" if "m < length ?bs" for m using tiles_member [OF t(1) nth_mem [OF that]] by blast
    then have "\<not> j < index" "\<not> index < j"
      using tiles_apart [OF t(1), of j index] tiles_apart [OF t(1), of index j] j ix off by fastforce+
    then have "j = index" by simp
    then show "st = HEAP_STATUS_OK" using call p x j(2) b(2) i by (auto simp: heap_free_def Let_def)
  qed
  show "st \<noteq> HEAP_STATUS_OK \<Longrightarrow> hp' = hp"
    using call by (auto simp: heap_free_def Let_def split: if_split_asm option.split_asm)
  assume "st = HEAP_STATUS_OK"
  then obtain index where x: "block_index_for_offset ?bs (ptr - HEAP_BASE) = Some index" "hb_used (?bs ! index)"
    and hp': "hp' = refresh_state (hp\<lparr>hp_blocks := merge_free_neighbours (?bs[index := (?bs ! index)\<lparr>hb_used := False\<rparr>]) index\<rparr>)"
    using call by (auto simp: heap_free_def Let_def split: if_split_asm option.split_asm)
  have ix: "index < length ?bs" using block_index_Some [OF x(1)] by blast
  note f = free_block_spec [OF t(1,2) ix x(2) t(3)]
  have "length (merge_free_neighbours (?bs[index := (?bs ! index)\<lparr>hb_used := False\<rparr>]) index) \<le> HEAP_MAX_BLOCKS" using f(4) i by simp
  from heap_at_blocks [OF at f(1,2) this] have "heap_inv hp'" unfolding hp' heap_inv_def by auto
  moreover have "refreshed hp'" "hp_kernel hp' = hp_kernel hp" by (simp_all add: hp')
  moreover obtain off k where l: "(off, k) \<in> live ?bs" "ptr = HEAP_BASE + of_nat off"
    "off = unat (hb_offset (?bs ! index))" "k = unat (hb_size (?bs ! index))" using found [OF x] by blast
  moreover have "live (hp_blocks hp') = live ?bs - {(off, k)}" unfolding hp' l(3,4) using f(3) by simp
  ultimately show "heap_inv hp' \<and> refreshed hp' \<and> hp_kernel hp' = hp_kernel hp
     \<and> (\<exists>off n. (off, n) \<in> live ?bs \<and> ptr = HEAP_BASE + of_nat off \<and> live (hp_blocks hp') = live ?bs - {(off, n)})"
    by blast
qed

lemma heap_initialize_spec:
  assumes k: "kernel_inv (hp_kernel hp)" and empty: "\<forall>a. in_range HEAP_BASE HEAP_SIZE a \<longrightarrow> kernel_translate (hp_kernel hp) a = unmapped"
    and call: "heap_initialize hp = (HEAP_STATUS_OK, hp')"
  shows "heap_inv hp'" and "refreshed hp'" and "live (hp_blocks hp') = {}" and "hp_kernel hp' = hp_kernel hp"
proof -
  have g: "guards_absent (hp_kernel hp)" and hp': "hp' = refresh_state (hp\<lparr>hp_blocks := [], hp_state := (hp_state hp)
      \<lparr>hs_base_address := HEAP_BASE, hs_size := HEAP_SIZE, hs_committed_bytes := 0, hs_mapped_pages := 0, hs_active := True\<rparr>\<rparr>)"
    using call by (auto simp: heap_initialize_def split: if_split_asm)
  have "backed Map.empty (hp_kernel hp)" unfolding backed_def using k empty page_in_window by auto
  then have "heap_at 0 Map.empty (hp\<lparr>hp_blocks := [], hp_state := (hp_state hp)
      \<lparr>hs_base_address := HEAP_BASE, hs_size := HEAP_SIZE, hs_committed_bytes := 0, hs_mapped_pages := 0, hs_active := True\<rparr>\<rparr>)"
    using g by (simp add: heap_at_def)
  then show "heap_inv hp'" unfolding hp' heap_inv_def by auto
  show "refreshed hp'" "live (hp_blocks hp') = {}" "hp_kernel hp' = hp_kernel hp" by (simp_all add: hp')
qed

subsection \<open>Sequences of calls\<close>

inductive heap_call :: "heap \<Rightarrow> heap_status \<Rightarrow> heap \<Rightarrow> bool" where
  call_allocate: "heap_allocate len ptr hp = (st, out, hp') \<Longrightarrow> heap_call hp st hp'"
| call_free: "heap_free ptr hp = (st, hp') \<Longrightarrow> heap_call hp st hp'"

lemma heap_call_keeps:
  assumes "heap_call hp st hp'" and h: "heap_inv hp"
  shows "heap_inv hp'" and "same_outside (hp_kernel hp) (hp_kernel hp')" and "st = HEAP_STATUS_OK \<Longrightarrow> refreshed hp'"
    and "st \<noteq> HEAP_STATUS_OUT_OF_BLOCKS \<Longrightarrow> refreshed hp \<Longrightarrow> refreshed hp'"
proof -
  have "heap_inv hp' \<and> same_outside (hp_kernel hp) (hp_kernel hp') \<and> (st = HEAP_STATUS_OK \<longrightarrow> refreshed hp')
      \<and> (st \<noteq> HEAP_STATUS_OUT_OF_BLOCKS \<longrightarrow> refreshed hp \<longrightarrow> refreshed hp')"
    using assms(1)
  proof cases
    case (call_allocate len ptr out)
    show ?thesis
    proof (cases ptr)
      case None
      then show ?thesis using call_allocate h by (auto simp: heap_allocate_def same_outside_refl)
    next
      case (Some x)
      from h call_allocate [unfolded Some] show ?thesis
      proof (cases rule: heap_allocate_spec)
        case refused
        then show ?thesis by (auto simp: refusal_def refreshed_def)
      next
        case (allocated off n)
        then show ?thesis by blast
      qed
    qed
  next
    case (call_free ptr)
    note f = heap_free_spec(2,3) [OF h call_free]
    then show ?thesis using h by (cases "st = HEAP_STATUS_OK") (auto simp: same_outside_refl)
  qed
  then show "heap_inv hp'" "same_outside (hp_kernel hp) (hp_kernel hp')" "st = HEAP_STATUS_OK \<Longrightarrow> refreshed hp'"
    "st \<noteq> HEAP_STATUS_OUT_OF_BLOCKS \<Longrightarrow> refreshed hp \<Longrightarrow> refreshed hp'" by blast+
qed

text \<open>The heap's pages are writable and not executable, so the check on the page tables goes on holding.\<close>

lemma heap_paging_verify:
  assumes "heap_inv hp" and k: "kernel_inv k" and same: "same_outside k (hp_kernel hp)" and v: "paging_verify ki k = PAGING_STATUS_OK"
    and out: "\<forall>a \<in> watched ki. \<not> in_range HEAP_BASE HEAP_SIZE a"
  shows "paging_verify ki (hp_kernel hp) = PAGING_STATUS_OK"
proof -
  let ?k = "hp_kernel hp"
  obtain n P where b: "backed P ?k" using assms(1) by (auto simp: heap_inv_def heap_at_def)
  then have inv: "kernel_inv ?k" by (simp add: backed_def)
  have t: "kernel_translate ?k a = kernel_translate k a" if "\<not> in_range HEAP_BASE HEAP_SIZE a" for a
    using same that by (simp add: same_outside_def)
  note v = v [unfolded paging_verify_OK [OF k]]
  have "guarded ?k" unfolding guarded_def
  proof (intro allI impI)
    fix a tr assume tr: "kernel_translate ?k a = (PAGING_STATUS_OK, tr)"
    show "\<not> tr_user tr \<and> \<not> (bit (tr_permissions tr) 0 \<and> bit (tr_permissions tr) 1)"
    proof (cases "in_range HEAP_BASE HEAP_SIZE a")
      case True
      then obtain i where i: "i < 4096" "in_page i a" by (rule window_page)
      have "\<not> (bit PAGING_WRITE 0 \<and> bit PAGING_WRITE 1)"
        using validate_permissions_OK [of PAGING_WRITE] by (simp add: PAGING_WRITE_def)
      then show ?thesis using backed_translate [OF b i] tr by (auto simp: mapping_def split: option.split_asm)
    next
      case False
      then show ?thesis using t tr v by (simp add: guarded_def)
    qed
  qed
  moreover have "verify_symbol ?k a p = verify_symbol k a p" if "a \<in> watched ki" for a p
    using t out that by (simp add: verify_symbol_def)
  moreover have "kernel_translate ?k 0 = kernel_translate k 0" by (rule t) (simp add: in_range_def HEAP_BASE_def)
  moreover have "st_pat_after (pk_state ?k) = st_pat_after (pk_state k)"
    "st_write_combining_pat_entry (pk_state ?k) = st_write_combining_pat_entry (pk_state k)"
  proof -
    have e: "(pk_state ?k)\<lparr>st_table_frames := 0\<rparr> = (pk_state k)\<lparr>st_table_frames := 0\<rparr>" using same by (simp add: same_outside_def)
    show "st_pat_after (pk_state ?k) = st_pat_after (pk_state k)" using arg_cong [OF e, of st_pat_after] by simp
    show "st_write_combining_pat_entry (pk_state ?k) = st_write_combining_pat_entry (pk_state k)"
      using arg_cong [OF e, of st_write_combining_pat_entry] by simp
  qed
  moreover have "pk_cpu ?k = pk_cpu k" "h_root (pk_live_hierarchy ?k) = h_root (pk_live_hierarchy k)" using same by (simp_all add: same_outside_def)
  ultimately show ?thesis unfolding paging_verify_OK [OF inv] using v by (simp add: watched_def)
qed

end
