(* ===== verification/Heap_Use.thy ===== *)
theory Heap_Use
  imports Kernel_Heap
begin

text \<open>
  When an allocation must succeed, and the properties of the kernel heap.
\<close>

subsection \<open>Growth that must succeed\<close>

lemma present_card:
  assumes "hier_inv h w"
  shows "finite (present h w)" and "card (present h w) = card (reach (pw_tables w) (h_root h))"
proof -
  note i = hier_invD [OF assms]
  let ?f = "\<lambda>p. the (tab (pw_tables w) (h_root h) p)"
  have inj: "inj_on ?f (present h w)"
  proof (rule inj_onI)
    fix p q assume "p \<in> present h w" "q \<in> present h w" "?f p = ?f q"
    then obtain t where "table_path p" "table_path q" "tab (pw_tables w) (h_root h) p = Some t" "tab (pw_tables w) (h_root h) q = Some t"
      by (auto simp: present_def)
    then show "p = q" using i(2) unfolding tree_def by blast
  qed
  have e: "reach (pw_tables w) (h_root h) = ?f ` present h w" by (rule reach_present)
  show "finite (present h w)" using inj i(6) e by (metis finite_imageD)
  show "card (present h w) = card (reach (pw_tables w) (h_root h))" unfolding e using inj by (simp add: card_image)
qed

lemma room_card:
  assumes "hier_inv h w" and "h_arena_capacity h = 0"
  shows "room h w = card (reach (pw_tables w) (h_root h)) + card (free_set (pw_frames w))"
proof -
  note i = hier_invD [OF assms(1)]
  have d: "table_free (h, w) \<inter> table_taken (h, w) = {}" using tables.disjoint i(1) by blast
  have f: "table_free (h, w) = frame_addresses (free_set (pw_frames w))" using assms(2) by (simp add: table_free_def)
  have fin: "finite (table_free (h, w))"
    unfolding f frame_addresses_def by (intro finite_imageI finite_subset [OF frame_set_bounds(1)]) simp
  have "table_supply h w - others h w = reach (pw_tables w) (h_root h) \<union> table_free (h, w)"
    using d i(4) by (auto simp: table_supply_def others_def)
  moreover have "reach (pw_tables w) (h_root h) \<inter> table_free (h, w) = {}" using d i(4) by blast
  ultimately show ?thesis
    using card_Un_disjoint [OF i(6) fin] frame_addresses_card [OF frame_set_bounds(1), of "pw_frames w"] by (simp add: room_def f)
qed

text \<open>Mapping one absent page takes at most three tables, and works when three frames are free.\<close>

lemma map_page_room:
  assumes inv: "hier_inv h w" and cap: "h_arena_capacity h = 0" and pat: "pat_ok pat"
    and v: "validate_permissions p = PAGING_STATUS_OK" "validate_virtual_range va PAGING_PAGE_SIZE PAGING_PAGE_SIZE = PAGING_STATUS_OK"
      "validate_physical_range pa PAGING_PAGE_SIZE PAGING_PAGE_SIZE = PAGING_STATUS_OK"
    and absent: "translate_address h va pat w = unmapped" and free: "3 \<le> card (free_set (pw_frames w))"
    and m: "map_range h va pa PAGING_PAGE_SIZE p 1 w = (st, h', w')"
  shows "st = PAGING_STATUS_OK" and "card (free_set (pw_frames w)) \<le> card (free_set (pw_frames w')) + 3"
proof -
  let ?W = "present h w \<union> walk_paths va 1"
  have "address_is_canonical va" using v(2) by (auto simp: validate_virtual_range_def split: if_split_asm)
  then have vac: "vacant (pw_tables w) (h_root h) va 1" using absent by (rule unmapped_vacant(1))
  have l1: "level_page_size (1 :: nat) = PAGING_PAGE_SIZE" by (rule page_size_1 [symmetric])
  note d = map_page_draws [where l = "1 :: nat", unfolded l1, OF inv test_level v vac m]
  have inv': "hier_inv h' w'" by (rule map_range_translations(1) [OF inv test_level pat m])
  have k: "same_hierarchy h h'" "others h' w' = others h w"
    using inv test_level m by (cases rule: map_range_cases; use cap in \<open>auto simp: keeps_out_def\<close>)+
  have cap': "h_arena_capacity h' = 0" using k(1) cap by (simp add: same_hierarchy_def)
  note c = present_card [OF inv] and c' = present_card [OF inv']
  have "[] \<in> present h w" by (simp add: present_def table_path_def)
  moreover have "{1..4 :: nat} = insert 4 {1..3}" by auto
  ultimately have W: "?W = present h w \<union> vpath va 4 ` {1..3}" unfolding walk_paths_def by auto
  have "card ?W \<le> card (present h w) + card (vpath va 4 ` {1..3})" unfolding W by (rule card_Un_le)
  also have "card (vpath va 4 ` {1..3}) \<le> card {1..3 :: nat}" by (rule card_image_le) simp
  finally have W3: "card ?W \<le> card (present h w) + 3" by simp
  have fin: "finite ?W" using c(1) unfolding W by simp
  have dW: "draws ?W st h w h' w'" by (rule draws_mono [OF d(1)]) auto
  have "card ?W \<le> room h w" using W3 c(2) free room_card [OF inv cap] by simp
  then have "st \<noteq> PAGING_STATUS_OUT_OF_FRAMES" by (rule draws_enough [OF inv' dW k(2) Un_upper1 fin])
  then show "st = PAGING_STATUS_OK" using d(2) by blast
  have "room h' w' = room h w" using dW k(2) by (simp add: room_def draws_def)
  moreover have "card (present h' w') \<le> card ?W" using dW fin by (intro card_mono) (auto simp: draws_def)
  ultimately show "card (free_set (pw_frames w)) \<le> card (free_set (pw_frames w')) + 3"
    using room_card [OF inv cap] room_card [OF inv' cap'] c(2) c'(2) W3 by simp
qed


lemma kernel_map_room:
  assumes b: "backed P k" and i: "i < 4096" "P i = None" and f: "4096 dvd unat f" "unat f < 2 ^ 32"
    and room: "3 \<le> card (free_set (kernel_frames k))" "length (pk_supervisor_intents k) < PAGING_SUPERVISOR_INTENT_CAPACITY"
    and m: "paging_map (heap_page i) f PAGING_PAGE_SIZE PAGING_WRITE k = (st, k')"
  shows "st = PAGING_STATUS_OK" and "card (free_set (kernel_frames k)) \<le> card (free_set (kernel_frames k')) + 3"
    and "length (pk_supervisor_intents k') = Suc (length (pk_supervisor_intents k))"
proof -
  let ?h = "pk_live_hierarchy k" and ?w = "pk_world k"
  have inv: "kernel_inv k" using b by (simp add: backed_def)
  then have h: "hier_inv ?h ?w" "h_arena_capacity ?h = 0" "pat_ok (st_pat_after (pk_state k))" "st_active (pk_state k)" by (simp_all add: kernel_inv_def)
  obtain st1 h1 w1 where r: "map_range ?h (heap_page i) f PAGING_PAGE_SIZE PAGING_WRITE 1 ?w = (st1, h1, w1)"
    by (cases "map_range ?h (heap_page i) f PAGING_PAGE_SIZE PAGING_WRITE 1 ?w")
  have vp: "validate_permissions PAGING_WRITE = PAGING_STATUS_OK" by code_simp
  have "validate_physical_range f PAGING_PAGE_SIZE PAGING_PAGE_SIZE = PAGING_STATUS_OK"
  proof -
    have "unat (f AND mask 12) = 0" unfolding unat_and_mask using f(1) by (simp add: dvd_eq_mod_eq_0)
    then have "f AND (PAGING_PAGE_SIZE - 1) = 0" unfolding page_size_mask by (simp only: unat_eq_0)
    moreover have "\<not> PAGING_PAGE_SIZE > 0xFFFFFFFFFFFFFFFF - f"
      using f(2) by (simp add: word_less_nat_alt unat_sub word_le_nat_alt PAGING_PAGE_SIZE_def)
    moreover have "unat (f + PAGING_PAGE_SIZE) = unat f + 4096" using f(2) by (subst unat_plus_bounded) (simp_all add: PAGING_PAGE_SIZE_def)
    then have "\<not> f + PAGING_PAGE_SIZE > PAGE_PHYSICAL_LIMIT" using f(2) by (simp add: word_less_nat_alt PAGE_PHYSICAL_LIMIT_def)
    ultimately show ?thesis by (simp add: validate_physical_range_def)
  qed
  moreover have "kernel_translate k (heap_page i) = unmapped" using backed_translate [OF b i(1) page_self [OF i(1)]] i(2) by simp
  ultimately have g: "st1 = PAGING_STATUS_OK" "card (free_set (pw_frames ?w)) \<le> card (free_set (pw_frames w1)) + 3"
    using map_page_room [OF h(1-3) vp heap_page_range [OF i(1)] _ _ room(1) [unfolded kernel_frames_def] r] by blast+
  then have e: "st = PAGING_STATUS_OK" "pk_world k' = w1"
    using m h(4) r room(2) by (auto simp: paging_map_def Let_def supervisor_intent_add_def)
  then show "st = PAGING_STATUS_OK" "card (free_set (kernel_frames k)) \<le> card (free_set (kernel_frames k')) + 3"
    using g by (simp_all add: kernel_frames_def)
  show "length (pk_supervisor_intents k') = Suc (length (pk_supervisor_intents k))"
    using paging_map_spec(6) [OF inv m] e(1) by simp
qed

text \<open>Four free frames and one intent for each page are enough for the loop to reach its end.\<close>

lemma commit_loop_succeeds:
  assumes "backed P (hp_kernel hp)" and "n \<le> n1" "n1 \<le> 4096" and "\<forall>i \<ge> n. P i = None"
    and "4 * (n1 - n) \<le> card (free_set (kernel_frames (hp_kernel hp)))"
    and "length (pk_supervisor_intents (hp_kernel hp)) + (n1 - n) \<le> PAGING_SUPERVISOR_INTENT_CAPACITY"
  shows "\<exists>hp'. commit_loop from (map (\<lambda>i. of_nat i * PAGING_PAGE_SIZE) [n..<n1]) hp = (HEAP_STATUS_OK, hp')"
  using assms
proof (induction "n1 - n" arbitrary: n P hp)
  case (Suc d)
  let ?k = "hp_kernel hp"
  from Suc have n: "n < n1" "d = n1 - Suc n" "n < 4096" "[n..<n1] = n # [Suc n..<n1]" by (auto simp: upt_conv_Cons)
  have inv: "kernel_inv ?k" and own: "ran P \<subseteq> kernel_owned ?k" using Suc.prems(1) by (simp_all add: backed_def)
  have room: "4 \<le> card (free_set (kernel_frames ?k))" "length (pk_supervisor_intents ?k) < PAGING_SUPERVISOR_INTENT_CAPACITY"
    using Suc.prems(5,6) n(1) by linarith+
  have fi: "frame_inv (kernel_frames ?k)" "allocator_initialized (kernel_frames ?k)"
    using kernel_pool(1) [OF inv] by (simp_all add: frame_pool_inv_def)
  have "free_set (kernel_frames ?k) \<noteq> {}" using room(1) by auto
  then obtain g fs where a: "frame_allocate (Some 0) (kernel_frames ?k) = (FRAME_STATUS_OK, Some (of_nat g * SAPOTE_PAGE_SIZE), fs)"
    "free_set fs = free_set (kernel_frames ?k) - {g}" "g \<in> free_set (kernel_frames ?k)" using frame_allocate_cases(2) [OF fi, of 0] by blast
  obtain f where f: "Some (of_nat g * SAPOTE_PAGE_SIZE) = Some f" "kernel_inv (set_frames fs ?k)"
    "kernel_owned (set_frames fs ?k) = insert f (kernel_owned ?k)" "f \<notin> kernel_owned ?k" "4096 dvd unat f" "unat f < 2 ^ 32"
    by (rule kernel_take [OF inv a(1)])
  have free: "card (free_set fs) = card (free_set (kernel_frames ?k)) - 1"
    using a(2,3) finite_subset [OF frame_set_bounds(1)] by simp
  have b1: "backed P (set_frames fs ?k)" using own f(3) by (intro backed_frames [OF Suc.prems(1) f(2)]) auto
  have Pn: "P n = None" using Suc.prems(4) by simp
  obtain st k2 where m: "paging_map (heap_page n) f PAGING_PAGE_SIZE PAGING_WRITE (set_frames fs ?k) = (st, k2)" by fastforce
  have "3 \<le> card (free_set (kernel_frames (set_frames fs ?k)))" using free room(1) by simp
  note g = kernel_map_room [OF b1 n(3) Pn f(5,6) this _ m]
  have ok: "st = PAGING_STATUS_OK" using g(1) room(2) by simp
  have fo: "f \<in> kernel_owned (set_frames fs ?k)" "f \<notin> ran P" using f(3,4) own by auto
  note r = page_mapped [OF b1 n(3) Pn fo m [unfolded ok]]
  let ?hp = "hp\<lparr>hp_kernel := k2, hp_state := add_mapped 1 hp\<rparr>"
  have "commit_loop from (map (\<lambda>i. of_nat i * PAGING_PAGE_SIZE) [n..<n1]) hp
      = commit_loop from (map (\<lambda>i. of_nat i * PAGING_PAGE_SIZE) [Suc n..<n1]) ?hp"
    using a(1) f(1) m ok unfolding n(4) by (simp add: heap_page_def)
  moreover have "\<exists>hp'. commit_loop from (map (\<lambda>i. of_nat i * PAGING_PAGE_SIZE) [Suc n..<n1]) ?hp = (HEAP_STATUS_OK, hp')"
  proof (rule Suc.hyps(1) [OF n(2)])
    show "backed (P(n \<mapsto> f)) (hp_kernel ?hp)" using r(1) by simp
    show "\<forall>i \<ge> Suc n. (P(n \<mapsto> f)) i = None" using Suc.prems(4) by auto
    show "4 * (n1 - Suc n) \<le> card (free_set (kernel_frames (hp_kernel ?hp)))" using g(2) room(2) free Suc.prems(5) n(1) by simp
    show "length (pk_supervisor_intents (hp_kernel ?hp)) + (n1 - Suc n) \<le> PAGING_SUPERVISOR_INTENT_CAPACITY"
      using g(3) room(2) Suc.prems(6) n(1) by simp
  qed (use n(1) Suc.prems(3) in simp_all)
  ultimately show ?case by simp
qed simp

lemma growth_pages_bound:
  assumes "0 < unat len" "unat len \<le> 2 ^ 24" and "unat len \<le> p * 4096"
    and "align_up (len - trailing) PAGING_PAGE_SIZE = of_nat m * PAGING_PAGE_SIZE" "m \<le> 4096" and "trailing \<le> len" "trailing \<noteq> len"
  shows "m \<le> p"
proof -
  have v: "unat (len - trailing) = unat len - unat trailing" using assms(6) by (simp add: unat_sub word_le_nat_alt)
  have "unat trailing \<noteq> unat len" using assms(7) by (simp add: word_unat_eq_iff)
  then have v0: "0 < unat (len - trailing)" "unat (len - trailing) \<le> 2 ^ 24" "unat (len - trailing) \<le> unat len"
    using assms(2,6) v by (auto simp: word_le_nat_alt)
  obtain m' where m': "align_up (len - trailing) PAGING_PAGE_SIZE = of_nat m' * PAGING_PAGE_SIZE" "m' \<le> 4096"
    "m' * 4096 < unat (len - trailing) + 4096" by (rule align_up_pages [OF v0(1,2)])
  have "m * 4096 = m' * 4096" using unat_heap_offset [OF m'(2)] unat_heap_offset [OF assms(5)] m'(1) assms(4) by simp
  then have "m * 4096 < p * 4096 + 4096" using m'(3) v0(3) assms(3) by linarith
  then show ?thesis by simp
qed

lemma grow_for_succeeds:
  assumes h: "heap_at n P hp" and len: "0 < unat len" "unat len \<le> p * 4096" and room: "n + p \<le> 4096" "length (hp_blocks hp) < HEAP_MAX_BLOCKS"
    and frames: "4 * p \<le> card (free_set (kernel_frames (hp_kernel hp)))"
      "length (pk_supervisor_intents (hp_kernel hp)) + p \<le> PAGING_SUPERVISOR_INTENT_CAPACITY"
    and fit: "find_fit (hp_blocks hp) len = None"
  obtains index hp' where "grow_for len hp = (HEAP_STATUS_OK, index, hp')" "length (hp_blocks hp') \<le> Suc (length (hp_blocks hp))"
    "hs_block_count (hp_state hp') = hs_block_count (hp_state hp)"
    "hp_blocks hp \<noteq> [] \<and> hb_used (last (hp_blocks hp)) \<longrightarrow> length (hp_blocks hp') = Suc (length (hp_blocks hp))
       \<and> index = length (hp_blocks hp) \<and> 4096 dvd unat (hb_size (hp_blocks hp' ! index))"
proof -
  note i = h [unfolded heap_at_def]
  have l: "unat len \<le> 2 ^ 24" using len(2) room(1) by simp
  let ?bs = "hp_blocks hp" and ?c = "hs_committed_bytes (hp_state hp)"
  let ?e = "length ?bs > 0 \<and> \<not> hb_used (?bs ! (length ?bs - 1))"
  let ?t = "if ?e then hb_size (?bs ! (length ?bs - 1)) else 0"
  obtain m where m: "align_up (len - ?t) PAGING_PAGE_SIZE = of_nat m * PAGING_PAGE_SIZE" "0 < m" "m \<le> 4096"
    by (rule growth_pages [OF len(1) l fit])
  have t: "?t < len"
  proof (cases ?e)
    case True
    then have "?bs ! (length ?bs - 1) \<in> set ?bs" by simp
    then show ?thesis using fit True by (simp add: find_fit_None)
  next
    case False
    then have "?t = 0" by (simp only: if_False)
    then show ?thesis using len(1) by (simp add: word_less_nat_alt)
  qed
  have mp: "m \<le> p" by (rule growth_pages_bound [OF len(1) l len(2) m(1,3)]) (use t in auto)
  let ?g = "of_nat m * PAGING_PAGE_SIZE"
  have u: "unat ?g = m * 4096" "unat ?c = n * 4096" using unat_heap_offset m(3) i by simp_all
  have "unat (HEAP_SIZE - ?c) = 4096 * 4096 - n * 4096" using u(2) i by (subst unat_sub) (simp_all add: word_le_nat_alt HEAP_SIZE_def)
  then have big: "\<not> ?g > HEAP_SIZE - ?c" using u(1) mp room(1) unfolding word_less_nat_alt by linarith
  have sum: "?c + ?g = of_nat (n + m) * PAGING_PAGE_SIZE" using i by (simp add: distrib_right)
  have "j \<notin> dom P" if "n \<le> j" for j using i that by auto
  then have P: "\<forall>j \<ge> n. P j = None" by (simp add: domIff)
  have nm: "n \<le> n + m" "n + m \<le> 4096" "n + m - n = m" using mp room(1) by simp_all
  have fr: "4 * (n + m - n) \<le> card (free_set (kernel_frames (hp_kernel hp)))"
    "length (pk_supervisor_intents (hp_kernel hp)) + (n + m - n) \<le> PAGING_SUPERVISOR_INTENT_CAPACITY" using frames mp by simp_all
  have b: "backed P (hp_kernel hp)" using i by blast
  obtain hp1 where "commit_loop (of_nat n * PAGING_PAGE_SIZE) (map (\<lambda>i. of_nat i * PAGING_PAGE_SIZE) [n..<n + m]) hp = (HEAP_STATUS_OK, hp1)"
    using commit_loop_succeeds [OF b nm(1,2) P fr] by blast
  then have c': "commit_pages (of_nat n * PAGING_PAGE_SIZE) (of_nat (n + m) * PAGING_PAGE_SIZE) hp = (HEAP_STATUS_OK, hp1)"
    unfolding commit_pages_def page_offsets_pages [OF nm(1,2)] .
  then have c: "commit_pages ?c (?c + ?g) hp = (HEAP_STATUS_OK, hp1)" using i sum by simp
  from commit_pages_spec [OF b nm(1,2) P c'] have s: "hp_blocks hp1 = ?bs" "hs_block_count (hp_state hp1) = hs_block_count (hp_state hp)"
    by (auto simp: grown_def)
  obtain st index hp' where call: "grow_for len hp = (st, index, hp')" by (cases "grow_for len hp")
  note eq = call [unfolded grow_for_def Let_def m(1)]
  have full: "\<not> (\<not> ?e \<and> length ?bs = HEAP_MAX_BLOCKS)" using room(2) by simp
  have "st = HEAP_STATUS_OK \<and> length (hp_blocks hp') \<le> Suc (length ?bs) \<and> hs_block_count (hp_state hp') = hs_block_count (hp_state hp)"
    using eq big full c s by (auto simp: s)
  moreover have "length (hp_blocks hp') = Suc (length ?bs) \<and> index = length ?bs \<and> 4096 dvd unat (hb_size (hp_blocks hp' ! index))"
    if "?bs \<noteq> [] \<and> hb_used (last ?bs)"
    using that eq big full c s u(1) by (auto simp: s last_conv_nth nth_append)
  ultimately show thesis using that call by blast
qed

lemma align_up_within:
  assumes "0 < unat len" "unat len \<le> 2 ^ 24" "unat len \<le> p * 4096"
  shows "unat (align_up len HEAP_ALIGNMENT) \<le> p * 4096"
proof (rule ccontr)
  note r = align_up_units [OF assms(1,2)]
  assume "\<not> unat (align_up len HEAP_ALIGNMENT) \<le> p * 4096"
  moreover have "(16 :: nat) dvd p * 4096" by (rule dvd_mult) simp
  ultimately have "16 dvd unat (align_up len HEAP_ALIGNMENT) - p * 4096" "0 < unat (align_up len HEAP_ALIGNMENT) - p * 4096"
    using r(1) by simp_all
  then have "16 \<le> unat (align_up len HEAP_ALIGNMENT) - p * 4096" by (rule dvd_imp_le)
  then show False using r(3) assms(3) by linarith
qed

lemma heap_allocate_succeeds:
  assumes h: "heap_at n P hp" and len: "0 < unat len" "unat len \<le> p * 4096"
    and room: "n + p \<le> 4096" "Suc (length (hp_blocks hp)) < HEAP_MAX_BLOCKS"
    and frames: "4 * p \<le> card (free_set (kernel_frames (hp_kernel hp)))"
      "length (pk_supervisor_intents (hp_kernel hp)) + p \<le> PAGING_SUPERVISOR_INTENT_CAPACITY"
  shows "\<exists>ptr hp'. heap_allocate len (Some x) hp = (HEAP_STATUS_OK, Some ptr, hp')"
proof -
  have h': "heap_inv hp" "hs_active (hp_state hp)" using h by (auto simp: heap_inv_def heap_at_def)
  have l: "unat len \<le> 2 ^ 24" using len(2) room(1) by simp
  let ?r = "align_up len HEAP_ALIGNMENT"
  note r = align_up_units [OF len(1) l]
  have r0: "0 < unat ?r" using len(1) r(2) by simp
  have rp: "unat ?r \<le> p * 4096" by (rule align_up_within [OF len(1) l len(2)])
  have big: "len \<noteq> 0" "\<not> len > HEAP_SIZE" "\<not> ?r > HEAP_SIZE" using len(1) l r(4) by (auto simp: word_less_nat_alt HEAP_SIZE_def)
  obtain index hp1 where b: "(case find_fit (hp_blocks hp) ?r of Some index \<Rightarrow> (HEAP_STATUS_OK, index, hp) | None \<Rightarrow> grow_for ?r hp)
      = (HEAP_STATUS_OK, index, hp1)" and n1: "length (hp_blocks hp1) < HEAP_MAX_BLOCKS"
  proof (cases "find_fit (hp_blocks hp) ?r")
    case (Some i)
    then show thesis using that [of i hp] room(2) by simp
  next
    case None
    have "length (hp_blocks hp) < HEAP_MAX_BLOCKS" using room(2) by simp
    from grow_for_succeeds [OF h r0 rp room(1) this frames None] show thesis using that None room(2) by (metis (no_types, lifting) le_less_trans option.simps(4))
  qed
  note a = allocate_block [OF h'(1) r0 r(4) b]
  obtain ok bs where s: "split_block (hp_blocks hp1) index ?r = (ok, bs)" by fastforce
  obtain n1' P1 where at: "heap_at n1' P1 hp1" using a(1) by (auto simp: heap_inv_def)
  then have t: "tiles 0 (hp_blocks hp1) (n1' * 4096)" "coalesced (hp_blocks hp1)" "n1' * 4096 < 2 ^ 64" by (simp_all add: heap_at_def)
  have ix: "index < length (hp_blocks hp1)" "\<not> hb_used (hp_blocks hp1 ! index)" "?r \<le> hb_size (hp_blocks hp1 ! index)" using a(5) by blast+
  have ok using split_block_spec(1) [OF t(1,2) ix(1,2) r0 r(1) ix(3) t(3) s] n1 by simp
  then show ?thesis using h'(2) big b s by (auto simp: heap_allocate_def Let_def)
qed

subsection \<open>A heap\<close>

text \<open>A kernel with an empty hierarchy and free frames, and one page of the window backed.\<close>

definition live_state :: "page_hierarchy \<Rightarrow> paging_state" where
  "live_state h = \<lparr>st_root_physical_address = h_root h, st_table_frames = h_table_frames h, st_fine_regions = 0,
     st_pat_before = 0, st_pat_after = PAGING_TEST_PAT, st_write_combining_pat_entry = 1, st_no_execute_active = True,
     st_write_protect_active = True, st_active = True\<rparr>"

definition kernel_on :: "page_hierarchy \<Rightarrow> paging_world \<Rightarrow> paging_kernel" where
  "kernel_on h w = \<lparr>pk_state = live_state h, pk_live_hierarchy = h\<lparr>h_live := True\<rparr>, pk_kernel_sections = [],
     pk_installed_device_windows = [], pk_fine_region_count = 0, pk_supervisor_intents = [], pk_world = w, pk_cpu = sample_cpu\<rparr>"

lemma sample_live_kernel:
  obtains k where "backed Map.empty k" "guards_absent k" "\<not> cpu_interrupt_flag (pk_cpu k)" "pk_supervisor_intents k = []"
    "2053 \<le> card (free_set (kernel_frames k))" "\<forall>a. address_is_canonical a \<longrightarrow> kernel_translate k a = unmapped"
proof -
  obtain h w where r: "hier_inv h w" "h_arena_capacity h = 0" "empty_table (pw_tables w) (h_root h)"
    "2053 \<le> card (free_set (pw_frames w))" by (rule framed_root_room)
  let ?k = "kernel_on h w"
  have inv: "kernel_inv ?k" using r test_pat by (simp add: kernel_inv_def kernel_on_def live_state_def hier_inv_live)
  have t: "kernel_translate ?k a = unmapped" if "address_is_canonical a" for a
    using empty_translate [OF r(3) that] by (simp add: kernel_on_def translate_live)
  have "address_is_canonical a" if "in_range HEAP_BASE HEAP_SIZE a" for a
    using that by (simp add: in_range_def canonical_iff HEAP_BASE_def HEAP_SIZE_def)
  then have "backed Map.empty ?k" unfolding backed_def using inv t page_in_window by auto
  moreover have "address_is_canonical HEAP_GUARD_BELOW" "address_is_canonical HEAP_GUARD_ABOVE" by code_simp+
  then have "guards_absent ?k" using t by (simp add: guards_absent_def paging_translate_kernel [OF inv])
  ultimately show thesis using that [of ?k] r(4) t by (simp add: kernel_on_def kernel_frames_def sample_cpu_def)
qed

definition idle_state :: heap_state where
  "idle_state = \<lparr>hs_base_address = 0, hs_size = 0, hs_committed_bytes = 0, hs_allocated_bytes = 0, hs_block_count = 0,
     hs_live_allocations = 0, hs_mapped_pages = 0, hs_active = False\<rparr>"

lemma sample_heap:
  obtains hp where "heap_at 0 Map.empty hp" "refreshed hp" "hp_blocks hp = []" "2053 \<le> card (free_set (kernel_frames (hp_kernel hp)))"
    "pk_supervisor_intents (hp_kernel hp) = []"
proof -
  obtain k where k: "backed Map.empty k" "guards_absent k" "pk_supervisor_intents k = []" "2053 \<le> card (free_set (kernel_frames k))"
    by (rule sample_live_kernel)
  let ?hp = "refresh_state \<lparr>hp_blocks = [], hp_state = idle_state\<lparr>hs_active := True\<rparr>, hp_kernel = k\<rparr>"
  have "heap_at 0 Map.empty ?hp" using k unfolding refresh_state_simps by (simp add: heap_at_def idle_state_def)
  then show thesis using that [of ?hp] k by simp
qed

lemma sample_allocation:
  obtains hp ptr hp' where "heap_inv hp" "refreshed hp" "heap_allocate 100 (Some 0) hp = (HEAP_STATUS_OK, Some ptr, hp')"
proof -
  obtain hp where h: "heap_at 0 Map.empty hp" "refreshed hp" "hp_blocks hp = []" "2053 \<le> card (free_set (kernel_frames (hp_kernel hp)))"
    "pk_supervisor_intents (hp_kernel hp) = []" by (rule sample_heap)
  have "\<exists>ptr hp'. heap_allocate 100 (Some 0) hp = (HEAP_STATUS_OK, Some ptr, hp')"
    by (rule heap_allocate_succeeds [OF h(1), of _ 1]) (use h in \<open>simp_all add: HEAP_MAX_BLOCKS_def PAGING_SUPERVISOR_INTENT_CAPACITY_def\<close>)
  then show thesis using that h(1,2) unfolding heap_inv_def by blast
qed

subsection \<open>Properties\<close>

text \<open> C6. A pointer that \<open>heap_allocate\<close> hands out is aligned to sixteen bytes and names a range of at
  least the requested length that lies inside the window, on pages mapped writable and not executable, and
  that shares no byte with an allocation still live; the table then holds the old allocations and this one,
  the invariant holds and \<open>heap_verify\<close> accepts the heap.\<close>

theorem heap_allocate_safe:
  assumes "heap_inv hp" and "heap_allocate len (Some x) hp = (HEAP_STATUS_OK, Some ptr, hp')"
  shows "\<exists>off n. ptr = HEAP_BASE + of_nat off \<and> unat len \<le> n \<and> off + n \<le> 2 ^ 24 \<and> 16 dvd off \<and> 16 dvd n
     \<and> live (hp_blocks hp') = insert (off, n) (live (hp_blocks hp))
     \<and> (\<forall>(o2, n2) \<in> live (hp_blocks hp). off + n \<le> o2 \<or> o2 + n2 \<le> off)
     \<and> (\<forall>a. unat ptr \<le> unat a \<and> unat a < unat ptr + n \<longrightarrow> (\<exists>pa. translate_address (pk_live_hierarchy (hp_kernel hp')) a
            (st_pat_after (pk_state (hp_kernel hp'))) (pk_world (hp_kernel hp')) = (PAGING_STATUS_OK, mapping pa PAGING_WRITE 1)))
     \<and> heap_inv hp' \<and> heap_verify hp' = HEAP_STATUS_OK"
  using assms
proof (cases rule: heap_allocate_spec)
  case (allocated off n)
  obtain m P where at: "heap_at m P hp'" using allocated(3) by (auto simp: heap_inv_def)
  then have t: "tiles 0 (hp_blocks hp') (m * 4096)" "m \<le> 4096" "backed P (hp_kernel hp')" "dom P = {..<m}" by (simp_all add: heap_at_def)
  have l: "(unat off, n) \<in> live (hp_blocks hp')" using allocated(6) by simp
  have b: "unat off + n \<le> m * 4096" "16 dvd n" using live_bounds [OF t(1) l] by auto
  have al: "16 dvd unat off" using l tiles_offset_aligned [OF t(1)] by (auto simp: live_def)
  have p: "unat ptr = 0x400000000 + unat off"
    using allocated(2) b t(2) by (simp add: HEAP_BASE_def) (subst unat_plus_bounded, simp_all)
  have "\<exists>pa. kernel_translate (hp_kernel hp') a = (PAGING_STATUS_OK, mapping pa PAGING_WRITE 1)"
    if a: "unat ptr \<le> unat a" "unat a < unat ptr + n" for a
  proof -
    have "in_range HEAP_BASE HEAP_SIZE a" using a p b t(2) by (simp add: in_range_def HEAP_BASE_def HEAP_SIZE_def)
    then obtain i where i: "i < 4096" "in_page i a" by (rule window_page)
    have "i < m" using in_heap_page_iff [OF i(1)] i(2) a p b(1) by auto
    then obtain f where "P i = Some f" using t(4) by blast
    then show ?thesis using backed_translate [OF t(3) i] by auto
  qed
  moreover have "heap_verify hp' = HEAP_STATUS_OK" using heap_verify_iff allocated(3,4) by blast
  ultimately show ?thesis
    using allocated b al t(2) by (intro exI [of _ "unat off"] exI [of _ n]) auto
qed simp

theorem heap_allocate_safe_witness:
  "\<exists>hp ptr hp'. heap_allocate 100 (Some 0) hp = (HEAP_STATUS_OK, Some ptr, hp') \<and> heap_verify hp' = HEAP_STATUS_OK"
proof -
  obtain hp ptr hp' where h: "heap_inv hp" "heap_allocate 100 (Some 0) hp = (HEAP_STATUS_OK, Some ptr, hp')" by (rule sample_allocation)
  from heap_allocate_safe [OF this] h(2) show ?thesis by blast
qed

text \<open> C16. \<open>heap_free\<close> accepts exactly the pointers of live allocations: an interior pointer, an address
  outside the window, the null pointer and a block already free are refused and nothing changes. On success
  exactly that allocation is gone, every other one is where it was, the free neighbours are merged so that the
  table is again one \<open>heap_verify\<close> accepts, and freeing the pointer again is refused.\<close>

theorem heap_free_exact:
  assumes "heap_inv hp" and "heap_free ptr hp = (st, hp')"
  shows "(st = HEAP_STATUS_OK \<longleftrightarrow> (\<exists>off n. (off, n) \<in> live (hp_blocks hp) \<and> ptr = HEAP_BASE + of_nat off))
     \<and> (st \<noteq> HEAP_STATUS_OK \<longrightarrow> hp' = hp)
     \<and> (st = HEAP_STATUS_OK \<longrightarrow> heap_inv hp' \<and> heap_verify hp' = HEAP_STATUS_OK \<and> fst (heap_free ptr hp') \<noteq> HEAP_STATUS_OK
         \<and> (\<exists>off n. (off, n) \<in> live (hp_blocks hp) \<and> ptr = HEAP_BASE + of_nat off
               \<and> live (hp_blocks hp') = live (hp_blocks hp) - {(off, n)}))"
proof -
  note f = heap_free_spec [OF assms]
  have "heap_verify hp' = HEAP_STATUS_OK \<and> fst (heap_free ptr hp') \<noteq> HEAP_STATUS_OK" if st: "st = HEAP_STATUS_OK"
  proof -
    from f(3) [OF st] obtain off n where i: "heap_inv hp'" "refreshed hp'" and l: "(off, n) \<in> live (hp_blocks hp)"
      "ptr = HEAP_BASE + of_nat off" "live (hp_blocks hp') = live (hp_blocks hp) - {(off, n)}" by blast
    obtain m P where "heap_at m P hp" using assms(1) by (auto simp: heap_inv_def)
    then have t: "tiles 0 (hp_blocks hp) (m * 4096)" "m \<le> 4096" by (simp_all add: heap_at_def)
    obtain st2 hp2 where c: "heap_free ptr hp' = (st2, hp2)" by fastforce
    have "\<not> (\<exists>off' n'. (off', n') \<in> live (hp_blocks hp') \<and> ptr = HEAP_BASE + of_nat off')"
    proof
      assume "\<exists>off' n'. (off', n') \<in> live (hp_blocks hp') \<and> ptr = HEAP_BASE + of_nat off'"
      then obtain off' n' where l': "(off', n') \<in> live (hp_blocks hp)" "(off', n') \<noteq> (off, n)" "ptr = HEAP_BASE + of_nat off'" using l(3) by blast
      have b: "off < 2 ^ LENGTH(64)" "off' < 2 ^ LENGTH(64)" "0 < n" "0 < n'"
        using live_bounds [OF t(1) l(1)] live_bounds [OF t(1) l'(1)] t(2) by auto
      have "(of_nat off :: u64) = of_nat off'" using l(2) l'(3) by simp
      then have "off = off'" using unat_of_nat_small [OF b(1)] unat_of_nat_small [OF b(2)] by metis
      then show False using live_apart [OF t(1) l(1) l'(1)] l'(2) b by auto
    qed
    then have "st2 \<noteq> HEAP_STATUS_OK" using heap_free_spec(1) [OF i(1) c] by blast
    then show ?thesis using heap_verify_iff [OF i(1)] i(2) c by simp
  qed
  then show ?thesis using f by blast
qed

theorem heap_free_exact_witness:
  "\<exists>hp ptr hp'. heap_free ptr hp = (HEAP_STATUS_OK, hp') \<and> fst (heap_free ptr hp') \<noteq> HEAP_STATUS_OK"
proof -
  obtain hp ptr hp' where h: "heap_inv hp" "heap_allocate 100 (Some 0) hp = (HEAP_STATUS_OK, Some ptr, hp')" by (rule sample_allocation)
  from h obtain off n where l: "heap_inv hp'" "(unat off, n) \<in> live (hp_blocks hp')" "ptr = HEAP_BASE + off"
    by (cases rule: heap_allocate_spec) auto
  obtain st hp2 where c: "heap_free ptr hp' = (st, hp2)" by fastforce
  have "ptr = HEAP_BASE + of_nat (unat off)" using l(3) by simp
  then have "st = HEAP_STATUS_OK" using heap_free_exact [OF l(1) c] l(2) by blast
  then show ?thesis using heap_free_exact [OF l(1) c] c by blast
qed

lemma tidy_table_frames:
  assumes k: "kernel_inv k" "kernel_inv k'" and t: "tidy k k'" and o: "same_outside k k'"
    and same: "\<forall>a. kernel_translate k' a = kernel_translate k a"
  shows "h_table_frames (pk_live_hierarchy k') \<le> h_table_frames (pk_live_hierarchy k)"
proof -
  let ?T = "pw_tables (pk_world k)" and ?r = "h_root (pk_live_hierarchy k)"
  have r: "h_root (pk_live_hierarchy k') = ?r" using o by (simp add: same_outside_def)
  have "st_pat_after ((pk_state k')\<lparr>st_table_frames := 0\<rparr>) = st_pat_after ((pk_state k)\<lparr>st_table_frames := 0\<rparr>)"
    using o unfolding same_outside_def by metis
  then have pat: "st_pat_after (pk_state k') = st_pat_after (pk_state k)" by simp
  have "packed_over (empty_paths ?T ?r) (pw_tables (pk_world k')) (h_root (pk_live_hierarchy k'))"
    using t packed_over_empty unfolding tidy_def by blast
  then show ?thesis
    using k same unfolding pat
    by (intro tables_count_le [OF _ _ r]) (auto simp: kernel_inv_def empty_paths_def)
qed

text \<open> C18. An allocation that is refused for lack of memory, halfway through the growth of the window or before
  it, leaves the block table and the counters as they were, every address translates as before, and the kernel holds the
  same frames beside its page tables. When it was the frame allocator that refused, the page tables take no more
  frames than before either; a refusal by \<open>paging_map\<close> for lack of tables can leave empty tables behind.\<close>

theorem heap_allocate_refused:
  assumes "heap_inv hp" and "heap_allocate len (Some x) hp = (st, ptr, hp')"
    and "st = HEAP_STATUS_OUT_OF_MEMORY \<or> st = HEAP_STATUS_MAPPING_FAILURE"
  shows "ptr = Some 0 \<and> hp_blocks hp' = hp_blocks hp \<and> hp_state hp' = hp_state hp \<and> heap_inv hp'
     \<and> kernel_owned (hp_kernel hp') = kernel_owned (hp_kernel hp)
     \<and> (\<forall>a. translate_address (pk_live_hierarchy (hp_kernel hp')) a (st_pat_after (pk_state (hp_kernel hp'))) (pk_world (hp_kernel hp'))
          = translate_address (pk_live_hierarchy (hp_kernel hp)) a (st_pat_after (pk_state (hp_kernel hp))) (pk_world (hp_kernel hp)))
     \<and> (st = HEAP_STATUS_OUT_OF_MEMORY
          \<longrightarrow> h_table_frames (pk_live_hierarchy (hp_kernel hp')) \<le> h_table_frames (pk_live_hierarchy (hp_kernel hp)))"
  using assms(1,2)
proof (cases rule: heap_allocate_spec)
  case refused
  then have r: "refusal hp hp'" using assms(3) by auto
  have "kernel_inv (hp_kernel hp)" "kernel_inv (hp_kernel hp')"
    using assms(1) refused(3) by (auto simp: heap_inv_def heap_at_def backed_def)
  from tidy_table_frames [OF this _ refused(4)] r refused(7)
  have "st = HEAP_STATUS_OUT_OF_MEMORY
      \<longrightarrow> h_table_frames (pk_live_hierarchy (hp_kernel hp')) \<le> h_table_frames (pk_live_hierarchy (hp_kernel hp))"
    by (auto simp: refusal_def)
  then show ?thesis using refused(2,3) r by (simp add: refusal_def)
next
  case (allocated off n)
  then show ?thesis using assms(3) by simp
qed

text \<open>A heap that holds an allocation has no room for one as long as the window.\<close>

lemma free_block_short:
  assumes t: "tiles 0 bs c" and l: "live bs \<noteq> {}" and i: "i < length bs" "\<not> hb_used (bs ! i)"
  shows "unat (hb_size (bs ! i)) < c"
proof -
  obtain o2 n2 where l: "(o2, n2) \<in> live bs" using l by auto
  have "o2 + n2 \<le> c" "0 < n2" using live_bounds [OF t l] by auto
  moreover have "unat (hb_offset (bs ! i)) + unat (hb_size (bs ! i)) \<le> c" using tiles_member [OF t nth_mem [OF i(1)]] by blast
  ultimately show ?thesis using free_apart [OF t i l] by linarith
qed

lemma window_full:
  assumes h: "heap_inv hp" and l: "live (hp_blocks hp) \<noteq> {}"
  shows "heap_allocate HEAP_SIZE (Some x) hp = (HEAP_STATUS_OUT_OF_MEMORY, Some 0, hp)"
proof -
  obtain n P where at: "heap_at n P hp" using h by (auto simp: heap_inv_def)
  note i = at [unfolded heap_at_def]
  let ?bs = "hp_blocks hp" and ?c = "hs_committed_bytes (hp_state hp)"
  let ?e = "length ?bs > 0 \<and> \<not> hb_used (?bs ! (length ?bs - 1))"
  let ?t = "if ?e then hb_size (?bs ! (length ?bs - 1)) else 0"
  have t: "tiles 0 ?bs (n * 4096)" "n * 4096 \<le> 2 ^ 24" using i by simp_all
  obtain o2 n2 where "(o2, n2) \<in> live ?bs" using l by auto
  then have n0: "0 < n * 4096" using live_bounds [OF t(1)] by fastforce
  have s: "unat HEAP_SIZE = 2 ^ 24" "align_up HEAP_SIZE HEAP_ALIGNMENT = HEAP_SIZE" by (simp add: HEAP_SIZE_def) code_simp
  have fit: "find_fit ?bs HEAP_SIZE = None"
    unfolding find_fit_None using free_block_short [OF t(1) l] s(1) t(2) by (fastforce simp: in_set_conv_nth word_less_nat_alt)
  obtain m where m: "align_up (HEAP_SIZE - ?t) PAGING_PAGE_SIZE = of_nat m * PAGING_PAGE_SIZE" "m \<le> 4096"
    "unat HEAP_SIZE \<le> unat ?t + m * 4096" using growth_pages [of HEAP_SIZE ?bs, OF _ _ fit] s(1) by auto
  have short: "unat ?t < n * 4096"
  proof (cases ?e)
    case True
    then show ?thesis using free_block_short [OF t(1) l, of "length ?bs - 1"] by simp
  next
    case False
    then have "?t = 0" by (simp only: if_False)
    then show ?thesis using n0 by simp
  qed
  have "unat HEAP_SIZE < n * 4096 + m * 4096" by (rule le_less_trans [OF m(3) add_strict_right_mono [OF short]])
  then have "4096 < n + m" using s(1) by simp
  moreover have u: "unat (of_nat m * PAGING_PAGE_SIZE) = m * 4096" "unat ?c = n * 4096" using unat_heap_offset m(2) i by simp_all
  moreover have "unat (HEAP_SIZE - ?c) = 4096 * 4096 - n * 4096" using u(2) i by (subst unat_sub) (simp_all add: word_le_nat_alt HEAP_SIZE_def)
  ultimately have "of_nat m * PAGING_PAGE_SIZE > HEAP_SIZE - ?c" using i unfolding word_less_nat_alt by linarith
  then have "grow_for HEAP_SIZE hp = (HEAP_STATUS_OUT_OF_MEMORY, 0, hp)" unfolding grow_for_def Let_def m(1) by simp
  moreover have "HEAP_SIZE \<noteq> 0" by (simp add: HEAP_SIZE_def)
  ultimately show ?thesis using i fit s(2) by (simp add: heap_allocate_def Let_def)
qed

theorem heap_allocate_refused_witness:
  "\<exists>hp hp'. heap_allocate HEAP_SIZE (Some 0) hp = (HEAP_STATUS_OUT_OF_MEMORY, Some 0, hp') \<and> hp_state hp' = hp_state hp"
proof -
  obtain hp ptr hp1 where h: "heap_inv hp" "heap_allocate 100 (Some 0) hp = (HEAP_STATUS_OK, Some ptr, hp1)" by (rule sample_allocation)
  then have h1: "heap_inv hp1" and l: "live (hp_blocks hp1) \<noteq> {}" by (cases rule: heap_allocate_spec; simp)+
  note w = window_full [OF h1 l, of 0]
  from heap_allocate_refused [OF h1 w] w show ?thesis by blast
qed

text \<open>A run of calls with the list of what they returned.\<close>

inductive heap_run :: "heap \<Rightarrow> heap_status list \<Rightarrow> heap \<Rightarrow> bool" where
  run_none: "heap_run hp [] hp"
| run_call: "heap_run hp sts hp1 \<Longrightarrow> heap_call hp1 st hp2 \<Longrightarrow> heap_run hp (sts @ [st]) hp2"

lemma heap_run_keeps:
  assumes "heap_run hp sts hp'" and "heap_inv hp"
  shows "heap_inv hp' \<and> same_outside (hp_kernel hp) (hp_kernel hp')
     \<and> (refreshed hp \<longrightarrow> HEAP_STATUS_OUT_OF_BLOCKS \<notin> set sts \<longrightarrow> refreshed hp')
     \<and> (sts \<noteq> [] \<longrightarrow> last sts = HEAP_STATUS_OK \<longrightarrow> refreshed hp')"
  using assms
proof induction
  case (run_call hp sts hp1 st hp2)
  note ih = run_call.IH [OF run_call.prems]
  note s = heap_call_keeps [OF run_call.hyps(2) conjunct1 [OF ih]]
  show ?case using ih s same_outside_trans by auto
qed (simp add: same_outside_refl)

lemma heap_run_verify:
  assumes r: "heap_run hp sts hp'" and h: "heap_inv hp" and p: "paging_verify ki (hp_kernel hp) = PAGING_STATUS_OK"
    and w: "\<forall>a \<in> watched ki. \<not> in_range HEAP_BASE HEAP_SIZE a"
  shows "heap_inv hp'" and "paging_verify ki (hp_kernel hp') = PAGING_STATUS_OK"
    and "heap_verify hp = HEAP_STATUS_OK \<Longrightarrow> HEAP_STATUS_OUT_OF_BLOCKS \<notin> set sts \<Longrightarrow> heap_verify hp' = HEAP_STATUS_OK"
    and "sts \<noteq> [] \<Longrightarrow> last sts = HEAP_STATUS_OK \<Longrightarrow> heap_verify hp' = HEAP_STATUS_OK"
proof -
  have k: "kernel_inv (hp_kernel hp)" using h by (auto simp: heap_inv_def heap_at_def backed_def)
  note s = heap_run_keeps [OF r h]
  then show "heap_inv hp'" by blast
  show "paging_verify ki (hp_kernel hp') = PAGING_STATUS_OK" using s heap_paging_verify [OF _ k _ p w] by blast
  show "heap_verify hp' = HEAP_STATUS_OK" if "heap_verify hp = HEAP_STATUS_OK" "HEAP_STATUS_OUT_OF_BLOCKS \<notin> set sts"
    using that s heap_verify_iff h by blast
  show "heap_verify hp' = HEAP_STATUS_OK" if "sts \<noteq> []" "last sts = HEAP_STATUS_OK"
    using that s heap_verify_iff by blast
qed

lemma heap_run_verified:
  assumes "(\<lambda>hp hp'. \<exists>st. st \<noteq> HEAP_STATUS_OUT_OF_BLOCKS \<and> heap_call hp st hp')\<^sup>*\<^sup>* hp hp'"
    and "heap_inv hp" and "heap_verify hp = HEAP_STATUS_OK"
    and "paging_verify ki (hp_kernel hp) = PAGING_STATUS_OK" and "\<forall>a \<in> watched ki. \<not> in_range HEAP_BASE HEAP_SIZE a"
  shows "heap_inv hp' \<and> heap_verify hp' = HEAP_STATUS_OK \<and> paging_verify ki (hp_kernel hp') = PAGING_STATUS_OK"
proof -
  have "\<exists>sts. heap_run hp sts hp' \<and> HEAP_STATUS_OUT_OF_BLOCKS \<notin> set sts"
    using assms(1)
  proof (induction rule: rtranclp_induct)
    case (step hp1 hp2)
    then obtain sts st where r: "heap_run hp sts hp1" "HEAP_STATUS_OUT_OF_BLOCKS \<notin> set sts"
      "st \<noteq> HEAP_STATUS_OUT_OF_BLOCKS" "heap_call hp1 st hp2" by blast
    then show ?case by (intro exI [of _ "sts @ [st]"]) (auto intro: run_call)
  qed (auto intro: run_none)
  then obtain sts where "heap_run hp sts hp'" "HEAP_STATUS_OUT_OF_BLOCKS \<notin> set sts" by blast
  from heap_run_verify [OF this(1) assms(2,4,5)] this(2) assms(3) show ?thesis by blast
qed

lemma initialized_window:
  assumes "kernel_inv k" and t: "\<And>a. address_is_canonical a \<Longrightarrow> kernel_translate k a = identity_translation ki sections windows a"
  shows "guards_absent k" and "in_range HEAP_BASE HEAP_SIZE a \<Longrightarrow> kernel_translate k a = unmapped"
proof -
  have u: "kernel_translate k b = unmapped" if "0x100000000 \<le> unat b" "unat b < 2 ^ 47" for b
    using t [of b] that by (simp add: identity_translation_def canonical_iff word_le_nat_alt SAPOTE_EARLY_PHYSICAL_LIMIT_def)
  show "kernel_translate k a = unmapped" if "in_range HEAP_BASE HEAP_SIZE a"
    using that by (intro u) (simp_all add: in_range_def HEAP_BASE_def HEAP_SIZE_def)
  have "kernel_translate k HEAP_GUARD_BELOW = unmapped" "kernel_translate k HEAP_GUARD_ABOVE = unmapped"
    by (intro u; simp add: HEAP_GUARD_BELOW_def HEAP_GUARD_ABOVE_def HEAP_BASE_def HEAP_SIZE_def)+
  then show "guards_absent k" by (simp add: guards_absent_def paging_translate_kernel [OF assms(1)])
qed

lemma sample_booted_heap:
  obtains hp where "heap_inv hp" "refreshed hp" "paging_verify sample_image (hp_kernel hp) = PAGING_STATUS_OK"
proof -
  obtain k where k: "paging_initialize sample_processor sample_image (Some sample_windows) sample_kernel = (PAGING_STATUS_OK, k)"
    by (rule sample_initialized)
  note i = initialized_kernel [OF sample_kernel_facts(1,3) k]
  note w = initialized_window [OF i(1) i(4)]
  let ?hp = "refresh_state \<lparr>hp_blocks = [], hp_state = idle_state\<lparr>hs_active := True\<rparr>, hp_kernel = k\<rparr>"
  have "backed Map.empty k" unfolding backed_def using i(1) w(2) page_in_window by auto
  then have "heap_at 0 Map.empty ?hp" using w(1) unfolding refresh_state_simps by (simp add: heap_at_def idle_state_def)
  then show thesis using that [of ?hp] i(2) by (auto simp: heap_inv_def)
qed

text \<open> C17. No sequence of allocations and frees, whatever their arguments and outcomes, breaks the
  invariant of the heap or makes \<open>paging_verify\<close> fail, when the symbols that it reads back lie outside the heap's window.
  \<open>heap_verify\<close> goes on accepting the heap as long as no call is refused for lack of a block entry, and after such a
  refusal it accepts it again as soon as a call succeeds.\<close>

theorem heap_verify_stable:
  assumes "heap_run hp sts hp'" and "heap_inv hp"
    and "paging_verify ki (hp_kernel hp) = PAGING_STATUS_OK" and "\<forall>a \<in> watched ki. \<not> in_range HEAP_BASE HEAP_SIZE a"
  shows "heap_inv hp' \<and> paging_verify ki (hp_kernel hp') = PAGING_STATUS_OK
     \<and> (heap_verify hp = HEAP_STATUS_OK \<and> HEAP_STATUS_OUT_OF_BLOCKS \<notin> set sts \<longrightarrow> heap_verify hp' = HEAP_STATUS_OK)
     \<and> (sts \<noteq> [] \<and> last sts = HEAP_STATUS_OK \<longrightarrow> heap_verify hp' = HEAP_STATUS_OK)"
  using heap_run_verify [OF assms] by blast

theorem heap_verify_stable_witness:
  "\<exists>hp hp'. heap_run hp [HEAP_STATUS_NULL_ARGUMENT] hp' \<and> heap_verify hp' = HEAP_STATUS_OK
     \<and> paging_verify sample_image (hp_kernel hp') = PAGING_STATUS_OK"
proof -
  obtain hp where h: "heap_inv hp" "refreshed hp" "paging_verify sample_image (hp_kernel hp) = PAGING_STATUS_OK" by (rule sample_booted_heap)
  have v: "heap_verify hp = HEAP_STATUS_OK" using heap_verify_iff h(1,2) by blast
  have w: "\<forall>a \<in> watched sample_image. \<not> in_range HEAP_BASE HEAP_SIZE a"
    by (simp add: watched_def sample_image_def in_range_def HEAP_BASE_def)
  have "heap_free 0 hp = (HEAP_STATUS_NULL_ARGUMENT, hp)" using h(1) by (auto simp: heap_free_def heap_inv_def heap_at_def)
  then have r: "heap_run hp [HEAP_STATUS_NULL_ARGUMENT] hp"
    using run_call [OF run_none call_free, of 0 hp HEAP_STATUS_NULL_ARGUMENT hp] by simp
  from heap_verify_stable [OF r h(1,3) w] r v show ?thesis by auto
qed

text \<open> C19. A request of any length up to what is left of the window succeeds when the block table has
  two entries to spare, the supervisor intents one for each page of the request, and four frames are free for each
  page: one for the page and three for the tables above it.\<close>

theorem heap_allocate_completes:
  assumes "heap_inv hp" and "0 < len" and "unat len \<le> p * 4096"
    and "unat (hs_committed_bytes (hp_state hp)) + p * 4096 \<le> unat HEAP_SIZE" and "length (hp_blocks hp) + 1 < HEAP_MAX_BLOCKS"
    and "4 * p \<le> card (free_set (kernel_frames (hp_kernel hp)))"
    and "length (pk_supervisor_intents (hp_kernel hp)) + p \<le> PAGING_SUPERVISOR_INTENT_CAPACITY"
  shows "\<exists>ptr hp'. heap_allocate len (Some x) hp = (HEAP_STATUS_OK, Some ptr, hp')"
proof -
  obtain n P where at: "heap_at n P hp" using assms(1) by (auto simp: heap_inv_def)
  then have "unat (hs_committed_bytes (hp_state hp)) = n * 4096" using unat_heap_offset by (simp add: heap_at_def)
  then have "n + p \<le> 4096" using assms(4) by (simp add: HEAP_SIZE_def)
  then show ?thesis using assms(2,3,5-7) by (intro heap_allocate_succeeds [OF at]) (simp_all add: word_less_nat_alt)
qed

theorem heap_allocate_completes_witness:
  "\<exists>hp ptr hp'. heap_allocate 0x100000 (Some 0) hp = (HEAP_STATUS_OK, Some ptr, hp')"
proof -
  obtain hp where h: "heap_at 0 Map.empty hp" "hp_blocks hp = []" "2053 \<le> card (free_set (kernel_frames (hp_kernel hp)))"
    "pk_supervisor_intents (hp_kernel hp) = []" by (rule sample_heap)
  then have "heap_inv hp" "hs_committed_bytes (hp_state hp) = 0" by (auto simp: heap_inv_def heap_at_def)
  from heap_allocate_completes [OF this(1), where len = "0x100000" and p = 256 and x = 0] this(2) h show ?thesis
    by (auto simp: HEAP_MAX_BLOCKS_def PAGING_SUPERVISOR_INTENT_CAPACITY_def HEAP_SIZE_def)
qed


text \<open> C37. A heap with 255 blocks, the last of them used and none of the free ones long enough, refuses a
  request that does not fill its last page for lack of a block entry only after it has grown: the new pages stay
  mapped and the new block stays in the table while the count in the state is not refreshed, and \<open>heap_verify\<close>
  reports a failure.\<close>

theorem heap_out_of_blocks_drifts:
  assumes "heap_inv hp" and "heap_verify hp = HEAP_STATUS_OK" and "length (hp_blocks hp) = 255" and "hb_used (hp_blocks hp ! 254)"
    and "find_fit (hp_blocks hp) (align_up len HEAP_ALIGNMENT) = None" and "unat (align_up len HEAP_ALIGNMENT) mod 4096 \<noteq> 0"
    and "0 < len" and "unat len \<le> p * 4096" and "unat (hs_committed_bytes (hp_state hp)) + p * 4096 \<le> unat HEAP_SIZE"
    and "4 * p \<le> card (free_set (kernel_frames (hp_kernel hp)))"
    and "length (pk_supervisor_intents (hp_kernel hp)) + p \<le> PAGING_SUPERVISOR_INTENT_CAPACITY"
  shows "\<exists>hp'. heap_allocate len (Some x) hp = (HEAP_STATUS_OUT_OF_BLOCKS, Some 0, hp') \<and> length (hp_blocks hp') = 256
     \<and> hs_block_count (hp_state hp') = 255 \<and> heap_verify hp' = HEAP_STATUS_VALIDATION_FAILURE"
proof -
  obtain n P where at: "heap_at n P hp" using assms(1) by (auto simp: heap_inv_def)
  then have "unat (hs_committed_bytes (hp_state hp)) = n * 4096" "hs_active (hp_state hp)" using unat_heap_offset by (simp_all add: heap_at_def)
  then have np: "n + p \<le> 4096" and act: "hs_active (hp_state hp)" using assms(9) by (simp_all add: HEAP_SIZE_def)
  have l: "0 < unat len" "unat len \<le> 2 ^ 24" using assms(7,8) np by (simp_all add: word_less_nat_alt)
  let ?r = "align_up len HEAP_ALIGNMENT"
  note u = align_up_units [OF l]
  note r = align_up_within [OF l assms(8)]
  have r0: "0 < unat ?r" using l(1) u(2) by simp
  have bc: "hs_block_count (hp_state hp) = 255" using heap_verify_iff assms(1-3) by (simp add: refreshed_def)
  have ne: "hp_blocks hp \<noteq> []" using assms(3) by auto
  have last: "hp_blocks hp \<noteq> [] \<and> hb_used (last (hp_blocks hp))" "length (hp_blocks hp) < HEAP_MAX_BLOCKS"
    using assms(3,4) ne last_conv_nth [OF ne] by (simp_all add: HEAP_MAX_BLOCKS_def)
  obtain index hp1 where g1: "grow_for ?r hp = (HEAP_STATUS_OK, index, hp1)"
    and "length (hp_blocks hp1) \<le> Suc (length (hp_blocks hp))"
    and g2: "hs_block_count (hp_state hp1) = hs_block_count (hp_state hp)"
    and g3: "hp_blocks hp \<noteq> [] \<and> hb_used (last (hp_blocks hp)) \<longrightarrow> length (hp_blocks hp1) = Suc (length (hp_blocks hp))
       \<and> index = length (hp_blocks hp) \<and> 4096 dvd unat (hb_size (hp_blocks hp1 ! index))"
    by (rule grow_for_succeeds [OF at r0 r np last(2) assms(10,11,5)])
  then have g: "grow_for ?r hp = (HEAP_STATUS_OK, index, hp1)" "hs_block_count (hp_state hp1) = 255" using bc by simp_all
  have g': "length (hp_blocks hp1) = 256" "4096 dvd unat (hb_size (hp_blocks hp1 ! index))" using g3 last(1) assms(3) by auto
  have b: "(case find_fit (hp_blocks hp) ?r of Some index \<Rightarrow> (HEAP_STATUS_OK, index, hp) | None \<Rightarrow> grow_for ?r hp)
      = (HEAP_STATUS_OK, index, hp1)" using assms(5) g(1) by simp
  note a = allocate_block [OF assms(1) r0 u(4) b]
  obtain ok bs where s: "split_block (hp_blocks hp1) index ?r = (ok, bs)" by fastforce
  obtain n1 P1 where "heap_at n1 P1 hp1" using a(1) by (auto simp: heap_inv_def)
  then have t: "tiles 0 (hp_blocks hp1) (n1 * 4096)" "coalesced (hp_blocks hp1)" "n1 * 4096 < 2 ^ 64" by (simp_all add: heap_at_def)
  have ix: "index < length (hp_blocks hp1)" "\<not> hb_used (hp_blocks hp1 ! index)" "?r \<le> hb_size (hp_blocks hp1 ! index)" using a(5) by blast+
  note sp = split_block_spec(1,2) [OF t(1,2) ix(1,2) r0 u(1) ix(3) t(3) s]
  have "hb_size (hp_blocks hp1 ! index) \<noteq> ?r" using g'(2) assms(6) by (auto simp: dvd_eq_mod_eq_0)
  then have no: "\<not> ok" using sp(1) g'(1) by (simp add: HEAP_MAX_BLOCKS_def)
  have big: "len \<noteq> 0" "\<not> len > HEAP_SIZE" "\<not> ?r > HEAP_SIZE" using l u(4) by (auto simp: word_less_nat_alt HEAP_SIZE_def)
  have "heap_allocate len (Some x) hp = (HEAP_STATUS_OUT_OF_BLOCKS, Some 0, hp1)"
    using act big b s no sp(2) by (simp add: heap_allocate_def Let_def)
  moreover have "\<not> refreshed hp1" using g(2) g'(1) by (simp add: refreshed_def)
  ultimately show ?thesis using g(2) g'(1) heap_verify_eq [OF a(1)] by auto
qed

text \<open>A page divided into 255 allocations.\<close>

definition many_blocks :: "heap_block list" where
  "many_blocks = map (\<lambda>i. \<lparr>hb_offset = of_nat (16 * i), hb_size = 16, hb_used = True\<rparr>) [0..<254]
     @ [\<lparr>hb_offset = 4064, hb_size = 32, hb_used = True\<rparr>]"

lemma many_blocks_facts: "tiles 0 many_blocks 4096" "coalesced many_blocks" "length many_blocks = 255" "\<forall>b \<in> set many_blocks. hb_used b"
proof -
  have "tiles 0 (map (\<lambda>i. \<lparr>hb_offset = of_nat (16 * i), hb_size = 16, hb_used = True\<rparr>) [0..<n]) (16 * n)" if "n \<le> 254" for n
    using that
  proof (induction n)
    case (Suc n)
    then have "unat (of_nat (16 * n) :: u64) = 16 * n" by (intro unat_of_nat_small) simp
    then show ?case using Suc by (simp add: tiles_snoc del: of_nat_mult)
  qed simp
  from this [of 254] show "tiles 0 many_blocks 4096" by (simp add: many_blocks_def tiles_snoc)
  show u: "\<forall>b \<in> set many_blocks. hb_used b" by (auto simp: many_blocks_def)
  have "coalesced bs" if "\<forall>b \<in> set bs. hb_used b" for bs
    using that by (induction bs) (auto simp: successively_Cons)
  then show "coalesced many_blocks" using u by blast
  show "length many_blocks = 255" by (simp add: many_blocks_def)
qed

lemma sample_page_kernel:
  obtains k f where "backed [0 \<mapsto> f] k" "guards_absent k" "length (pk_supervisor_intents k) = 1" "2049 \<le> card (free_set (kernel_frames k))"
proof -
  obtain k where k: "backed Map.empty k" "guards_absent k" "pk_supervisor_intents k = []" "2053 \<le> card (free_set (kernel_frames k))"
    by (rule sample_live_kernel)
  have inv: "kernel_inv k" using k(1) by (simp add: backed_def)
  have fi: "frame_inv (kernel_frames k)" "allocator_initialized (kernel_frames k)"
    using kernel_pool(1) [OF inv] by (simp_all add: frame_pool_inv_def)
  have "free_set (kernel_frames k) \<noteq> {}" using k(4) by auto
  then obtain g fs where a: "frame_allocate (Some 0) (kernel_frames k) = (FRAME_STATUS_OK, Some (of_nat g * SAPOTE_PAGE_SIZE), fs)"
    "free_set fs = free_set (kernel_frames k) - {g}" "g \<in> free_set (kernel_frames k)" using frame_allocate_cases(2) [OF fi, of 0] by blast
  obtain f where f: "kernel_inv (set_frames fs k)" "kernel_owned (set_frames fs k) = insert f (kernel_owned k)" "4096 dvd unat f" "unat f < 2 ^ 32"
    by (rule kernel_take [OF inv a(1)])
  have free: "card (free_set fs) = card (free_set (kernel_frames k)) - 1"
    using a(2,3) finite_subset [OF frame_set_bounds(1)] by simp
  have b: "backed Map.empty (set_frames fs k)" by (rule backed_frames [OF k(1) f(1)]) simp
  obtain st k2 where m: "paging_map (heap_page 0) f PAGING_PAGE_SIZE PAGING_WRITE (set_frames fs k) = (st, k2)" by fastforce
  have room: "3 \<le> card (free_set (kernel_frames (set_frames fs k)))"
    "length (pk_supervisor_intents (set_frames fs k)) < PAGING_SUPERVISOR_INTENT_CAPACITY"
    using free k(3,4) by (simp_all add: PAGING_SUPERVISOR_INTENT_CAPACITY_def)
  have z: "(0 :: nat) < 4096" "(Map.empty :: nat \<rightharpoonup> u64) 0 = None" by simp_all
  note r = kernel_map_room [OF b z f(3,4) room m]
  have "f \<in> kernel_owned (set_frames fs k)" "f \<notin> ran (Map.empty :: nat \<rightharpoonup> u64)" using f(2) by auto
  note p = page_mapped [OF b z this m [unfolded r(1)]]
  have inv2: "kernel_inv k2" using p(1) by (simp add: backed_def)
  have "guards_absent k2" using guards_outside [OF inv inv2 same_outside_trans [OF same_outside_frames p(3)]] k(2) by simp
  then show thesis using that [OF p(1)] r(2,3) k(3,4) free by simp
qed

theorem heap_out_of_blocks_drifts_witness:
  "\<exists>hp hp'. heap_verify hp = HEAP_STATUS_OK \<and> heap_allocate 16 (Some 0) hp = (HEAP_STATUS_OUT_OF_BLOCKS, Some 0, hp')
     \<and> heap_verify hp' = HEAP_STATUS_VALIDATION_FAILURE"
proof -
  obtain k f where k: "backed [0 \<mapsto> f] k" "guards_absent k" "length (pk_supervisor_intents k) = 1" "2049 \<le> card (free_set (kernel_frames k))"
    by (rule sample_page_kernel)
  let ?hp = "refresh_state \<lparr>hp_blocks = many_blocks,
      hp_state = idle_state\<lparr>hs_active := True, hs_committed_bytes := 4096, hs_mapped_pages := 1\<rparr>, hp_kernel = k\<rparr>"
  have "heap_at 1 [0 \<mapsto> f] ?hp"
    using k many_blocks_facts unfolding refresh_state_simps
    by (auto simp: heap_at_def idle_state_def PAGING_PAGE_SIZE_def HEAP_MAX_BLOCKS_def)
  then have h: "heap_inv ?hp" unfolding heap_inv_def by blast
  then have v: "heap_verify ?hp = HEAP_STATUS_OK" using heap_verify_iff by simp
  have a: "align_up 16 HEAP_ALIGNMENT = 16" by code_simp
  have fit: "find_fit (hp_blocks ?hp) (align_up 16 HEAP_ALIGNMENT) = None"
    using many_blocks_facts(4) by (simp add: find_fit_None)
  have used: "hb_used (hp_blocks ?hp ! 254)" using many_blocks_facts(3,4) nth_mem [of 254 many_blocks] by simp
  have c: "hs_committed_bytes (hp_state ?hp) = 4096" by (simp add: refresh_state_def)
  from heap_out_of_blocks_drifts [OF h v _ used fit, of 1 0] a c k(3,4) v many_blocks_facts(3) show ?thesis
    by (auto simp: HEAP_SIZE_def PAGING_SUPERVISOR_INTENT_CAPACITY_def)
qed

end
