(* ===== verification/Spec2Isabelle.thy ===== *)
theory Spec2Isabelle
  imports Boot_Info Heap_Use
begin

text \<open>
  Sapote is a freestanding \<open>x86_64\<close> operating system kernel, written in C with some assembly and Rust. This
  library verifies how it takes hold of memory: from the boot information the loader leaves, through
  the allocator of physical frames and the page tables, to the heap of the kernel. File names are
  those of the repository (\<open>src/kernel/paging.c\<close> and so on).

  \<^bold>\<open>The parts and how they interact.\<close> \<open>boot_information_parse\<close> reads the block of the loader and
  records the memory map and the framebuffer. \<open>frame_allocator_initialize\<close> builds from that map the
  bitmaps of eligible and used frames. The page tables take their frames from that allocator:
  \<open>paging_initialize\<close> validates the device windows, builds the identity map of the low 4 GiB, reads it
  back, and loads it into the processor; \<open>paging_map\<close>, \<open>paging_unmap\<close> and \<open>paging_protect\<close> then change
  the live hierarchy. The heap commits pages to its window with \<open>frame_allocate\<close> and \<open>paging_map\<close> and
  gives them back with \<open>paging_unmap\<close> and \<open>frame_release\<close>. The theorem at the end of this theory
  follows the three memory components through boot and any later use.

  \<^bold>\<open>The theories.\<close>

  \<^item> \<open>Prelude\<close>: the word types and the lemmas on words, ranges and lists that the components share.

  \<^item> \<open>Boot_Info\<close>: \<open>src/kernel/multiboot2.c\<close> and \<open>include/sapote/boot.h\<close>, every function: the tag walk,
    the memory map, the framebuffer, the modules. Memory is a function from addresses to bytes. The
    parser reads only the declared block; what it records lies inside it and does not wrap; the pixels
    of an accepted framebuffer lie inside its span.

  \<^item> \<open>Frames\<close>: \<open>src/kernel/physical_memory.c\<close>, every operation: initialisation from the memory map,
    single and contiguous allocation and release, reservation, the statistics. A frame handed out is
    available memory that nobody holds, the counters are the sizes of the sets, contiguous allocation
    refuses only when there is no fitting range, release undoes allocation. The contract of a source of
    resources (locales \<open>resource_source\<close> and \<open>resource_pool\<close>) is what the table supply relies on.

  \<^item> \<open>Page_Bits\<close>, \<open>Page_Tables\<close>: the entry encoding, the page attribute table and the range engine of
    \<open>src/kernel/paging.c\<close> (walk, map, unmap, protect, translate, audit, reclaiming empty tables).
    Tables are a function from a table and an index to the entry.

  \<^item> \<open>Page_Walk\<close>, \<open>Page_Ranges\<close>, \<open>Page_Census\<close>, \<open>Page_Spaces\<close>, \<open>Page_Supply\<close>: the proofs about that engine.
    The invariant says that the tables form a tree of frames the allocator gave out and that links take
    no permission away. The range operations refine the update of an address space (locale
    \<open>address_space\<close>), failures included; no page is ever writable and executable; the audit counts what
    translation sees; every changed page of the live hierarchy is invalidated; mapping and unmapping
    keeps no table; a mapping refused for lack of tables keeps those it linked; an accepted range is
    canonical throughout up to half the address space; how many frames are enough for a call to succeed.

  \<^item> \<open>Device_Windows\<close>: the registry of device windows, its sort and its validation.

  \<^item> \<open>Identity_Map\<close>: the sections of the kernel image and the builder of the identity map. It gives each
    address exactly the translation its intent says, and succeeds when enough frames are free.

  \<^item> \<open>Kernel_Paging\<close>, \<open>Paging_Install\<close>: the file-scope state of \<open>src/kernel/paging.c\<close>, the registers it
    uses (with \<open>src/arch/x86_64/cpu.S\<close>), the supervisor intents, the public calls on the live
    hierarchy, \<open>paging_verify\<close> and \<open>paging_initialize\<close> with its failure paths.
    What a register holds after a write is a parameter, the \<open>processor\<close>; theorems that rely on it say so
    (\<open>holds\<close>, \<open>restorable\<close>). An installed kernel has the rights of its sections and windows and keeps
    passing \<open>paging_verify\<close>; a refused initialisation leaves the registers as they were.

  \<^item> \<open>Heap_Blocks\<close>, \<open>Kernel_Heap\<close>, \<open>Heap_Use\<close>: \<open>src/kernel/heap.c\<close>, every operation: the block table,
    growth and its undoing, allocation, freeing, verification. Allocations are aligned, inside the window,
    on writable pages and disjoint; freeing accepts exactly live pointers; an allocation refused for lack
    of memory changes no block, no counter, no translation and no frame beside the page tables. Every
    sequence of calls keeps the invariant and \<open>paging_verify\<close>; \<open>heap_verify\<close> fails only after an
    allocation refused for lack of a block entry, until the next call that succeeds.

  \<^bold>\<open>State, errors, integers.\<close> Each file-scope \<open>static\<close> is a field of a record that the operations take and
  return; a pointer argument that may be null is an option; an output parameter is a component of the
  result. Statuses are datatypes with the names of the C enumerations, and every early return is a
  branch. Integers of the C types are machine words and wrap; loop counters and table indices, which
  are bounded by the arrays they index, are natural numbers. Loops are folds or structural recursions
  over the list of values of their counter, so every definition is total and no fuel is needed; the
  loops whose counter is not structural (the tag and region walks, the searches for frames, the release
  of empty tables) have a termination proof by a measure. The sizes are those of the code: four levels of 512 entries, 1,048,576
  frames, 256 heap blocks, 8,192 supervisor intents.

  \<^bold>\<open>Hypotheses.\<close> The theorems about a running component assume that its state was reached through its
  operations, or the invariant that every operation is proved to keep. Lengths of ranges are below
  \<open>2^63\<close> where the code would wrap. Every theorem with a hypothesis is followed by an instance on concrete data.

  \<^bold>\<open>Not modelled.\<close> The text of status strings and the self-tests of the modelled files, whose scenarios
  appear as the samples of the instances. Caches and the translation buffer beyond the log of
  invalidations and cache flushes; accessed and dirty bits set by the processor. Interrupts: the code
  modelled here runs with interrupts off and on one processor. The drivers (console, interrupt
  controllers, timers, PCI, NVMe, xHCI, display) are accesses to devices whose behaviour is not part of
  the sources. Process address spaces, the scheduler, the file system, the program loader, the boot plan and the user interface
  are further components that this library does not reach yet.
\<close>

lemma initialized_interrupts:
  assumes "paging_initialize px ki (Some ws) k = (PAGING_STATUS_OK, k')"
  shows "\<not> cpu_interrupt_flag (pk_cpu k')"
proof -
  obtain vs before where c: "\<not> st_active (pk_state k)"
    "paging_device_windows_validate (Some ws) (Some []) = (PAGING_STATUS_OK, vs)"
    "validate_kernel_layout (ki_kernel_start ki) (ki_kernel_end ki) = PAGING_STATUS_OK"
    "reject_kernel_device_overlap ki (the vs) = PAGING_STATUS_OK"
    "\<not> cpu_interrupt_flag (pk_cpu k)" "processor_status px (pk_cpu k) = (PAGING_STATUS_OK, before)"
    by (rule paging_initialize_checks [OF assms])
  let ?pat = "pat_replace_entry before PAT_WRITE_COMBINING_ENTRY PAT_TYPE_WRITE_COMBINING"
  obtain k1 where b: "build_hierarchy px ki (the vs) ?pat k = (PAGING_STATUS_OK, k1)"
    and i: "install_hierarchy px ki (the vs) before ?pat k1 = (PAGING_STATUS_OK, k')"
    using assms unfolding paging_initialize_eq [OF c] by (auto split: prod.split_asm if_split_asm)
  have "enable_processor_features px (pk_cpu k) = (PAGING_STATUS_OK, pk_cpu k1)"
    using b unfolding build_hierarchy_def by (auto simp: Let_def split: prod.split_asm if_split_asm)
  then have "cpu_interrupt_flag (pk_cpu k1) = cpu_interrupt_flag (pk_cpu k)" by (rule enable_processor_features_OK(3))
  moreover have "cpu_interrupt_flag (pk_cpu k') = cpu_interrupt_flag (pk_cpu k1)"
    using i unfolding install_hierarchy_def Let_def
    by (auto simp: cpu_write_def cpu_write_back_and_invalidate_cache_def split: if_split_asm)
  ultimately show ?thesis using c(5) by simp
qed

text \<open>The symbols \<open>paging_verify\<close> reads back lie in the identity map, far below the window of the heap.\<close>

lemma watched_outside:
  assumes v: "paging_verify ki k = PAGING_STATUS_OK" and k: "kernel_inv k"
    and t: "\<And>a. address_is_canonical a \<Longrightarrow> kernel_translate k a = identity_translation ki sections windows a"
  shows "\<forall>a \<in> watched ki. \<not> in_range HEAP_BASE HEAP_SIZE a"
proof -
  have out: "\<not> in_range HEAP_BASE HEAP_SIZE a" if "verify_symbol k a p" for a p
    using initialized_window(2) [OF k t, of a] that by (auto simp: verify_symbol_def)
  show ?thesis using v out unfolding paging_verify_OK [OF k] watched_def by (auto simp: in_range_def HEAP_BASE_def)
qed

text \<open> C5. The three memory components together: after the frame allocator, the page tables and the heap have been
  initialised in this order, no sequence of allocations and frees that is not refused for lack of a block entry
  makes \<open>heap_verify\<close> or \<open>paging_verify\<close> fail.\<close>

theorem memory_boot_verified:
  assumes "frame_allocator_initialize memory ks ke (Some context) fs0 = (FRAME_STATUS_OK, fs)" and "pw_frames (pk_world k) = fs"
    and "pk_supervisor_intents k = []" and "paging_initialize px ki (Some ws) k = (PAGING_STATUS_OK, k1)"
    and "heap_initialize (hp\<lparr>hp_kernel := k1\<rparr>) = (HEAP_STATUS_OK, hp1)"
    and "(\<lambda>hp hp'. \<exists>st. st \<noteq> HEAP_STATUS_OUT_OF_BLOCKS \<and> heap_call hp st hp')\<^sup>*\<^sup>* hp1 hp2"
  shows "heap_verify hp2 = HEAP_STATUS_OK \<and> paging_verify ki (hp_kernel hp2) = PAGING_STATUS_OK"
proof -
  note f = frame_allocator_initialize_OK [OF assms(1)]
  have pool: "frame_pool_inv (pw_frames (pk_world k))" using f(4,6) assms(2) by (simp add: frame_pool_inv_def)
  have n: "length (pk_supervisor_intents k) \<le> PAGING_SUPERVISOR_INTENT_CAPACITY" using assms(3) by simp
  note i = initialized_kernel [OF pool n assms(4)]
  have e: "hp_kernel (hp\<lparr>hp_kernel := k1\<rparr>) = k1" by simp
  have empty: "\<forall>a. in_range HEAP_BASE HEAP_SIZE a \<longrightarrow> kernel_translate (hp_kernel (hp\<lparr>hp_kernel := k1\<rparr>)) a = unmapped"
    unfolding e using initialized_window(2) [OF i(1,4)] by blast
  have "kernel_inv (hp_kernel (hp\<lparr>hp_kernel := k1\<rparr>))" unfolding e by (rule i(1))
  note h = heap_initialize_spec [OF this empty assms(5), unfolded e]
  have v: "heap_verify hp1 = HEAP_STATUS_OK" using heap_verify_iff h(1,2) by blast
  have p: "paging_verify ki (hp_kernel hp1) = PAGING_STATUS_OK" unfolding h(4) by (rule i(2))
  note w = watched_outside [OF i(2,1,4)]
  show ?thesis using heap_run_verified [OF assms(6) h(1) v p w] by blast
qed


theorem memory_boot_verified_witness:
  "\<exists>k1 hp1. paging_initialize sample_processor sample_image (Some sample_windows) sample_kernel = (PAGING_STATUS_OK, k1)
     \<and> heap_initialize \<lparr>hp_blocks = [], hp_state = idle_state, hp_kernel = k1\<rparr> = (HEAP_STATUS_OK, hp1)
     \<and> heap_verify hp1 = HEAP_STATUS_OK \<and> paging_verify sample_image (hp_kernel hp1) = PAGING_STATUS_OK"
proof -
  obtain k where k: "paging_initialize sample_processor sample_image (Some sample_windows) sample_kernel = (PAGING_STATUS_OK, k)"
    by (rule sample_initialized)
  note i = initialized_kernel [OF sample_kernel_facts(1,3) k]
  let ?hp = "\<lparr>hp_blocks = [], hp_state = idle_state, hp_kernel = k\<rparr>"
  have "st_active (pk_state k)" using i(1) by (simp add: kernel_inv_def)
  then obtain hp1 where h: "heap_initialize ?hp = (HEAP_STATUS_OK, hp1)"
    using initialized_window(1) [OF i(1,4)] initialized_interrupts [OF k] by (auto simp: heap_initialize_def idle_state_def paging_is_active_def)
  have f: "pw_frames (pk_world sample_kernel) = sample_frames" "pk_supervisor_intents sample_kernel = []"
    by (simp_all add: sample_kernel_def reset_state_def framed_world_def)
  from memory_boot_verified [OF sample_frames_OK f k, of ?hp hp1 hp1] h k show ?thesis by auto
qed

end
